(* ===== verification/CPrelude.thy ===== *)
theory CPrelude
  imports Main "HOL-Library.Word" "HOL-Library.Sublist"
begin

text \<open>
  Shared vocabulary of the development: how the C values of the library are represented, and
  the parts of the C standard library that the modelled sources call.

  \<^item> A C string is the list of its characters up to, and excluding, the terminating null
    byte; a pointer into it is the suffix that starts there, so reading the pointer is
    \<open>deref\<close>, \<open>p[i]\<close> is \<open>char_at p i\<close>, advancing is \<open>drop\<close> and the difference of two
    pointers is the difference of the lengths.
  \<^item> An octet is an \<open>8 word\<close>, a fixed-width unsigned integer a word of that width; C
    \<open>int\<close> and \<open>long\<close> are \<open>int\<close> where the code can make them negative and \<open>nat\<close> where
    it counts. \<open>long\<close> is 64 bits wide.
  \<^item> The character classes are those of the "C" locale.
\<close>

unbundle bit_operations_syntax

named_theorems cstr_simps \<open>rewriting of C string primitives\<close>
named_theorems suffix_intros \<open>scanners return a suffix of their input\<close>

type_synonym u8 = "8 word"
type_synonym u16 = "16 word"
type_synonym u32 = "32 word"
type_synonym u64 = "64 word"

section \<open>Characters\<close>

abbreviation NUL :: char where
  "NUL \<equiv> CHR 0x00"

definition ord :: "char \<Rightarrow> nat" where
  "ord c = of_char c"

definition chr :: "nat \<Rightarrow> char" where
  "chr n = char_of n"

definition isdigit :: "char \<Rightarrow> bool" where
  "isdigit c \<longleftrightarrow> 48 \<le> ord c \<and> ord c \<le> 57"

definition isupper :: "char \<Rightarrow> bool" where
  "isupper c \<longleftrightarrow> 65 \<le> ord c \<and> ord c \<le> 90"

definition islower :: "char \<Rightarrow> bool" where
  "islower c \<longleftrightarrow> 97 \<le> ord c \<and> ord c \<le> 122"

definition isalpha :: "char \<Rightarrow> bool" where
  "isalpha c \<longleftrightarrow> isupper c \<or> islower c"

definition isalnum :: "char \<Rightarrow> bool" where
  "isalnum c \<longleftrightarrow> isalpha c \<or> isdigit c"

definition isxdigit :: "char \<Rightarrow> bool" where
  "isxdigit c \<longleftrightarrow> isdigit c \<or> (65 \<le> ord c \<and> ord c \<le> 70) \<or> (97 \<le> ord c \<and> ord c \<le> 102)"

definition isspace :: "char \<Rightarrow> bool" where
  "isspace c \<longleftrightarrow> ord c = 32 \<or> (9 \<le> ord c \<and> ord c \<le> 13)"

definition tolower :: "char \<Rightarrow> char" where
  "tolower c = (if isupper c then chr (ord c + 32) else c)"

definition toupper :: "char \<Rightarrow> char" where
  "toupper c = (if islower c then chr (ord c - 32) else c)"

text \<open>The value of a plain \<open>char\<close> read as an \<open>int\<close>: plain \<open>char\<close> is signed on the
  platforms the library is built for.\<close>

definition schar :: "char \<Rightarrow> int" where
  "schar c = (if ord c < 128 then int (ord c) else int (ord c) - 256)"

lemmas ctype_defs = isdigit_def isupper_def islower_def isalpha_def isalnum_def
  isxdigit_def isspace_def

lemma ord_less_256 [simp]: "ord c < 256"
  by (simp add: ord_def)

lemma ord_chr [simp]: "n < 256 \<Longrightarrow> ord (chr n) = n"
  by (simp add: ord_def chr_def)

lemma chr_ord [simp]: "chr (ord c) = c"
  by (simp add: ord_def chr_def)

lemma ord_inject [simp]: "ord c = ord d \<longleftrightarrow> c = d"
  by (metis chr_ord)

lemma ord_NUL [simp]: "ord NUL = 0"
  by (simp add: ord_def)

lemma isupper_ord: "isupper c \<Longrightarrow> ord c + 32 < 256"
  by (simp add: isupper_def)

lemma ord_tolower: "ord (tolower c) = (if isupper c then ord c + 32 else ord c)"
  by (auto simp: tolower_def isupper_def)

lemma ord_toupper: "ord (toupper c) = (if islower c then ord c - 32 else ord c)"
  by (auto simp: toupper_def islower_def)

lemma tolower_idem [simp]: "tolower (tolower c) = tolower c"
  by (rule ord_inject [THEN iffD1]) (auto simp: ord_tolower isupper_def)

lemma tolower_toupper [simp]: "tolower (toupper c) = tolower c"
  by (rule ord_inject [THEN iffD1]) (auto simp: ord_tolower ord_toupper isupper_def islower_def)

lemma tolower_eq_NUL [simp]: "tolower c = NUL \<longleftrightarrow> c = NUL"
proof -
  have "tolower c = NUL \<longleftrightarrow> ord (tolower c) = ord NUL" by (simp only: ord_inject)
  also have "\<dots> \<longleftrightarrow> ord c = ord NUL" by (simp only: ord_tolower ord_NUL) (simp add: isupper_def)
  finally show ?thesis by (simp only: ord_inject)
qed

section \<open>Pointers into C strings\<close>

definition deref :: "string \<Rightarrow> char" where
  "deref s = (case s of [] \<Rightarrow> NUL | c # _ \<Rightarrow> c)"

definition char_at :: "string \<Rightarrow> nat \<Rightarrow> char" where
  "char_at s i = (if i < length s then s ! i else NUL)"

lemma deref_simps [simp, cstr_simps]: "deref [] = NUL" "deref (c # s) = c"
  by (simp_all add: deref_def)

lemma char_at_simps [simp, cstr_simps]:
  "char_at [] i = NUL" "char_at (c # s) 0 = c" "char_at (c # s) (Suc i) = char_at s i"
  by (simp_all add: char_at_def)

lemma char_at_0 [simp]: "char_at s 0 = deref s"
  by (cases s) simp_all

lemma deref_drop [simp]: "deref (drop n s) = char_at s n"
  by (induction s arbitrary: n) (auto simp: char_at_def drop_Cons split: nat.split)

lemma char_at_drop [simp]: "char_at (drop n s) i = char_at s (n + i)"
  by (auto simp: char_at_def)

lemma char_at_append [simp]: "i < length s \<Longrightarrow> char_at (s @ t) i = s ! i"
  by (simp add: char_at_def nth_append)

lemma char_at_append_length [simp]: "char_at (s @ t) (length s) = deref t"
  by (cases t) (simp_all add: char_at_def nth_append)

lemma deref_append [simp]: "s \<noteq> [] \<Longrightarrow> deref (s @ t) = deref s"
  by (cases s) simp_all

lemma deref_neq_NUL: "deref s \<noteq> NUL \<Longrightarrow> s \<noteq> []"
  by (cases s) simp_all

lemma deref_in_set: "deref s \<noteq> NUL \<Longrightarrow> deref s \<in> set s"
  by (cases s) simp_all

lemma char_at_neq_NUL: "char_at s i \<noteq> NUL \<Longrightarrow> i < length s"
  by (auto simp: char_at_def split: if_splits)

text \<open>\<open>strchr\<close> finds a character of the string, or its terminating null.\<close>

definition strchr :: "string \<Rightarrow> char \<Rightarrow> string option" where
  "strchr s c = (let r = dropWhile (\<lambda>x. x \<noteq> c) s
                 in if r = [] \<and> c \<noteq> NUL then None else Some r)"

definition in_set :: "string \<Rightarrow> char \<Rightarrow> bool" where
  "in_set s c \<longleftrightarrow> strchr s c \<noteq> None"

definition strspn :: "string \<Rightarrow> string \<Rightarrow> nat" where
  "strspn s accept = length (takeWhile (\<lambda>c. c \<in> set accept) s)"

definition strcspn :: "string \<Rightarrow> string \<Rightarrow> nat" where
  "strcspn s reject = length (takeWhile (\<lambda>c. c \<notin> set reject) s)"

text \<open>\<open>strncmp (a, b, length b) == 0\<close> for a constant \<open>b\<close>, and its caseless form.\<close>

definition strncaseeq :: "string \<Rightarrow> string \<Rightarrow> bool" where
  "strncaseeq s pre \<longleftrightarrow> map tolower (take (length pre) s) = map tolower pre"

lemma in_set_iff: "c \<noteq> NUL \<Longrightarrow> in_set s c \<longleftrightarrow> c \<in> set s"
  by (auto simp: in_set_def strchr_def Let_def dropWhile_eq_Nil_conv)

lemma in_set_NUL [simp]: "in_set s NUL"
  by (simp add: in_set_def strchr_def Let_def)

lemma strspn_le [simp]: "strspn s d \<le> length s"
  by (simp add: strspn_def length_takeWhile_le)

lemma strcspn_le [simp]: "strcspn s d \<le> length s"
  by (simp add: strcspn_def length_takeWhile_le)

lemma drop_strspn: "drop (strspn s d) s = dropWhile (\<lambda>c. c \<in> set d) s"
  by (simp add: strspn_def dropWhile_eq_drop)

lemma drop_strcspn: "drop (strcspn s d) s = dropWhile (\<lambda>c. c \<notin> set d) s"
  by (simp add: strcspn_def dropWhile_eq_drop)

section \<open>Numbers in strings\<close>

definition LONG_MAX :: int where
  "LONG_MAX = 2 ^ 63 - 1"

definition LONG_MIN :: int where
  "LONG_MIN = - (2 ^ 63)"

definition digit_value :: "char \<Rightarrow> nat" where
  "digit_value c =
     (if isdigit c then ord c - 48
      else if isupper c then ord c - 55
      else if islower c then ord c - 87
      else 36)"

definition is_base_digit :: "nat \<Rightarrow> char \<Rightarrow> bool" where
  "is_base_digit b c \<longleftrightarrow> digit_value c < b"

definition digits_value :: "nat \<Rightarrow> string \<Rightarrow> nat" where
  "digits_value b ds = foldl (\<lambda>acc c. acc * b + digit_value c) 0 ds"

text \<open>The optional sign and the optional \<open>0x\<close> prefix (base 16 or 0), or the leading zero that
  selects base 8 (base 0).\<close>

definition strtol_sign :: "string \<Rightarrow> bool \<times> string" where
  "strtol_sign s =
     (if deref s = CHR ''-'' then (True, tl s)
      else if deref s = CHR ''+'' then (False, tl s) else (False, s))"

definition strtol_prefix :: "nat \<Rightarrow> string \<Rightarrow> nat \<times> string" where
  "strtol_prefix b s =
     (if (b = 16 \<or> b = 0) \<and> deref s = CHR ''0''
         \<and> (char_at s 1 = CHR ''x'' \<or> char_at s 1 = CHR ''X'') \<and> isxdigit (char_at s 2)
      then (16, drop 2 s)
      else if b = 0 then (if deref s = CHR ''0'' then 8 else 10, s)
      else (b, s))"

text \<open>\<open>strtol (s, &stop, base)\<close>: the value, clamped to the range of \<open>long\<close>, and \<open>stop\<close>, which
  is \<open>s\<close> itself when there is no number.\<close>

definition strtol :: "nat \<Rightarrow> string \<Rightarrow> int \<times> string" where
  "strtol base s =
     (let (neg, s2) = strtol_sign (dropWhile isspace s);
          (b, s3) = strtol_prefix base s2;
          ds = takeWhile (is_base_digit b) s3;
          v = int (digits_value b ds)
      in if ds = [] then (0, s)
         else (if neg then max LONG_MIN (- v) else min LONG_MAX v, dropWhile (is_base_digit b) s3))"

lemma suffix_strtol_sign [suffix_intros]: "suffix (snd (strtol_sign s)) s"
  by (cases s) (auto simp: strtol_sign_def suffix_def)

lemma suffix_strtol_prefix [suffix_intros]: "suffix (snd (strtol_prefix b s)) s"
  by (auto simp: strtol_prefix_def suffix_drop)

lemma suffix_dropWhile' [suffix_intros]: "suffix (dropWhile P s) s"
  by (simp add: suffix_dropWhile)

lemma suffix_strtol [suffix_intros]: "suffix (snd (strtol b s)) s"
proof -
  obtain neg s2 where s2: "strtol_sign (dropWhile isspace s) = (neg, s2)" by fastforce
  obtain c s3 where s3: "strtol_prefix b s2 = (c, s3)" by fastforce
  have "suffix s2 s"
    using suffix_strtol_sign [of "dropWhile isspace s"] s2
    by (metis snd_conv suffix_dropWhile suffix_order.trans)
  moreover have "suffix s3 s2" using suffix_strtol_prefix [of b s2] s3 by simp
  ultimately have "suffix (dropWhile (is_base_digit c) s3) s"
    by (meson suffix_dropWhile suffix_order.trans)
  then show ?thesis by (simp add: strtol_def s2 s3 Let_def)
qed

lemma strtol_suffixD: "strtol b s = (v, r) \<Longrightarrow> suffix r s"
  using suffix_strtol [of b s] by simp

lemma strtol_length: "strtol b s = (v, r) \<Longrightarrow> length r \<le> length s"
  by (auto dest!: strtol_suffixD suffix_length_le)

lemma strtol_length_less: "strtol b s = (v, r) \<Longrightarrow> r \<noteq> s \<Longrightarrow> length r < length s"
  by (metis strtol_suffixD suffix_length_le suffix_order.less_le suffix_length_less strict_suffix_def)

lemma strtol_Nil [simp]: "strtol b [] = (0, [])"
  by (simp add: strtol_def strtol_sign_def strtol_prefix_def)

text \<open>Printing a number in a base, as \<open>%u\<close> and \<open>%x\<close> do.\<close>

definition digit_char :: "nat \<Rightarrow> char" where
  "digit_char d = (if d < 10 then chr (48 + d) else chr (87 + d))"

fun num_str :: "nat \<Rightarrow> nat \<Rightarrow> string" where
  "num_str b n =
     (if n < b \<or> b < 2 then [digit_char n] else num_str b (n div b) @ [digit_char (n mod b)])"

declare num_str.simps [simp del]

abbreviation dec_str :: "nat \<Rightarrow> string" where
  "dec_str \<equiv> num_str 10"

abbreviation hex_str :: "nat \<Rightarrow> string" where
  "hex_str \<equiv> num_str 16"

lemma digit_value_char: "d < 16 \<Longrightarrow> digit_value (digit_char d) = d"
  by (auto simp: digit_value_def digit_char_def ctype_defs)

lemma num_str_neq_Nil [simp]: "num_str b n \<noteq> []"
  by (subst num_str.simps) simp

lemma num_str_digits:
  assumes "2 \<le> b" "b \<le> 16"
  shows "\<forall>c \<in> set (num_str b n). \<exists>d < b. c = digit_char d"
  using assms
proof (induction b n rule: num_str.induct)
  case (1 b n)
  show ?case
  proof (cases "n < b")
    case True
    then show ?thesis by (subst num_str.simps) auto
  next
    case False
    with 1 have "\<forall>c \<in> set (num_str b (n div b)). \<exists>d < b. c = digit_char d" by simp
    with False 1 show ?thesis
      by (subst num_str.simps) (auto intro: exI [of _ "n mod b"])
  qed
qed

lemma digits_value_num_str:
  assumes "2 \<le> b" "b \<le> 16"
  shows "digits_value b (num_str b n) = n"
  using assms
proof (induction b n rule: num_str.induct)
  case (1 b n)
  show ?case
  proof (cases "n < b")
    case True
    then show ?thesis using 1
      by (subst num_str.simps) (simp add: digits_value_def digit_value_char)
  next
    case False
    then have IH: "digits_value b (num_str b (n div b)) = n div b" using 1 by simp
    have "n mod b < b" using 1 by simp
    then have "n mod b < 16" using 1 by linarith
    then show ?thesis using False IH 1
      by (subst num_str.simps) (simp add: digits_value_def digit_value_char)
  qed
qed

text \<open>Reading a run of digits back: the digits must be followed by something that does not continue
  the number.\<close>

lemma is_base_digit_not_space:
  assumes "is_base_digit b c" "b \<le> 36"
  shows "\<not> isspace c" "c \<noteq> CHR ''-''" "c \<noteq> CHR ''+''" "c \<noteq> NUL"
  using assms
  by (auto simp: is_base_digit_def digit_value_def ctype_defs ord_def split: if_splits)

lemma is_base_digit_NUL [simp]: "b \<le> 36 \<Longrightarrow> \<not> is_base_digit b NUL"
  by (simp add: is_base_digit_def digit_value_def ctype_defs)

lemma is_base_digit_x:
  "b \<le> 16 \<Longrightarrow> \<not> is_base_digit b CHR ''x''" "b \<le> 16 \<Longrightarrow> \<not> is_base_digit b CHR ''X''"
  by (simp_all add: is_base_digit_def digit_value_def ctype_defs ord_def)

lemma isdigit_base10: "is_base_digit 10 c \<longleftrightarrow> isdigit c"
  by (auto simp: is_base_digit_def digit_value_def ctype_defs)

lemma isxdigit_base16: "is_base_digit 16 c \<longleftrightarrow> isxdigit c"
  by (auto simp: is_base_digit_def digit_value_def ctype_defs)

lemma takeWhile_append_stop:
  assumes "\<forall>c \<in> set ds. P c" "\<not> P (deref rest)"
  shows "takeWhile P (ds @ rest) = ds" "dropWhile P (ds @ rest) = rest"
proof -
  have "takeWhile P rest = []" "dropWhile P rest = rest"
    using assms(2) by (cases rest; simp)+
  with assms(1) show "takeWhile P (ds @ rest) = ds" "dropWhile P (ds @ rest) = rest"
    by simp_all
qed

lemma strtol_digits:
  assumes "ds \<noteq> []" "\<forall>c \<in> set ds. is_base_digit b c" "\<not> is_base_digit b (deref rest)"
    "2 \<le> b" "b \<le> 16" "deref rest \<noteq> CHR ''x''" "deref rest \<noteq> CHR ''X''"
  shows "strtol b (ds @ rest) = (min LONG_MAX (int (digits_value b ds)), rest)"
proof -
  obtain d ds' where ds: "ds = d # ds'" using assms(1) by (cases ds) auto
  then have d: "is_base_digit b d" using assms(2) by simp
  note nd = is_base_digit_not_space [OF d]
  have "char_at ds' 0 \<noteq> CHR ''x'' \<and> char_at ds' 0 \<noteq> CHR ''X''"
    using assms(2,5) is_base_digit_x [of b] ds by (cases ds') auto
  then have x: "char_at (ds @ rest) 1 \<noteq> CHR ''x''" "char_at (ds @ rest) 1 \<noteq> CHR ''X''"
    using assms(6,7) by (cases ds'; simp add: ds)+
  have sp: "dropWhile isspace (ds @ rest) = ds @ rest"
    using nd assms(5) by (simp add: ds)
  have sg: "strtol_sign (ds @ rest) = (False, ds @ rest)"
    using nd assms(5) by (simp add: strtol_sign_def ds)
  have pr: "strtol_prefix b (ds @ rest) = (b, ds @ rest)"
    using x assms(4) by (simp add: strtol_prefix_def)
  show ?thesis
    using assms(1) by (simp add: strtol_def sp sg pr takeWhile_append_stop [OF assms(2,3)])
qed

lemma is_base_digit_num_str:
  assumes "2 \<le> b" "b \<le> 16" "c \<in> set (num_str b n)"
  shows "is_base_digit b c"
  using num_str_digits [OF assms(1,2), of n] assms by (auto simp: is_base_digit_def digit_value_char)

lemma strtol_num_str:
  assumes "\<not> is_base_digit b (deref rest)" "2 \<le> b" "b \<le> 16"
    "deref rest \<noteq> CHR ''x''" "deref rest \<noteq> CHR ''X''" "n < 2 ^ 63"
  shows "strtol b (num_str b n @ rest) = (int n, rest)"
proof -
  have "int n < 2 ^ 63"
    using assms(6) by (metis of_nat_less_iff of_nat_numeral of_nat_power)
  then have "min LONG_MAX (int n) = int n" by (simp add: LONG_MAX_def)
  then show ?thesis
    using assms strtol_digits [of "num_str b n" b rest]
    by (simp add: is_base_digit_num_str digits_value_num_str)
qed

section \<open>Joining strings\<close>

fun join_with :: "'a list \<Rightarrow> 'a list list \<Rightarrow> 'a list" where
  "join_with sep [] = []"
| "join_with sep [x] = x"
| "join_with sep (x # y # ys) = x @ sep @ join_with sep (y # ys)"

lemma join_with_Cons: "xs \<noteq> [] \<Longrightarrow> join_with sep (x # xs) = x @ sep @ join_with sep xs"
  by (cases xs) simp_all

lemma join_with_snoc: "xs \<noteq> [] \<Longrightarrow> join_with sep (xs @ [x]) = join_with sep xs @ sep @ x"
  by (induction sep xs rule: join_with.induct) simp_all

lemma rev_join_with: "rev (join_with [d] xs) = join_with [d] (map rev (rev xs))"
proof (induction "[d]" xs rule: join_with.induct)
  case (3 x y ys)
  then show ?case using join_with_snoc [of "map rev (rev (y # ys))" "[d]" "rev x"] by simp
qed simp_all

section \<open>Arrays and memory faults\<close>

text \<open>An access outside an array is undefined behaviour of the C program; the model makes it a value,
  \<open>Inl OutOfBounds\<close>. \<open>memmove\<close> and \<open>memset\<close> take their counts as \<open>size_t\<close>, so a negative count is a
  huge one and leaves every array.\<close>

datatype fault = OutOfBounds | NoReturn | DivByZero

definition andthen :: "'e + 'a \<Rightarrow> ('a \<Rightarrow> 'e + 'b) \<Rightarrow> 'e + 'b" where
  "andthen x f = (case x of Inl e \<Rightarrow> Inl e | Inr y \<Rightarrow> f y)"

lemma andthen_simps [simp]: "andthen (Inl e) f = Inl e" "andthen (Inr y) f = f y"
  by (simp_all add: andthen_def)

lemma andthen_cong [fundef_cong]:
  "x = x' \<Longrightarrow> (\<And>y. x' = Inr y \<Longrightarrow> f y = g y) \<Longrightarrow> andthen x f = andthen x' g"
  by (cases x') simp_all

lemma andthen_assoc: "andthen (andthen x f) g = andthen x (\<lambda>y. andthen (f y) g)"
  by (cases x) simp_all

lemma andthen_Inr: "andthen x f = Inr r \<longleftrightarrow> (\<exists>y. x = Inr y \<and> f y = Inr r)"
  by (cases x) simp_all

text \<open>A computation that ends without a fault, and with a result that satisfies \<open>P\<close>.\<close>

definition runs :: "('a \<Rightarrow> bool) \<Rightarrow> 'e + 'a \<Rightarrow> bool" where
  "runs P x = (case x of Inl _ \<Rightarrow> False | Inr y \<Rightarrow> P y)"

lemma runs_simps [simp]:
  "runs P (Inr y) = P y"
  "runs P (Inl e) = False"
  "runs P (andthen x f) = runs (\<lambda>y. runs P (f y)) x"
  by (auto simp: runs_def andthen_def split: sum.splits)

lemma runs_iff: "runs P x \<longleftrightarrow> (\<exists>y. x = Inr y \<and> P y)"
  by (cases x) auto

lemma runs_mono: "runs P x \<Longrightarrow> (\<And>y. P y \<Longrightarrow> Q y) \<Longrightarrow> runs Q x"
  by (cases x) auto

text \<open>One store into an array.\<close>

definition store :: "'a list \<Rightarrow> nat \<Rightarrow> 'a \<Rightarrow> fault + 'a list" where
  "store buf i x = (if i < length buf then Inr (buf[i := x]) else Inl OutOfBounds)"

lemma store_ok [simp]: "i < length buf \<Longrightarrow> store buf i x = Inr (buf[i := x])"
  by (simp add: store_def)

lemma store_append: "xs \<noteq> [] \<Longrightarrow> store (out @ xs) (length out) x = Inr ((out @ [x]) @ tl xs)"
  by (cases xs) simp_all

definition buf_memmove :: "'a list \<Rightarrow> int \<Rightarrow> int \<Rightarrow> int \<Rightarrow> fault + 'a list" where
  "buf_memmove buf dst src n =
     (if 0 \<le> dst \<and> 0 \<le> src \<and> 0 \<le> n \<and> dst + n \<le> int (length buf) \<and> src + n \<le> int (length buf)
      then Inr (take (nat dst) buf @ take (nat n) (drop (nat src) buf) @ drop (nat (dst + n)) buf)
      else Inl OutOfBounds)"

definition buf_memset :: "'a list \<Rightarrow> int \<Rightarrow> 'a \<Rightarrow> int \<Rightarrow> fault + 'a list" where
  "buf_memset buf dst v n =
     (if 0 \<le> dst \<and> 0 \<le> n \<and> dst + n \<le> int (length buf)
      then Inr (take (nat dst) buf @ replicate (nat n) v @ drop (nat (dst + n)) buf)
      else Inl OutOfBounds)"

text \<open>\<open>snprintf (buf + off, avail, "%s", str)\<close>: at most \<open>avail - 1\<close> characters and a null; the value it
  returns is \<open>length str\<close>.\<close>

definition snprintf_at :: "string \<Rightarrow> nat \<Rightarrow> nat \<Rightarrow> string \<Rightarrow> string" where
  "snprintf_at buf off avail str =
     (if avail = 0 then buf
      else let w = take (avail - 1) str @ [NUL]
           in take off buf @ w @ drop (off + length w) buf)"

lemma length_snprintf_at [simp]:
  "off + avail \<le> length buf \<Longrightarrow> length (snprintf_at buf off avail str) = length buf"
  by (auto simp: snprintf_at_def Let_def)

lemma snprintf_at_append:
  assumes "length str < avail" "length str < length junk"
  shows "snprintf_at (out @ junk) (length out) avail str =
    (out @ str) @ NUL # drop (Suc (length str)) junk"
  using assms by (simp add: snprintf_at_def Let_def)

section \<open>Network byte order\<close>

definition NET_GET_SHORT :: "u8 list \<Rightarrow> u16" where
  "NET_GET_SHORT p = push_bit 8 (ucast (p ! 0)) OR ucast (p ! 1)"

definition NET_GET_LONG :: "u8 list \<Rightarrow> u64" where
  "NET_GET_LONG p =
     push_bit 24 (ucast (p ! 0)) OR push_bit 16 (ucast (p ! 1)) OR push_bit 8 (ucast (p ! 2))
     OR ucast (p ! 3)"

definition NET_SET_SHORT :: "u8 list \<Rightarrow> u16 \<Rightarrow> u8 list" where
  "NET_SET_SHORT p n = p[0 := ucast (drop_bit 8 n AND 0xFF), 1 := ucast (n AND 0xFF)]"

definition NET_SET_LONG :: "u8 list \<Rightarrow> u64 \<Rightarrow> u8 list" where
  "NET_SET_LONG p n =
     p[0 := ucast (drop_bit 24 n AND 0xFF), 1 := ucast (drop_bit 16 n AND 0xFF),
       2 := ucast (drop_bit 8 n AND 0xFF), 3 := ucast (n AND 0xFF)]"

lemma unat_NET_GET_SHORT: "unat (NET_GET_SHORT p) = 256 * unat (p ! 0) + unat (p ! 1)"
proof -
  have "(push_bit 8 (ucast (p ! 0)) :: u16) OR ucast (p ! 1) =
      push_bit 8 (ucast (p ! 0)) + ucast (p ! 1)"
    by (subst disjunctive_add) (auto simp: bit_simps dest: bit_imp_le_length)
  moreover have "unat (p ! 0) < 256" "unat (p ! 1) < 256"
    using unsigned_less [of "p ! 0"] unsigned_less [of "p ! 1"] by simp_all
  ultimately show ?thesis
    by (simp add: NET_GET_SHORT_def unat_word_ariths push_bit_eq_mult unsigned_ucast_eq take_bit_eq_mod)
qed

lemma NET_GET_SHORT_eq_0 [simp]: "NET_GET_SHORT p = 0 \<longleftrightarrow> p ! 0 = 0 \<and> p ! 1 = 0"
proof -
  have "NET_GET_SHORT p = 0 \<longleftrightarrow> unat (NET_GET_SHORT p) = 0" by (simp add: unat_eq_0)
  then show ?thesis by (simp add: unat_NET_GET_SHORT unat_eq_0)
qed

end
