(* ===== verification/TextOps.thy ===== *)
theory TextOps
  imports CPrelude
begin

text \<open>
  The string helpers of \<^verbatim>\<open>util/Text*.c\<close>, \<^verbatim>\<open>util/strlrspn.c\<close> and
  \<^verbatim>\<open>util/strlrcspn.c\<close>. A pointer argument the code tests against \<open>NULL\<close> is a
  \<open>string option\<close>. A function that edits its argument in place returns the edited string.
\<close>

section \<open>Comparison\<close>

text \<open>\<^verbatim>\<open>TextInsensitiveCompareN\<close>: the loop over both strings, with the count \<open>len\<close> that is
  decremented unless negative.\<close>

fun casecmp_loop :: "string \<Rightarrow> string \<Rightarrow> int \<Rightarrow> int" where
  "casecmp_loop (x # xs) (y # ys) len =
     (if len = 0 then 0
      else
        let len' = (if 0 \<le> len then len - 1 else len);
            diff = schar (tolower x) - schar (tolower y)
        in if x \<noteq> y \<and> diff \<noteq> 0 then diff else casecmp_loop xs ys len')"
| "casecmp_loop xs ys len = (if len = 0 then 0 else schar (deref xs) - schar (deref ys))"

definition TextInsensitiveCompareN :: "string option \<Rightarrow> string option \<Rightarrow> int \<Rightarrow> int" where
  "TextInsensitiveCompareN xp yp len =
     (case (xp, yp) of
        (None, Some _) \<Rightarrow> 1
      | (Some _, None) \<Rightarrow> -1
      | (None, None) \<Rightarrow> 0
      | (Some x, Some y) \<Rightarrow> casecmp_loop x y len)"

definition TextInsensitiveCompare :: "string option \<Rightarrow> string option \<Rightarrow> int" where
  "TextInsensitiveCompare xp yp = TextInsensitiveCompareN xp yp (-1)"

text \<open>\<^verbatim>\<open>TextSensitiveStartsWith\<close> and \<^verbatim>\<open>TextInsensitiveStartsWith\<close>: \<open>n\<close> is \<open>text - start\<close>.\<close>

fun starts_loop :: "(char \<Rightarrow> char) \<Rightarrow> string \<Rightarrow> string \<Rightarrow> int \<Rightarrow> int" where
  "starts_loop f text [] n = n"
| "starts_loop f text (p # pre) n =
     (if f (deref text) \<noteq> f p then -1 else starts_loop f (tl text) pre (n + 1))"

definition TextSensitiveStartsWith :: "string option \<Rightarrow> string option \<Rightarrow> int" where
  "TextSensitiveStartsWith text pre =
     (case (text, pre) of (Some t, Some p) \<Rightarrow> starts_loop id t p 0 | _ \<Rightarrow> -1)"

definition TextInsensitiveStartsWith :: "string option \<Rightarrow> string option \<Rightarrow> int" where
  "TextInsensitiveStartsWith text pre =
     (case (text, pre) of (Some t, Some p) \<Rightarrow> starts_loop tolower t p 0 | _ \<Rightarrow> -1)"

text \<open>\<^verbatim>\<open>TextSensitiveEndsWith\<close> and \<^verbatim>\<open>TextInsensitiveEndsWith\<close> walk both strings backwards:
  the loop runs over the reversed strings and returns what is left of the text.\<close>

fun ends_loop :: "(char \<Rightarrow> char) \<Rightarrow> string \<Rightarrow> string \<Rightarrow> int" where
  "ends_loop f etext [] = int (length etext)"
| "ends_loop f [] (p # suf) = -1"
| "ends_loop f (c # etext) (p # suf) = (if f c \<noteq> f p then -1 else ends_loop f etext suf)"

definition TextSensitiveEndsWith :: "string option \<Rightarrow> string option \<Rightarrow> int" where
  "TextSensitiveEndsWith text suf =
     (case (text, suf) of (Some t, Some p) \<Rightarrow> ends_loop id (rev t) (rev p) | _ \<Rightarrow> -1)"

definition TextInsensitiveEndsWith :: "string option \<Rightarrow> string option \<Rightarrow> int" where
  "TextInsensitiveEndsWith text suf =
     (case (text, suf) of (Some t, Some p) \<Rightarrow> ends_loop tolower (rev t) (rev p) | _ \<Rightarrow> -1)"

section \<open>Editing in place\<close>

text \<open>\<^verbatim>\<open>TextLower\<close>, \<^verbatim>\<open>TextUpper\<close> and \<^verbatim>\<open>TextInvert\<close> rewrite at most \<open>length\<close>
  characters; a negative length is replaced by the largest \<open>long\<close>.\<close>

fun text_map_n :: "(char \<Rightarrow> char) \<Rightarrow> string \<Rightarrow> int \<Rightarrow> string" where
  "text_map_n f [] n = []"
| "text_map_n f (c # s) n = (if 0 < n then f c # text_map_n f s (n - 1) else c # s)"

definition text_length_arg :: "int \<Rightarrow> int" where
  "text_length_arg n = (if n < 0 then LONG_MAX else n)"

definition TextLower :: "string option \<Rightarrow> int \<Rightarrow> string option" where
  "TextLower s n = map_option (\<lambda>s. text_map_n tolower s (text_length_arg n)) s"

definition TextUpper :: "string option \<Rightarrow> int \<Rightarrow> string option" where
  "TextUpper s n = map_option (\<lambda>s. text_map_n toupper s (text_length_arg n)) s"

definition TextInvert :: "string option \<Rightarrow> int \<Rightarrow> string option" where
  "TextInvert s n =
     map_option (\<lambda>s. text_map_n (\<lambda>c. if isupper c then tolower c else toupper c) s
       (text_length_arg n)) s"

text \<open>The swap loop \<open>for (x = s, y = s + length; x < --y; x++)\<close> that \<^verbatim>\<open>TextReverse\<close>,
  \<^verbatim>\<open>reverseSegmentOrder\<close>, \<^verbatim>\<open>BufReverse\<close> and \<^verbatim>\<open>VectorReverseRange\<close> share:
  \<open>y\<close> is one past the element to swap next.\<close>

function swap_loop :: "nat \<Rightarrow> nat \<Rightarrow> 'a list \<Rightarrow> 'a list" where
  "swap_loop x y s =
     (if x + 1 < y then swap_loop (x + 1) (y - 1) (s[x := s ! (y - 1), y - 1 := s ! x]) else s)"
  by pat_completeness auto
termination
  by (relation "measure (\<lambda>(x, y, s). y - x)") auto

declare swap_loop.simps [simp del]

definition TextReverse :: "string option \<Rightarrow> int \<Rightarrow> string option" where
  "TextReverse s n =
     map_option (\<lambda>s. swap_loop 0 (nat (if n < 0 then int (length s) else n)) s) s"

text \<open>\<^verbatim>\<open>TextTransliterate\<close>: each character found in the first set is replaced by its
  counterpart of the second, by the last of the second when that is too short, or deleted when the
  second is empty. The result is the new string and its length.\<close>

fun translit_loop :: "string \<Rightarrow> string \<Rightarrow> string \<Rightarrow> string" where
  "translit_loop [] from_set to_set = []"
| "translit_loop (c # s) from_set to_set =
     (case strchr from_set c of
        None \<Rightarrow> c # translit_loop s from_set to_set
      | Some f \<Rightarrow>
          let i = length from_set - length f
          in if to_set = [] then translit_loop s from_set to_set
             else if length to_set \<le> i
             then to_set ! (length to_set - 1) # translit_loop s from_set to_set
             else to_set ! i # translit_loop s from_set to_set)"

definition TextTransliterate ::
    "string option \<Rightarrow> string option \<Rightarrow> string option \<Rightarrow> string option \<times> nat" where
  "TextTransliterate s from_set to_set =
     (case (s, from_set) of
        (Some s, Some f) \<Rightarrow>
          if f = [] then (Some s, 0)
          else let r = translit_loop s f (case to_set of None \<Rightarrow> [] | Some t \<Rightarrow> t)
               in (Some r, length r)
      | _ \<Rightarrow> (s, 0))"

section \<open>Bounded copies\<close>

text \<open>\<^verbatim>\<open>TextCopy\<close> (the library's \<open>strlcpy\<close>): the buffer is the list of its octets, at least
  \<open>tsize\<close> of them; the result is the buffer and the returned length.\<close>

fun textcopy_loop :: "string \<Rightarrow> nat \<Rightarrow> string \<Rightarrow> nat \<Rightarrow> string \<times> string \<times> nat" where
  \<comment> \<open>(buffer, unread rest of the source, length)\<close>
  "textcopy_loop t tsize [] len =
     (if len < tsize then (t[len := NUL], [], len) else (t, [], len))"
| "textcopy_loop t tsize (c # s) len =
     (if len < tsize then textcopy_loop (t[len := c]) tsize s (len + 1) else (t, c # s, len))"

definition TextCopy :: "string \<Rightarrow> nat \<Rightarrow> string \<Rightarrow> string \<times> nat" where
  "TextCopy t tsize s =
     (let (t, rest, len) = textcopy_loop t tsize s 0
      in if 0 < tsize \<and> tsize \<le> len then (t[len - 1 := NUL], len + length rest) else (t, len))"

text \<open>The C string held by a buffer.\<close>

definition cstring_of :: "string \<Rightarrow> string" where
  "cstring_of t = takeWhile (\<lambda>c. c \<noteq> NUL) t"

text \<open>\<^verbatim>\<open>TextCat\<close>: append within \<open>tsize\<close>; \<open>i\<close> is \<open>t - buffer\<close>, \<open>stop\<close> is \<open>tsize\<close>.\<close>

fun textcat_loop :: "string \<Rightarrow> nat \<Rightarrow> nat \<Rightarrow> string \<Rightarrow> string \<times> nat" where
  "textcat_loop t tsize i [] = (if i < tsize then (t[i := NUL], i) else (t, i))"
| "textcat_loop t tsize i (c # s) =
     (if i < tsize then textcat_loop (t[i := c]) tsize (i + 1) s else (t, i))"

definition TextCat :: "string \<Rightarrow> nat \<Rightarrow> string \<Rightarrow> string \<times> nat" where
  "TextCat t tsize s =
     (let (t', i) = textcat_loop t tsize (length (cstring_of t)) s
      in if 0 < tsize \<and> tsize \<le> i then (t'[i - 1 := NUL], i) else (t', i))"

section \<open>Escapes, hashing, backwards scans\<close>

definition TextBackslash :: "char \<Rightarrow> char" where
  "TextBackslash ch =
     (if ch = CHR ''a'' then CHR 0x07
      else if ch = CHR ''b'' then CHR 0x08
      else if ch = CHR ''e'' then CHR 0x1B
      else if ch = CHR ''f'' then CHR 0x0C
      else if ch = CHR ''n'' then CHR 0x0A
      else if ch = CHR ''r'' then CHR 0x0D
      else if ch = CHR ''s'' then CHR 0x20
      else if ch = CHR ''t'' then CHR 0x09
      else if ch = CHR ''v'' then CHR 0x0B
      else ch)"

text \<open>\<^verbatim>\<open>TextHash\<close>: the multiply-by-33 hash on \<open>unsigned long\<close>; the character is promoted from
  signed \<open>char\<close>.\<close>

definition TextHash :: "u64 \<Rightarrow> string \<Rightarrow> u64" where
  "TextHash hash s =
     foldl (\<lambda>h c. (push_bit 5 h + h) XOR word_of_int (schar c)) (if hash = 0 then 5381 else hash) s"

definition TextDelim :: "string option \<Rightarrow> string option \<Rightarrow> string option" where
  "TextDelim s delim = (case s of None \<Rightarrow> Some [] | Some [] \<Rightarrow> Some [] | _ \<Rightarrow> delim)"

definition TextEmpty :: "string option \<Rightarrow> string" where
  "TextEmpty s = (case s of None \<Rightarrow> [] | Some s \<Rightarrow> s)"

definition TextNull :: "string option \<Rightarrow> string" where
  "TextNull s = (case s of None \<Rightarrow> ''(NULL)'' | Some s \<Rightarrow> s)"

text \<open>\<^verbatim>\<open>strlrcspn\<close> and \<^verbatim>\<open>strlrspn\<close>: \<open>n\<close> is \<open>s - string + 1\<close> of the loop.\<close>

fun strlrcspn :: "string \<Rightarrow> nat \<Rightarrow> string \<Rightarrow> nat" where
  "strlrcspn s 0 delims = 0"
| "strlrcspn s (Suc n) delims =
     (if s ! n \<in> set delims then Suc n else strlrcspn s n delims)"

fun strlrspn :: "string \<Rightarrow> nat \<Rightarrow> string \<Rightarrow> nat" where
  "strlrspn s 0 delims = 0"
| "strlrspn s (Suc n) delims =
     (if s ! n \<notin> set delims then Suc n else strlrspn s n delims)"

section \<open>Facts about the comparisons\<close>

lemma schar_inject [simp]: "schar c = schar d \<longleftrightarrow> c = d"
proof -
  have "schar c = schar d \<longleftrightarrow> ord c = ord d"
    using ord_less_256 [of c] ord_less_256 [of d] unfolding schar_def
    by (auto split: if_splits simp del: ord_inject ord_less_256)
  then show ?thesis by simp
qed

lemma schar_eq_0 [simp]: "schar c = 0 \<longleftrightarrow> c = NUL"
  using schar_inject [of c NUL] by (simp add: schar_def [of NUL])

lemma schar_NUL [simp]: "schar NUL = 0"
  by simp

lemma casecmp_loop_eq_0_N:
  assumes "NUL \<notin> set x" "NUL \<notin> set y"
  shows "casecmp_loop x y (int n) = 0 \<longleftrightarrow> map tolower (take n x) = map tolower (take n y)"
  using assms
proof (induction x arbitrary: y n)
  case Nil
  then show ?case by (cases y; cases n) auto
next
  case (Cons c x)
  show ?case
  proof (cases y)
    case Nil
    then show ?thesis using Cons.prems by (cases n) auto
  next
    case y: (Cons d y')
    then show ?thesis using Cons by (cases n) (auto simp: Let_def)
  qed
qed

lemma casecmp_loop_eq_0:
  assumes "NUL \<notin> set x" "NUL \<notin> set y" "len < 0"
  shows "casecmp_loop x y len = 0 \<longleftrightarrow> map tolower x = map tolower y"
  using assms
proof (induction x y len rule: casecmp_loop.induct, goal_cases)
  case (1 x xs y ys len)
  then show ?case by (auto simp: Let_def)
next
  case (2 ys len)
  then show ?case by (cases ys) auto
next
  case (3 xs len)
  then show ?case by (cases xs) auto
qed

lemma starts_loop_eq:
  assumes "\<And>c. f c = NUL \<longleftrightarrow> c = NUL" "NUL \<notin> set p" "0 \<le> n"
  shows "starts_loop f t p n =
    (if map f (take (length p) t) = map f p then n + int (length p) else -1)"
  using assms(2,3)
proof (induction p arbitrary: t n)
  case (Cons c p)
  have "f c \<noteq> f NUL" using Cons.prems assms(1) by (metis list.set_intros(1))
  with Cons show ?case by (cases t) auto
qed simp

lemma TextInsensitiveStartsWith_Some:
  "NUL \<notin> set p \<Longrightarrow> TextInsensitiveStartsWith (Some t) (Some p) =
    (if strncaseeq t p then int (length p) else -1)"
  by (simp add: TextInsensitiveStartsWith_def starts_loop_eq strncaseeq_def)

lemma TextSensitiveStartsWith_Some:
  "NUL \<notin> set p \<Longrightarrow> TextSensitiveStartsWith (Some t) (Some p) =
    (if prefix p t then int (length p) else -1)"
  by (auto simp: TextSensitiveStartsWith_def starts_loop_eq prefix_def)
    (metis append_take_drop_id)

lemma ends_loop_eq:
  "ends_loop f t p =
    (if map f (take (length p) t) = map f p then int (length t) - int (length p) else -1)"
  by (induction f t p rule: ends_loop.induct) auto

lemma TextInsensitiveEndsWith_Some:
  "TextInsensitiveEndsWith (Some t) (Some p) =
    (if suffix (map tolower p) (map tolower t) then int (length t) - int (length p) else -1)"
proof -
  have "map tolower (take (length p) (rev t)) = map tolower (rev p) \<longleftrightarrow>
      prefix (rev (map tolower p)) (rev (map tolower t))"
    by (auto simp: prefix_def take_map rev_map simp flip: map_append)
      (metis append_take_drop_id map_append, metis append_eq_conv_conj length_map length_rev take_map)
  then show ?thesis
    by (simp add: TextInsensitiveEndsWith_def ends_loop_eq suffix_to_prefix)
qed

section \<open>The swap loop reverses a segment\<close>

lemma length_swap_loop [simp]: "length (swap_loop x y s) = length s"
  by (induction x y s rule: swap_loop.induct) (subst swap_loop.simps, simp)

lemma swap_loop_nth:
  assumes "y \<le> length s" "i < length s"
  shows "swap_loop x y s ! i = (if x \<le> i \<and> i < y then s ! (x + y - 1 - i) else s ! i)"
  using assms
proof (induction x y s rule: swap_loop.induct)
  case (1 x y s)
  show ?case
  proof (cases "x + 1 < y")
    case False
    then have "x \<le> i \<and> i < y \<Longrightarrow> x + y - 1 - i = i" by linarith
    with False show ?thesis by (subst swap_loop.simps) auto
  next
    case True
    define s' where "s' = s[x := s ! (y - 1), y - 1 := s ! x]"
    have s': "s' ! j = (if j = y - 1 then s ! x else if j = x then s ! (y - 1) else s ! j)"
      if "j < length s" for j
      using that True 1(2) by (auto simp: s'_def nth_list_update)
    have "swap_loop x y s ! i = swap_loop (x + 1) (y - 1) s' ! i"
      using True by (subst swap_loop.simps) (simp add: s'_def)
    also have "\<dots> = (if x + 1 \<le> i \<and> i < y - 1 then s' ! (x + 1 + (y - 1) - 1 - i) else s' ! i)"
      using 1(1) [OF True, folded s'_def] 1(2,3) by (simp add: s'_def)
    also have "\<dots> = (if x \<le> i \<and> i < y then s ! (x + y - 1 - i) else s ! i)"
    proof (cases "x + 1 \<le> i \<and> i < y - 1")
      case inner: True
      have j: "x + 1 + (y - 1) - 1 - i = x + y - 1 - i" "x + y - 1 - i < length s"
        "x + y - 1 - i \<noteq> y - 1" "x + y - 1 - i \<noteq> x"
        using inner True 1(2) by linarith+
      have "x \<le> i \<and> i < y" using inner by linarith
      then show ?thesis using inner s' [OF j(2)] j by simp
    next
      case False
      have "i = x \<or> i = y - 1 \<or> \<not> (x \<le> i \<and> i < y)" using False by linarith
      then show ?thesis using False True s' [OF 1(3)] by auto
    qed
    finally show ?thesis .
  qed
qed

lemma swap_loop_eq:
  assumes "x \<le> y" "y \<le> length s"
  shows "swap_loop x y s = take x s @ rev (take (y - x) (drop x s)) @ drop y s"
  using assms by (intro nth_equalityI) (auto simp: swap_loop_nth nth_append rev_nth)

lemma swap_loop_whole: "swap_loop 0 (length s) s = rev s"
  by (simp add: swap_loop_eq)

lemma swap_segment: "swap_loop (length a) (length a + length x) (a @ x @ b) = a @ rev x @ b"
  by (subst swap_loop_eq) simp_all

section \<open>Bounded copies\<close>

lemma textcopy_loop_eq:
  assumes "NUL \<notin> set s" "tsize \<le> length t" "len \<le> tsize"
  shows "textcopy_loop t tsize s len =
    (let n = min (length s) (tsize - len)
     in (if n = length s \<and> len + n < tsize
         then take len t @ s @ [NUL] @ drop (len + n + 1) t
         else take len t @ take n s @ drop (len + n) t,
         drop n s, len + n))"
  using assms
proof (induction s arbitrary: t len)
  case Nil
  then show ?case by (auto simp: upd_conv_take_nth_drop)
next
  case (Cons c s)
  show ?case
  proof (cases "len < tsize")
    case True
    have t': "take (Suc len) (t[len := c]) = take len t @ [c]"
      using True Cons.prems by (simp add: take_Suc_conv_app_nth)
    have d': "drop (Suc len + k) (t[len := c]) = drop (Suc len + k) t" for k
      by simp
    have k: "tsize - len = Suc (tsize - Suc len)" using True by simp
    show ?thesis
      using True Cons.prems Cons.IH [of "t[len := c]" "Suc len"] t' d'
      by (auto simp: Let_def k min_def)
  next
    case False
    then show ?thesis using Cons.prems by simp
  qed
qed

lemma TextCopy_length [simp]:
  assumes "NUL \<notin> set s" "tsize \<le> length t" "0 < tsize"
  shows "snd (TextCopy t tsize s) = length s"
  using assms by (auto simp: TextCopy_def textcopy_loop_eq Let_def min_def)

lemma TextCopy_cstring:
  assumes "NUL \<notin> set s" "tsize \<le> length t" "0 < tsize"
  shows "cstring_of (fst (TextCopy t tsize s)) = take (tsize - 1) s"
proof (cases "length s < tsize")
  case True
  then show ?thesis using assms
    by (auto simp: TextCopy_def textcopy_loop_eq Let_def cstring_of_def takeWhile_append
        takeWhile_eq_all_conv)
next
  case False
  have nt: "NUL \<notin> set (take (tsize - 1) s)" using assms(1) by (meson in_set_takeD)
  obtain n where n: "tsize = Suc n" using assms(3) by (cases tsize) auto
  have "(take n s @ s ! n # drop (Suc n) t)[n := NUL] = take n s @ NUL # drop (Suc n) t"
    using False n by (simp add: list_update_append)
  then have "fst (TextCopy t tsize s) = take n s @ NUL # drop (Suc n) t"
    using False assms n by (simp add: TextCopy_def textcopy_loop_eq Let_def take_Suc_conv_app_nth)
  then show ?thesis using nt n
    by (auto simp: cstring_of_def takeWhile_append)
qed

section \<open>Properties\<close>

text \<open>\<open>TextCopy\<close> is a bounded string copy: into a buffer of \<open>tsize > 0\<close> characters it leaves the
  longest prefix of the source that fits with its null, which is the whole source when that fits, and it
  always returns the length of the source, so truncation shows as a result of at least \<open>tsize\<close>. (Its
  comment promises the length of the target string, and \<open>tsize\<close> for a truncated one; the code has the
  semantics of \<open>strlcpy\<close>.)\<close>

lemma TextCopy_bounded:
  assumes "NUL \<notin> set s" and "tsize \<le> length t" and "0 < tsize"
  shows "cstring_of (fst (TextCopy t tsize s)) = take (tsize - 1) s \<and> snd (TextCopy t tsize s) = length s"
  using TextCopy_cstring [OF assms] TextCopy_length [OF assms] by simp

text \<open>\<open>TextInsensitiveCompare\<close> returns 0 exactly for strings that are equal when the case of
  ASCII letters is ignored, and \<open>TextInsensitiveCompareN\<close> with a count exactly when the
  first characters up to the count are.\<close>

lemma TextInsensitiveCompare_zero:
  assumes "NUL \<notin> set x" and "NUL \<notin> set y"
  shows "(TextInsensitiveCompare (Some x) (Some y) = 0 \<longleftrightarrow> map tolower x = map tolower y) \<and>
    (TextInsensitiveCompareN (Some x) (Some y) (int n) = 0 \<longleftrightarrow>
       map tolower (take n x) = map tolower (take n y))"
  using casecmp_loop_eq_0 [OF assms, of "-1"] casecmp_loop_eq_0_N [OF assms]
  by (simp add: TextInsensitiveCompare_def TextInsensitiveCompareN_def)

end
