(* ===== verification/NetSpan.thy ===== *)
theory NetSpan
  imports TextOps
begin

text \<open>
  The scanners of \<^verbatim>\<open>net/spanIP.c\<close>, \<^verbatim>\<open>net/spanHost.c\<close> and
  \<^verbatim>\<open>net/spanLocalPart.c\<close>: each takes a C string and returns the length of the IP address,
  host name or local part that starts it, or zero. The loops work on pointers, modelled as suffixes
  of the string; the returned length is a difference of two pointers.
\<close>

section \<open>IPv4 and IPv6 addresses\<close>

text \<open>The loop of \<^verbatim>\<open>spanIPv4\<close>: \<open>None\<close> is the early \<open>return 0\<close>, otherwise the pointer and
  the number of dots when the loop ends.\<close>

function spanIPv4_loop :: "string \<Rightarrow> nat \<Rightarrow> (string \<times> nat) option" where
  "spanIPv4_loop ip dots =
     (if ip = [] then Some (ip, dots)
      else
        let (octet, stop) = strtol 10 ip
        in if stop = ip then Some (ip, dots)
           else if octet < 0 \<or> 255 < octet then None
           else if deref stop = CHR ''.'' then spanIPv4_loop (tl stop) (dots + 1)
           else spanIPv4_loop stop dots)"
  by pat_completeness auto
termination
proof (relation "measure (\<lambda>(ip, dots). length ip)", goal_cases)
  case (2 ip dots x octet stop)
  then have "length stop < length ip" by (metis strtol_length_less)
  then show ?case by simp
next
  case (3 ip dots x octet stop)
  then have "length stop < length ip" by (metis strtol_length_less)
  then show ?case by simp
qed simp

declare spanIPv4_loop.simps [simp del]

definition spanIPv4 :: "string option \<Rightarrow> nat" where
  "spanIPv4 p =
     (case p of None \<Rightarrow> 0
      | Some ip \<Rightarrow>
          (case spanIPv4_loop ip 0 of
             None \<Rightarrow> 0
           | Some (stop, dots) \<Rightarrow> if dots \<noteq> 3 then 0 else length ip - length stop))"

text \<open>The loop of \<^verbatim>\<open>spanIPv6\<close>: \<open>None\<close> is an early \<open>return 0\<close>, otherwise \<open>ip\<close>, \<open>stop\<close>,
  \<open>compressed\<close> and \<open>groups\<close> at the \<open>break\<close>.\<close>

function spanIPv6_loop :: "string \<Rightarrow> bool \<Rightarrow> nat \<Rightarrow> (string \<times> string \<times> bool \<times> nat) option" where
  "spanIPv6_loop ip compressed groups =
     (let (word, stop) = strtol 16 ip
      in if word < 0 \<or> 0xffff < word then None
         else
           let groups' = (if stop \<noteq> ip \<and> deref stop \<noteq> CHR ''.'' then groups + 1 else groups)
           in if deref stop \<noteq> CHR '':'' then Some (ip, stop, compressed, groups')
              else if char_at stop 1 = CHR '':''
              then (if compressed then None else spanIPv6_loop (tl stop) True groups')
              else spanIPv6_loop (tl stop) compressed groups')"
  by pat_completeness auto
termination
proof (relation "measure (\<lambda>(ip, compressed, groups). length ip)", goal_cases)
  case (2 ip compressed groups x word stop groups')
  then have "length stop \<le> length ip" "stop \<noteq> []"
    by (metis strtol_length, auto)
  then show ?case by (cases stop) auto
next
  case (3 ip compressed groups x word stop groups')
  then have "length stop \<le> length ip" "stop \<noteq> []"
    by (metis strtol_length, auto)
  then show ?case by (cases stop) auto
qed simp

declare spanIPv6_loop.simps [simp del]

definition spanIPv6 :: "string option \<Rightarrow> nat" where
  "spanIPv6 p =
     (case p of None \<Rightarrow> 0
      | Some start \<Rightarrow>
          (case spanIPv6_loop start False 0 of
             None \<Rightarrow> 0
           | Some (ip, stop, compressed, groups) \<Rightarrow>
               if deref stop = CHR ''.'' then
                 (if compressed \<and> 4 < groups then 0
                  else if \<not> compressed \<and> 6 < groups then 0
                  else let len = spanIPv4 (Some ip)
                       in if len = 0 then 0 else length start - length ip + len)
               else if \<not> compressed \<and> groups = 8 then length start - length stop
               else if compressed \<and> groups \<le> 6 then length start - length stop
               else 0))"

definition spanIP :: "string option \<Rightarrow> nat" where
  "spanIP p =
     (case p of None \<Rightarrow> 0
      | Some ip \<Rightarrow>
          if 0 < TextInsensitiveStartsWith (Some ip) (Some ''IPv6:'')
          then spanIPv6 (Some (drop 5 ip))
          else
            let span = spanIPv6 (Some (drop 1 ip))
            in if deref ip = CHR ''['' \<and> span \<noteq> 0 \<and> char_at ip (1 + span) = CHR '']''
               then span + 2
               else if 0 < spanIPv6 (Some ip) then spanIPv6 (Some ip)
               else spanIPv4 (Some ip))"

section \<open>Host names\<close>

text \<open>One pass of \<^verbatim>\<open>spanDomain\<close> without \<open>RFC_1035_STRICT\<close>, as the library is built: \<open>RetZero\<close>
  is \<open>return 0\<close>, \<open>Stop\<close> the jump to the label \<open>stop\<close>, \<open>Ended\<close> the end of the string. The
  scan carries the dots counted and whether the current label is all letters.\<close>

datatype domain_scan = RetZero | Stop string nat | Ended nat bool

fun spanDomain_loop :: "string \<Rightarrow> nat \<Rightarrow> bool \<Rightarrow> domain_scan" where
  "spanDomain_loop [] dots label_is_alpha = Ended dots label_is_alpha"
| "spanDomain_loop (c # s) dots label_is_alpha =
     (if c = CHR ''.'' then
        (if deref s = CHR ''.'' then RetZero
         else if deref s \<noteq> NUL then spanDomain_loop s (dots + 1) True
         else spanDomain_loop s dots label_is_alpha)
      else if c = CHR ''-'' then spanDomain_loop s dots label_is_alpha
      else if c \<noteq> CHR ''_'' \<and> \<not> isalnum c \<and> ord c < 128 then Stop (c # s) dots
      else spanDomain_loop s dots (label_is_alpha \<and> isalpha c))"

definition spanDomain :: "string option \<Rightarrow> int \<Rightarrow> nat" where
  "spanDomain p minDots =
     (case p of None \<Rightarrow> 0
      | Some domain \<Rightarrow>
          (case spanDomain_loop domain 0 True of
             RetZero \<Rightarrow> 0
           | Stop rest dots \<Rightarrow> if int dots < minDots then 0 else length domain - length rest
           | Ended dots label_is_alpha \<Rightarrow>
               if 0 < dots \<and> \<not> label_is_alpha then 0
               else if int dots < minDots then 0 else length domain))"

definition spanHost :: "string option \<Rightarrow> int \<Rightarrow> nat" where
  "spanHost host minDots =
     (let span = spanIP host in if 0 < span then span else spanDomain host minDots)"

section \<open>Local parts\<close>

text \<open>The quoted-string loop: the pointer where it stops, and whether it returned from inside
  (a tab, line end or hash).\<close>

fun quoted_loop :: "string \<Rightarrow> string \<times> bool" where
  "quoted_loop [] = ([], False)"
| "quoted_loop (c # s) =
     (if c = CHR 0x22 then (c # s, False)
      else if c = CHR 0x5C then (case s of [] \<Rightarrow> ([], False) | d # s' \<Rightarrow> quoted_loop s')
      else if c \<in> {CHR 0x09, CHR 0x0D, CHR 0x0A, CHR ''#''} then (c # s, True)
      else quoted_loop s)"

definition atext_extra :: string where
  "atext_extra = ''!#$%&'' @ [CHR 0x27] @ ''*+-/=?^_'' @ [CHR 0x60] @ ''{|}~.''"

fun dot_string_loop :: "string \<Rightarrow> string" where
  "dot_string_loop [] = []"
| "dot_string_loop (c # s) =
     (if isalnum c then dot_string_loop s
      else if c = CHR 0x5C \<and> s \<noteq> [] then dot_string_loop (tl s)
      else if c \<notin> set atext_extra then c # s
      else dot_string_loop s)"

definition spanLocalPart :: "string \<Rightarrow> nat" where
  "spanLocalPart s =
     (if deref s = CHR 0x22 then
        (case quoted_loop (tl s) of
           (t, True) \<Rightarrow> length s - length t
         | (t, False) \<Rightarrow>
             if deref t = CHR 0x22 then length s - length t + 1 else length s - length t)
      else length s - length (dot_string_loop s))"

text \<open>\<^verbatim>\<open>spanSourceRoute\<close>: the list of at-domains before a mailbox.\<close>

function spanSourceRoute_loop :: "string \<Rightarrow> string option" where
  "spanSourceRoute_loop s =
     (if deref s = CHR ''@'' then
        let len = spanDomain (Some (tl s)) 1 + 1
        in if len = 1 then None
           else spanSourceRoute_loop
                  (drop (if char_at s len = CHR '','' then len + 1 else len) s)
      else Some s)"
  by pat_completeness auto
termination
proof (relation "measure length", goal_cases)
  case (2 s len)
  then have "s \<noteq> []" by (cases s) auto
  with 2 show ?case by (auto simp: Let_def)
qed simp

declare spanSourceRoute_loop.simps [simp del]

definition spanSourceRoute :: "string \<Rightarrow> nat" where
  "spanSourceRoute s =
     (case spanSourceRoute_loop s of None \<Rightarrow> 0 | Some r \<Rightarrow> length s - length r)"

section \<open>The contract of a scanner\<close>

text \<open>What every caller of a scanner relies on: the span never runs past the terminating null, so
  the pointer \<open>s + span\<close> is still a pointer into the string.\<close>

locale span_fn =
  fixes span :: "string \<Rightarrow> nat"
  assumes span_le: "span s \<le> length s"
begin

lemma span_Nil [simp]: "span [] = 0"
  using span_le [of "[]"] by simp

lemma span_split: "take (span s) s @ drop (span s) s = s"
  by simp

lemma length_take_span [simp]: "length (take (span s) s) = span s"
  using span_le [of s] by simp

lemma char_at_span: "char_at s (span s) = deref (drop (span s) s)"
  by simp

lemma span_drop_le: "n \<le> length s \<Longrightarrow> n + span (drop n s) \<le> length s"
  using span_le [of "drop n s"] by simp

end

lemma suffix_tl' [suffix_intros]: "suffix stop ip \<Longrightarrow> suffix (tl stop) ip"
  by (metis suffix_order.trans suffix_tl)

lemma spanIPv4_loop_suffix:
  "spanIPv4_loop ip dots = Some (stop, d) \<Longrightarrow> suffix stop ip"
proof (induction ip dots rule: spanIPv4_loop.induct)
  case (1 ip dots)
  obtain octet r where r: "strtol 10 ip = (octet, r)" by fastforce
  have "suffix r ip" by (rule strtol_suffixD [OF r])
  then show ?case
    using 1 by (subst (asm) (3) spanIPv4_loop.simps)
      (auto simp: r split: if_splits dest: suffix_tl' intro: suffix_order.trans)
qed

lemma spanIPv6_loop_suffix:
  "spanIPv6_loop ip c g = Some (ip', stop, c', g') \<Longrightarrow> suffix stop ip' \<and> suffix ip' ip"
proof (induction ip c g rule: spanIPv6_loop.induct)
  case (1 ip c g)
  obtain w r where r: "strtol 16 ip = (w, r)" by fastforce
  have sr: "suffix r ip" by (rule strtol_suffixD [OF r])
  then have st: "suffix (tl r) ip" by (rule suffix_tl')
  let ?g = "if r \<noteq> ip \<and> deref r \<noteq> CHR ''.'' then g + 1 else g"
  consider "ip' = ip" "stop = r" | "spanIPv6_loop (tl r) True ?g = Some (ip', stop, c', g')"
      "\<not> (w < 0 \<or> 0xffff < w)" "deref r = CHR '':''" "char_at r 1 = CHR '':''" "\<not> c"
    | "spanIPv6_loop (tl r) c ?g = Some (ip', stop, c', g')"
      "\<not> (w < 0 \<or> 0xffff < w)" "deref r = CHR '':''" "char_at r 1 \<noteq> CHR '':''"
    using "1.prems" by (subst (asm) spanIPv6_loop.simps) (auto simp: r Let_def split: if_splits)
  then show ?case
  proof cases
    case 2
    then have "suffix stop ip' \<and> suffix ip' (tl r)" using "1.IH"(1) [OF r [symmetric]] r by simp
    with st show ?thesis by (meson suffix_order.trans)
  next
    case 3
    then have "suffix stop ip' \<and> suffix ip' (tl r)" using "1.IH"(2) [OF r [symmetric]] r by simp
    with st show ?thesis by (meson suffix_order.trans)
  qed (use sr in simp)
qed

lemma spanIPv4_le: "spanIPv4 (Some s) \<le> length s"
  by (auto simp: spanIPv4_def split: option.split)

lemma spanIPv6_le: "spanIPv6 (Some s) \<le> length s"
proof -
  have "length s - length ip + spanIPv4 (Some ip) \<le> length s"
    if "spanIPv6_loop s False 0 = Some (ip, stop, c, g)" for ip stop c g
    using spanIPv6_loop_suffix [OF that] spanIPv4_le [of ip] by (auto dest!: suffix_length_le)
  then show ?thesis
    by (auto simp: spanIPv6_def Let_def split: option.split)
qed

interpretation ipv4: span_fn "\<lambda>s. spanIPv4 (Some s)"
  by unfold_locales (rule spanIPv4_le)

interpretation ipv6: span_fn "\<lambda>s. spanIPv6 (Some s)"
  by unfold_locales (rule spanIPv6_le)

lemma spanIP_le: "spanIP (Some s) \<le> length s"
proof -
  have "spanIPv6 (Some (drop 1 s)) + 2 \<le> length s"
    if "char_at s (1 + spanIPv6 (Some (drop 1 s))) = CHR '']''"
    using char_at_neq_NUL [of s "1 + spanIPv6 (Some (drop 1 s))"] that by simp
  moreover have "spanIPv6 (Some (drop 5 s)) \<le> length s"
    using spanIPv6_le [of "drop 5 s"] by simp
  ultimately show ?thesis
    using spanIPv4_le [of s] spanIPv6_le [of s]
    by (simp add: spanIP_def Let_def)
qed

interpretation ip: span_fn "\<lambda>s. spanIP (Some s)"
  by unfold_locales (rule spanIP_le)

lemma spanDomain_le: "spanDomain (Some s) m \<le> length s"
  by (auto simp: spanDomain_def split: domain_scan.split)

interpretation domain: span_fn "\<lambda>s. spanDomain (Some s) m" for m
  by unfold_locales (rule spanDomain_le)

lemma spanHost_le: "spanHost (Some s) m \<le> length s"
  by (simp add: spanHost_def Let_def spanIP_le spanDomain_le)

interpretation host: span_fn "\<lambda>s. spanHost (Some s) m" for m
  by unfold_locales (rule spanHost_le)

lemma quoted_loop_suffix: "suffix (fst (quoted_loop s)) s"
proof (induction s rule: quoted_loop.induct)
  case (2 c s)
  then show ?case
    by (cases s) (simp_all add: suffix_ConsI)
qed simp

lemma dot_string_loop_suffix: "suffix (dot_string_loop s) s"
proof (induction s rule: dot_string_loop.induct)
  case (2 c s)
  have "suffix (dot_string_loop (tl s)) s" if "isalnum c = False" "c = CHR 0x5C \<and> s \<noteq> []"
    using 2(2) that by (meson suffix_order.trans suffix_tl)
  with 2 show ?case by (simp add: suffix_ConsI)
qed simp

lemma spanLocalPart_le: "spanLocalPart s \<le> length s"
proof (cases "deref s = CHR 0x22")
  case True
  then obtain s' where s: "s = CHR 0x22 # s'" by (cases s) auto
  obtain t b where t: "quoted_loop s' = (t, b)" by fastforce
  have "length t \<le> length s'" using quoted_loop_suffix [of s'] t by (auto dest: suffix_length_le)
  then show ?thesis by (cases t) (auto simp: spanLocalPart_def s t split: bool.split)
next
  case False
  then show ?thesis by (simp add: spanLocalPart_def)
qed

interpretation localpart: span_fn spanLocalPart
  by unfold_locales (rule spanLocalPart_le)

lemma spanSourceRoute_le: "spanSourceRoute s \<le> length s"
  by (auto simp: spanSourceRoute_def split: option.split)

interpretation sourceroute: span_fn spanSourceRoute
  by unfold_locales (rule spanSourceRoute_le)

section \<open>What the IPv4 scanner accepts\<close>

text \<open>A string that does not continue an address: no digit, dot, sign or space starts it.\<close>

definition ends_ipv4 :: "string \<Rightarrow> bool" where
  "ends_ipv4 rest \<longleftrightarrow> \<not> isdigit (deref rest) \<and> \<not> isspace (deref rest)
     \<and> deref rest \<notin> {CHR ''.'', CHR ''+'', CHR ''-''}"

lemma strtol_no_number:
  assumes "\<not> isdigit (deref s)" "\<not> isspace (deref s)" "deref s \<noteq> CHR ''+''" "deref s \<noteq> CHR ''-''"
  shows "strtol 10 s = (0, s)"
  using assms
  by (cases s) (simp_all add: strtol_def strtol_sign_def strtol_prefix_def isdigit_base10)

lemma not_x_cases:
  "deref s \<in> {CHR ''.'', CHR '':'', NUL, CHR '']''} \<Longrightarrow>
    \<not> is_base_digit 10 (deref s) \<and> \<not> is_base_digit 16 (deref s)
    \<and> deref s \<noteq> CHR ''x'' \<and> deref s \<noteq> CHR ''X''"
  by (auto simp: is_base_digit_def digit_value_def ctype_defs ord_def)

lemma spanIPv4_loop_octet:
  assumes "a \<le> 255" "deref rest = CHR ''.''"
  shows "spanIPv4_loop (dec_str a @ rest) dots = spanIPv4_loop (tl rest) (dots + 1)"
proof -
  have "strtol 10 (dec_str a @ rest) = (int a, rest)"
    using assms not_x_cases [of rest] by (intro strtol_num_str) auto
  moreover have "rest \<noteq> dec_str a @ rest" by simp
  ultimately show ?thesis
    using assms by (subst spanIPv4_loop.simps) simp
qed

lemma spanIPv4_loop_last:
  assumes "a \<le> 255" "ends_ipv4 rest" "deref rest \<noteq> CHR ''x''" "deref rest \<noteq> CHR ''X''"
  shows "spanIPv4_loop (dec_str a @ rest) dots = Some (rest, dots)"
proof -
  have st: "strtol 10 (dec_str a @ rest) = (int a, rest)"
    using assms by (intro strtol_num_str) (auto simp: ends_ipv4_def isdigit_base10)
  have "rest \<noteq> dec_str a @ rest" by simp
  then have "spanIPv4_loop (dec_str a @ rest) dots = spanIPv4_loop rest dots"
    using assms st by (subst spanIPv4_loop.simps) (simp add: ends_ipv4_def)
  also have "\<dots> = Some (rest, dots)"
    using assms by (subst spanIPv4_loop.simps) (simp add: ends_ipv4_def strtol_no_number)
  finally show ?thesis .
qed

definition dotted_quad :: "nat \<Rightarrow> nat \<Rightarrow> nat \<Rightarrow> nat \<Rightarrow> string" where
  "dotted_quad a b c d =
     dec_str a @ ''.'' @ dec_str b @ ''.'' @ dec_str c @ ''.'' @ dec_str d"

lemma spanIPv4_dotted_quad:
  assumes "a \<le> 255" "b \<le> 255" "c \<le> 255" "d \<le> 255" "ends_ipv4 rest"
    "deref rest \<noteq> CHR ''x''" "deref rest \<noteq> CHR ''X''"
  shows "spanIPv4 (Some (dotted_quad a b c d @ rest)) = length (dotted_quad a b c d)"
proof -
  have "spanIPv4_loop (dotted_quad a b c d @ rest) 0 = Some (rest, 3)"
    using assms by (simp add: dotted_quad_def spanIPv4_loop_octet spanIPv4_loop_last)
  then show ?thesis by (simp add: spanIPv4_def)
qed

definition ipv4_char :: "char \<Rightarrow> bool" where
  "ipv4_char c \<longleftrightarrow> isdigit c \<or> isspace c \<or> c \<in> {CHR ''.'', CHR ''+'', CHR ''-''}"

lemma strtol_consumed:
  assumes "strtol 10 s = (v, r)"
  shows "\<exists>p. s = p @ r \<and> (\<forall>c \<in> set p. ipv4_char c \<and> c \<noteq> CHR ''.'')"
proof -
  have base10: "is_base_digit 10 = isdigit" by (rule ext) (simp add: isdigit_base10)
  define s1 where "s1 = dropWhile isspace s"
  obtain neg s2 where s2: "strtol_sign s1 = (neg, s2)" by fastforce
  define ds where "ds = takeWhile isdigit s2"
  have eq: "strtol 10 s = (if ds = [] then (0, s) else
      (if neg then max LONG_MIN (- int (digits_value 10 ds)) else min LONG_MAX (int (digits_value 10 ds)),
       dropWhile isdigit s2))"
    by (simp add: strtol_def s1_def [symmetric] s2 strtol_prefix_def ds_def base10)
  have sp: "s = takeWhile isspace s @ s1" by (simp add: s1_def)
  obtain q where q: "s1 = q @ s2" "\<forall>c \<in> set q. c \<in> {CHR ''+'', CHR ''-''}"
    using s2 by (cases s1) (auto simp: strtol_sign_def split: if_splits)
  have ds: "s2 = ds @ dropWhile isdigit s2" by (simp add: ds_def)
  have dot: "\<not> isdigit CHR ''.''" "\<not> isspace CHR ''.''" by (simp_all add: ctype_defs ord_def)
  show ?thesis
  proof (cases "ds = []")
    case True
    then show ?thesis using eq assms by auto
  next
    case False
    then have "s = (takeWhile isspace s @ q @ ds) @ r"
      using eq assms sp q(1) ds by (metis append.assoc prod.inject)
    moreover have "\<forall>c \<in> set (takeWhile isspace s @ q @ ds). ipv4_char c \<and> c \<noteq> CHR ''.''"
      using q(2) dot by (auto simp: ipv4_char_def ds_def dest!: set_takeWhileD)
    ultimately show ?thesis by blast
  qed
qed

lemma spanIPv4_loop_sound:
  "spanIPv4_loop ip dots = Some (stop, d) \<Longrightarrow>
    \<exists>p. ip = p @ stop \<and> (\<forall>c \<in> set p. ipv4_char c) \<and> d = dots + count_list p CHR ''.''"
proof (induction ip dots rule: spanIPv4_loop.induct)
  case (1 ip dots)
  obtain v r where r: "strtol 10 ip = (v, r)" by fastforce
  obtain p where p: "ip = p @ r" "\<forall>c \<in> set p. ipv4_char c \<and> c \<noteq> CHR ''.''"
    using strtol_consumed [OF r] by blast
  then have p0: "count_list p CHR ''.'' = 0" by (auto simp: count_list_0_iff)
  consider "stop = ip" "d = dots" | "ip \<noteq> []" "r \<noteq> ip" "\<not> (v < 0 \<or> 255 < v)" "deref r = CHR ''.''"
      "spanIPv4_loop (tl r) (dots + 1) = Some (stop, d)"
    | "ip \<noteq> []" "r \<noteq> ip" "\<not> (v < 0 \<or> 255 < v)" "deref r \<noteq> CHR ''.''"
      "spanIPv4_loop r dots = Some (stop, d)"
    using "1.prems" by (subst (asm) spanIPv4_loop.simps) (auto simp: r split: if_splits)
  then show ?case
  proof cases
    case 2
    then obtain q where q: "tl r = q @ stop" "\<forall>c \<in> set q. ipv4_char c"
        "d = dots + 1 + count_list q CHR ''.''"
      using "1.IH"(1) [OF _ r [symmetric]] r by auto
    have "ip = (p @ CHR ''.'' # q) @ stop" using 2 p q by (cases r) auto
    moreover have "ipv4_char CHR ''.''" by (simp add: ipv4_char_def)
    ultimately show ?thesis using p q p0
      by (intro exI [of _ "p @ CHR ''.'' # q"]) auto
  next
    case 3
    then obtain q where q: "r = q @ stop" "\<forall>c \<in> set q. ipv4_char c"
        "d = dots + count_list q CHR ''.''"
      using "1.IH"(2) [OF _ r [symmetric]] r by auto
    then show ?thesis using p p0 by (intro exI [of _ "p @ q"]) auto
  qed simp
qed

lemma spanIPv4_sound:
  assumes "0 < spanIPv4 (Some s)"
  shows "count_list (take (spanIPv4 (Some s)) s) CHR ''.'' = 3
    \<and> (\<forall>c \<in> set (take (spanIPv4 (Some s)) s). ipv4_char c)"
proof -
  obtain stop where l: "spanIPv4_loop s 0 = Some (stop, 3)"
      and n: "spanIPv4 (Some s) = length s - length stop"
    using assms by (auto simp: spanIPv4_def split: option.splits if_splits)
  then show ?thesis using spanIPv4_loop_sound [OF l] by auto
qed

section \<open>What the domain scanner accepts\<close>

definition domain_char :: "char \<Rightarrow> bool" where
  "domain_char c \<longleftrightarrow> isalnum c \<or> 128 \<le> ord c \<or> c \<in> {CHR ''.'', CHR ''-'', CHR ''_''}"

definition scan_sound :: "nat \<Rightarrow> string \<Rightarrow> domain_scan \<Rightarrow> bool" where
  "scan_sound dots s r \<longleftrightarrow>
     (case r of
        RetZero \<Rightarrow> True
      | Stop rest d \<Rightarrow> \<exists>p. s = p @ rest \<and> (\<forall>c \<in> set p. domain_char c) \<and> \<not> sublist ''..'' p
          \<and> d \<le> dots + count_list p CHR ''.''
      | Ended d al \<Rightarrow> (\<forall>c \<in> set s. domain_char c) \<and> \<not> sublist ''..'' s
          \<and> d \<le> dots + count_list s CHR ''.'')"

lemma sublist_dotdot_Cons:
  "sublist ''..'' (c # s) \<longleftrightarrow> c = CHR ''.'' \<and> deref s = CHR ''.'' \<or> sublist ''..'' s"
  by (cases s) (auto simp: sublist_Cons_right)

lemma scan_sound_Cons:
  assumes "scan_sound dots' s r" "domain_char c" "c = CHR ''.'' \<longrightarrow> deref s \<noteq> CHR ''.''"
    "dots' \<le> dots + (if c = CHR ''.'' then 1 else 0)"
  shows "scan_sound dots (c # s) r"
proof (cases r)
  case (Stop rest d)
  with assms(1) obtain p where p: "s = p @ rest" "\<forall>c \<in> set p. domain_char c" "\<not> sublist ''..'' p"
      "d \<le> dots' + count_list p CHR ''.''" by (auto simp: scan_sound_def)
  then have "deref p = CHR ''.'' \<Longrightarrow> deref s = CHR ''.''" by (cases p) auto
  then show ?thesis using Stop p assms
    by (auto simp: scan_sound_def sublist_dotdot_Cons intro!: exI [of _ "c # p"])
qed (use assms in \<open>auto simp: scan_sound_def sublist_dotdot_Cons\<close>)

lemma spanDomain_loop_sound: "scan_sound dots s (spanDomain_loop s dots al)"
proof (induction s dots al rule: spanDomain_loop.induct)
  case (2 c s dots al)
  consider "c = CHR ''.''" | "c = CHR ''-''"
    | "c \<noteq> CHR ''.''" "c \<noteq> CHR ''-''" "c = CHR ''_'' \<or> isalnum c \<or> 128 \<le> ord c"
    | "c \<noteq> CHR ''.''" "c \<noteq> CHR ''-''" "c \<noteq> CHR ''_''" "\<not> isalnum c" "ord c < 128"
    by linarith
  then show ?case
  proof cases
    case 1
    then show ?thesis using 2
      by (cases "deref s = CHR ''.''")
        (auto simp: scan_sound_def [of _ _ RetZero] domain_char_def intro!: scan_sound_Cons)
  next
    case 3
    then show ?thesis using 2 scan_sound_Cons [of dots s _ c dots]
      by (auto simp: domain_char_def)
  next
    case 4
    then show ?thesis by (auto simp: scan_sound_def intro!: exI [of _ "[]"])
  qed (use 2 in \<open>auto simp: domain_char_def intro!: scan_sound_Cons\<close>)
qed (simp add: scan_sound_def)

lemma spanDomain_sound:
  assumes "0 < spanDomain (Some s) m"
  shows "(\<forall>c \<in> set (take (spanDomain (Some s) m) s). domain_char c)
    \<and> \<not> sublist ''..'' (take (spanDomain (Some s) m) s)
    \<and> m \<le> int (count_list (take (spanDomain (Some s) m) s) CHR ''.'')"
  using assms spanDomain_loop_sound [of 0 s True]
  by (auto simp: spanDomain_def scan_sound_def split: domain_scan.splits if_splits)

section \<open>Properties\<close>

text \<open>\<open>spanIPv4\<close> spans a dotted quad of octets exactly, whatever follows it (as long as what
  follows cannot continue a number).\<close>

lemma spanIPv4_exact:
  assumes "a \<le> 255" and "b \<le> 255" and "c \<le> 255" and "d \<le> 255" and "ends_ipv4 rest"
    and "deref rest \<noteq> CHR ''x''" and "deref rest \<noteq> CHR ''X''"
  shows "spanIPv4 (Some (dotted_quad a b c d @ rest)) = length (dotted_quad a b c d)"
  by (rule spanIPv4_dotted_quad [OF assms])

text \<open>Whenever \<open>spanIPv4\<close> returns a positive length, the text it spans has exactly three dots
  and otherwise only digits, white space and signs.\<close>

lemma spanIPv4_accepts:
  assumes "0 < spanIPv4 (Some s)"
  shows "count_list (take (spanIPv4 (Some s)) s) CHR ''.'' = 3
       \<and> list_all ipv4_char (take (spanIPv4 (Some s)) s)"
  using spanIPv4_sound [OF assms] by (simp add: list_all_iff)

text \<open>C16: A string that \<open>spanDomain\<close> accepts has, in the part it spans, only letters, digits,
  dots, hyphens, underscores and 8-bit characters, no two adjacent dots, and at least the number of
  dots the caller asked for.\<close>

theorem spanDomain_accepts:
  assumes "0 < spanDomain (Some s) minDots"
  shows "list_all domain_char (take (spanDomain (Some s) minDots) s)
    \<and> \<not> sublist ''..'' (take (spanDomain (Some s) minDots) s)
    \<and> minDots \<le> int (count_list (take (spanDomain (Some s) minDots) s) CHR ''.'')"
  using spanDomain_sound [OF assms] by (simp add: list_all_iff)

theorem spanDomain_accepts_witness:
  "list_all domain_char (take (spanDomain (Some ''mx.example.com'') 1) ''mx.example.com'')
    \<and> \<not> sublist ''..'' (take (spanDomain (Some ''mx.example.com'') 1) ''mx.example.com'')
    \<and> 1 \<le> int (count_list (take (spanDomain (Some ''mx.example.com'') 1) ''mx.example.com'') CHR ''.'')"
  by (rule spanDomain_accepts) (code_simp)

end
