(* ===== verification/NetParse.thy ===== *)
theory NetParse
  imports NetSpan
begin

text \<open>
  Binary IP addresses: \<^verbatim>\<open>net/parseIPv6.c\<close> (text to octets), \<^verbatim>\<open>net/formatIP.c\<close> (octets
  to text), \<^verbatim>\<open>net/network.c\<close> (membership of a network), \<^verbatim>\<open>net/isReservedIPv4.c\<close>,
  \<^verbatim>\<open>net/isReservedIPv6.c\<close> and \<^verbatim>\<open>net/isReservedIP.c\<close>.
  An IPv6 address is an array of 16 octets in network byte order.
\<close>

section \<open>Parsing\<close>

text \<open>The loop of \<^verbatim>\<open>parseIPv6\<close>. The result of a loop that ends by its condition or by \<open>break\<close> is
  \<open>ip\<close>, \<open>stop\<close>, \<open>compressed\<close>, \<open>groups\<close>, \<open>offset\<close>, \<open>mark\<close> and the buffer; for an early \<open>return 0\<close> it is
  the buffer with the groups stored so far (\<open>Inr (Inl buf)\<close>). Each octet goes through \<open>store\<close>, so one
  stored behind the buffer is a fault.\<close>

function parseIPv6_loop ::
    "string \<Rightarrow> string \<Rightarrow> bool \<Rightarrow> nat \<Rightarrow> nat \<Rightarrow> nat \<Rightarrow> u8 list
     \<Rightarrow> fault + u8 list + string \<times> string \<times> bool \<times> nat \<times> nat \<times> nat \<times> u8 list" where
  "parseIPv6_loop ip stop compressed groups offset mark buf =
     (if \<not> groups < 8 then Inr (Inr (ip, stop, compressed, groups, offset, mark, buf))
      else
        let (word, stop) = strtol 16 ip
        in if word < 0 \<or> 0xffff < word then Inr (Inl buf)
           else
             let digits = (stop \<noteq> ip \<and> deref stop \<noteq> CHR ''.'')
             in case (if digits
                      then andthen (store buf offset (word_of_int (drop_bit 8 (word AND 0xff00))))
                             (\<lambda>buf. store buf (offset + 1) (word_of_int (word AND 0x00ff)))
                      else Inr buf) of
                  Inl e \<Rightarrow> Inl e
                | Inr buf \<Rightarrow>
                    let offset = (if digits then offset + 2 else offset);
                        groups = (if digits then groups + 1 else groups)
                    in if deref stop \<noteq> CHR '':''
                       then Inr (Inr (ip, stop, compressed, groups, offset, mark, buf))
                       else if char_at stop 1 = CHR '':''
                       then (if compressed then Inr (Inl buf)
                             else parseIPv6_loop (tl stop) stop True groups offset offset buf)
                       else parseIPv6_loop (tl stop) stop compressed groups offset mark buf)"
  by pat_completeness auto
termination
proof (relation "measure (\<lambda>(ip, stop, c, g, off, mark, buf). length ip)", goal_cases)
  case (2 ip stop c g off mark buf x word r digits buf' off' g')
  then have "length r \<le> length ip" "r \<noteq> []" by (metis strtol_length, auto)
  then show ?case by (cases r) auto
next
  case (3 ip stop c g off mark buf x word r digits buf' off' g')
  then have "length r \<le> length ip" "r \<noteq> []" by (metis strtol_length, auto)
  then show ?case by (cases r) auto
qed simp

declare parseIPv6_loop.simps [simp del]

text \<open>The dotted tail of IPv6v4 forms: \<open>Inl\<close> where a check returns 0, otherwise the four octets and
  the pointer after them.\<close>

definition parse_octet :: "string \<Rightarrow> bool \<Rightarrow> (int \<times> string) option" where
  "parse_octet ip dot =
     (let (v, stop) = strtol 10 ip
      in if v < 0 \<or> 255 < v \<or> (dot \<and> deref stop \<noteq> CHR ''.'') then None else Some (v, stop))"

definition parse_dotted :: "string \<Rightarrow> (int \<times> int \<times> int \<times> int \<times> string) option" where
  "parse_dotted ip =
     (case parse_octet ip True of None \<Rightarrow> None | Some (a, ip) \<Rightarrow>
      (case parse_octet (tl ip) True of None \<Rightarrow> None | Some (b, ip) \<Rightarrow>
      (case parse_octet (tl ip) True of None \<Rightarrow> None | Some (c, ip) \<Rightarrow>
      (case parse_octet (tl ip) False of None \<Rightarrow> None | Some (d, ip) \<Rightarrow> Some (a, b, c, d, ip)))))"

definition parseIPv6_body :: "string \<Rightarrow> u8 list \<Rightarrow> fault + nat \<times> u8 list" where
  "parseIPv6_body start buf =
     (let ip = (if deref start = CHR ''['' then tl start else start);
          ip = (if TextInsensitiveCompareN (Some ip) (Some ''IPv6:'') 5 = 0 then drop 5 ip else ip)
      in case parseIPv6_loop ip [] False 0 0 0 buf of
           Inl e \<Rightarrow> Inl e
         | Inr (Inl buf) \<Rightarrow> Inr (0, buf)
         | Inr (Inr (ip, stop, compressed, groups, offset, mark, buf)) \<Rightarrow>
             let dot = (if deref stop = CHR ''.'' then 4 else (0::int))
             in case buf_memmove buf (16 - dot - int offset + int mark) (int mark)
                       (int offset - int mark) of
                  Inl e \<Rightarrow> Inl e
                | Inr buf \<Rightarrow>
                    (case buf_memset buf (int mark) 0 (16 - dot - int offset) of
                       Inl e \<Rightarrow> Inl e
                     | Inr buf \<Rightarrow>
                         if deref stop = CHR ''.'' then
                           (if compressed \<and> 4 < groups then Inr (0, buf)
                            else if \<not> compressed \<and> 6 < groups then Inr (0, buf)
                            else
                              case parse_dotted ip of
                                None \<Rightarrow> Inr (0, buf)
                              | Some (a, b, c, d, ip) \<Rightarrow>
                                  andthen (store buf 12 (word_of_int a)) (\<lambda>buf.
                                  andthen (store buf 13 (word_of_int b)) (\<lambda>buf.
                                  andthen (store buf 14 (word_of_int c)) (\<lambda>buf.
                                  andthen (store buf 15 (word_of_int d)) (\<lambda>buf.
                                    Inr (length start - length ip
                                           + (if deref ip = CHR '']'' then 1 else 0), buf))))))
                         else if \<not> compressed \<and> groups = 8 \<or> compressed \<and> groups \<le> 7
                         then Inr (length start - length stop
                                     + (if deref stop = CHR '']'' then 1 else 0), buf)
                         else Inr (0, buf)))"

definition parseIPv6 :: "string option \<Rightarrow> u8 list option \<Rightarrow> fault + nat \<times> u8 list option" where
  "parseIPv6 ip ipv6 =
     (case (ip, ipv6) of
        (Some ip, Some buf) \<Rightarrow>
          (case parseIPv6_body ip buf of Inl e \<Rightarrow> Inl e | Inr (n, buf) \<Rightarrow> Inr (n, Some buf))
      | _ \<Rightarrow> Inr (0, ipv6))"

section \<open>Formatting\<close>

text \<open>\<^verbatim>\<open>formatIP\<close>. The scan keeps the octet index \<open>i\<close>, the count \<open>z\<close> of leading zero words, the
  flag \<open>compact == 1\<close>, the output length and the buffer. \<open>fmt_word\<close> is the effect of \<open>word_fmt\<close>.\<close>

definition ip_word :: "u8 list \<Rightarrow> nat \<Rightarrow> nat" where
  "ip_word ip i = unat (NET_GET_SHORT (drop i ip))"

definition hex4_str :: "nat \<Rightarrow> string" where
  "hex4_str n = replicate (4 - length (hex_str n)) CHR ''0'' @ hex_str n"

definition fmt_word :: "nat \<Rightarrow> nat \<Rightarrow> string" where
  "fmt_word compact w = (if compact = 2 then hex4_str w else hex_str w)"

function skip_zero_words :: "u8 list \<Rightarrow> nat \<Rightarrow> nat \<Rightarrow> nat \<Rightarrow> nat \<times> nat \<times> nat" where
  "skip_zero_words ip i z word =
     (if i < 16 then
        let word = ip_word ip i
        in if word \<noteq> 0 then (i, z, word)
           else skip_zero_words ip (i + 2) (if i div 2 = z then z + 1 else z) word
      else (i, z, word))"
  by pat_completeness auto
termination
  by (relation "measure (\<lambda>(ip, i, z, word). 16 - i)") auto

declare skip_zero_words.simps [simp del]

text \<open>One pass of the loop up to the formatting of a word: \<open>None\<close> with the state is a \<open>break\<close>.\<close>

definition formatIP_zeros ::
    "u8 list \<Rightarrow> nat \<Rightarrow> nat \<Rightarrow> nat \<Rightarrow> bool \<Rightarrow> nat \<Rightarrow> string
     \<Rightarrow> bool \<times> nat \<times> nat \<times> nat \<times> bool \<times> nat \<times> string" where
  \<comment> \<open>(broke out, i, z, word, compact, length, buffer)\<close>
  "formatIP_zeros ip sz i z compact len buf =
     (let word = ip_word ip i;
          z = (if word = 0 \<and> i div 2 = z then z + 1 else z)
      in if compact \<and> word = 0 then
           let sep = (if 0 < i then '':'' else ''::'');
               buf = snprintf_at buf len (sz - len) sep;
               n = length sep
           in if sz - len \<le> n then (True, i, z, word, False, len, buf)
              else if i = 14 then (True, i, z, word, False, len + n, buf)
              else let (i, z, word) = skip_zero_words ip (i + 2) z word
                   in (False, i, z, word, False, len + n, buf)
         else (False, i, z, word, compact, len, buf))"

lemma skip_zero_words_mono: "skip_zero_words ip i z w = (i', z', w') \<Longrightarrow> i \<le> i'"
proof (induction ip i z w rule: skip_zero_words.induct)
  case (1 ip i z w)
  then show ?case
    by (subst (asm) (2) skip_zero_words.simps) (auto simp: Let_def split: if_splits)
qed

lemma formatIP_zeros_mono:
  "formatIP_zeros ip sz i z c len buf = (b, i', z', w, c', len', buf') \<Longrightarrow> i \<le> i'"
  by (auto simp: formatIP_zeros_def Let_def split: if_splits prod.splits
      dest!: skip_zero_words_mono)

function formatIP_loop ::
    "u8 list \<Rightarrow> nat \<Rightarrow> nat \<Rightarrow> nat \<Rightarrow> nat \<Rightarrow> bool \<Rightarrow> nat \<Rightarrow> string \<Rightarrow> nat \<times> nat \<times> nat \<times> string" where
  \<comment> \<open>result: i, z, length, buffer\<close>
  "formatIP_loop ip cmode sz i z compact len buf =
     (if i < 16 then
        let (broke, i, z, word, compact, len, buf) = formatIP_zeros ip sz i z compact len buf
        in if broke then (i, z, len, buf)
           else if z = 6 \<and> i = 12 then (i, z, len, buf)
           else
             let str = fmt_word cmode word;
                 buf = snprintf_at buf len (sz - len) str
             in if sz - len \<le> length str then (i, z, len, buf)
                else
                  let len = len + length str;
                      colon = (i < 14 \<and> len + 1 < sz);
                      buf = (if colon then buf[len := CHR '':''] else buf);
                      len = (if colon then len + 1 else len)
                  in if z = 5 \<and> i = 10 \<and> word = 0xFFFF then (i, z, len, buf)
                     else formatIP_loop ip cmode sz (i + 2) z compact len buf
      else (i, z, len, buf))"
  by pat_completeness auto
termination
  by (relation "measure (\<lambda>(ip, cmode, sz, i, z, compact, len, buf). 16 - i)")
    (auto dest!: sym [THEN formatIP_zeros_mono])

declare formatIP_loop.simps [simp del]

definition octets_str :: "u8 list \<Rightarrow> nat \<Rightarrow> string" where
  "octets_str ip i =
     dotted_quad (unat (ip ! i)) (unat (ip ! (i + 1))) (unat (ip ! (i + 2))) (unat (ip ! (i + 3)))"

text \<open>\<open>formatIP ip ip_length compact buffer sz\<close>: the returned length and the buffer.\<close>

definition formatIP ::
    "u8 list option \<Rightarrow> nat \<Rightarrow> nat \<Rightarrow> string option \<Rightarrow> nat \<Rightarrow> nat \<times> string option" where
  "formatIP ip ip_length compact buffer sz =
     (case (ip, buffer) of
        (Some ip, Some buf) \<Rightarrow>
          if ip_length = 4 then
            let str = octets_str ip 0 in (length str, Some (snprintf_at buf 0 sz str))
          else if ip_length \<noteq> 16 then (0, Some buf)
          else
            let (i, z, len, buf) = formatIP_loop ip compact sz 0 0 (compact = 1) 0 buf;
                buf = (if len < sz then buf[len := NUL] else buf)
            in if z = 6 \<and> i = 12 \<or> z = 5 \<and> i = 10
               then let str = octets_str ip 12
                    in (len + length str, Some (snprintf_at buf len (sz - len) str))
               else (len, Some buf)
      | _ \<Rightarrow> (0, buffer))"

section \<open>Networks\<close>

text \<open>\<^verbatim>\<open>networkContainsIPv6\<close>: build the mask octets and compare.\<close>

definition network_mask :: "nat \<Rightarrow> u8 list" where
  "network_mask cidr =
     (let pre = cidr div 8; partial = cidr mod 8;
          flags = replicate pre 0xff @ replicate (16 - pre) 0
      in if partial \<noteq> 0 then flags[pre := signed_drop_bit (partial - 1) 0x80] else flags)"

definition networkContainsIPv6 :: "u8 list \<Rightarrow> nat \<Rightarrow> u8 list \<Rightarrow> bool" where
  "networkContainsIPv6 net cidr ipv6 =
     (if 128 < cidr then False
      else list_all (\<lambda>i. (ipv6 ! i) AND (network_mask cidr ! i) = (net ! i) AND (network_mask cidr ! i))
             [0..<16])"

text \<open>\<^verbatim>\<open>networkContainsIP\<close>; \<open>strtol\<close> is assigned to \<open>unsigned long\<close>. The two buffers on the C stack
  hold arbitrary octets at first.\<close>

definition networkContainsIP ::
    "u8 list \<Rightarrow> u8 list \<Rightarrow> string option \<Rightarrow> string option \<Rightarrow> fault + bool" where
  "networkContainsIP network0 ip0 net_cidr address =
     (case net_cidr of
        None \<Rightarrow> Inr False
      | Some nc \<Rightarrow>
          (case strchr nc CHR ''/'' of
             None \<Rightarrow> Inr False
           | Some slash \<Rightarrow>
               let cidr = nat (fst (strtol 10 (tl slash)) mod 2 ^ 64)
               in case parseIPv6 (Some nc) (Some network0) of
                    Inl e \<Rightarrow> Inl e
                  | Inr (n, network) \<Rightarrow>
                      if n = 0 then Inr False
                      else
                        (case parseIPv6 address (Some ip0) of
                           Inl e \<Rightarrow> Inl e
                         | Inr (m, ip) \<Rightarrow>
                             if m = 0 then Inr False
                             else
                               let cidr = (if cidr \<le> 32 \<and> strchr nc CHR '':'' = None
                                           then 128 - 32 + cidr else cidr)
                               in Inr (networkContainsIPv6 (the network) cidr (the ip)))))"

section \<open>Reserved addresses\<close>

text \<open>The flags of \<^verbatim>\<open>is_ip_t\<close>.\<close>

definition IS_IP_BENCHMARK :: u32 where "IS_IP_BENCHMARK = 0x00000001"
definition IS_IP_LINK_LOCAL :: u32 where "IS_IP_LINK_LOCAL = 0x00000002"
definition IS_IP_LOCALHOST :: u32 where "IS_IP_LOCALHOST = 0x00000004"
definition IS_IP_LOOPBACK :: u32 where "IS_IP_LOOPBACK = 0x00000008"
definition IS_IP_MULTICAST :: u32 where "IS_IP_MULTICAST = 0x00000010"
definition IS_IP_PRIVATE_A :: u32 where "IS_IP_PRIVATE_A = 0x00000020"
definition IS_IP_PRIVATE_B :: u32 where "IS_IP_PRIVATE_B = 0x00000040"
definition IS_IP_PRIVATE_C :: u32 where "IS_IP_PRIVATE_C = 0x00000080"
definition IS_IP_CLASS_E :: u32 where "IS_IP_CLASS_E = 0x00000100"
definition IS_IP_PROTOCOL :: u32 where "IS_IP_PROTOCOL = 0x00000200"
definition IS_IP_TEST_NET_1 :: u32 where "IS_IP_TEST_NET_1 = 0x00000400"
definition IS_IP_THIS_HOST :: u32 where "IS_IP_THIS_HOST = 0x00000800"
definition IS_IP_THIS_NET :: u32 where "IS_IP_THIS_NET = 0x00001000"
definition IS_IP_V4_COMPATIBLE :: u32 where "IS_IP_V4_COMPATIBLE = 0x00002000"
definition IS_IP_V4_MAPPED :: u32 where "IS_IP_V4_MAPPED = 0x00004000"
definition IS_IP_V6 :: u32 where "IS_IP_V6 = 0x00008000"
definition IS_IP_V6_RESERVED :: u32 where "IS_IP_V6_RESERVED = 0x00010000"
definition IS_IP_BROADCAST :: u32 where "IS_IP_BROADCAST = 0x00020000"
definition IS_IP_6TO4_ANYCAST :: u32 where "IS_IP_6TO4_ANYCAST = 0x00040000"
definition IS_IP_TEST_NET_2 :: u32 where "IS_IP_TEST_NET_2 = 0x00080000"
definition IS_IP_TEST_NET_3 :: u32 where "IS_IP_TEST_NET_3 = 0x00100000"
definition IS_IP_SHARED :: u32 where "IS_IP_SHARED = 0x00200000"

definition IS_IP_TEST_NET :: u32 where
  "IS_IP_TEST_NET = IS_IP_BENCHMARK OR IS_IP_TEST_NET_1 OR IS_IP_TEST_NET_2 OR IS_IP_TEST_NET_3"

definition IS_IP_V4 :: u32 where
  "IS_IP_V4 = IS_IP_V4_COMPATIBLE OR IS_IP_V4_MAPPED"

lemmas is_ip_flags = IS_IP_BENCHMARK_def IS_IP_LINK_LOCAL_def IS_IP_LOCALHOST_def
  IS_IP_LOOPBACK_def IS_IP_MULTICAST_def IS_IP_PRIVATE_A_def IS_IP_PRIVATE_B_def
  IS_IP_PRIVATE_C_def IS_IP_CLASS_E_def IS_IP_PROTOCOL_def IS_IP_TEST_NET_1_def
  IS_IP_THIS_HOST_def IS_IP_THIS_NET_def IS_IP_V4_COMPATIBLE_def IS_IP_V4_MAPPED_def
  IS_IP_V6_def IS_IP_V6_RESERVED_def IS_IP_BROADCAST_def IS_IP_6TO4_ANYCAST_def
  IS_IP_TEST_NET_2_def IS_IP_TEST_NET_3_def IS_IP_SHARED_def IS_IP_TEST_NET_def IS_IP_V4_def

definition flag :: "u32 \<Rightarrow> u32 \<Rightarrow> bool" where
  "flag flags f \<longleftrightarrow> flags AND f \<noteq> 0"

definition isReservedIPv4 :: "u8 list option \<Rightarrow> u32 \<Rightarrow> bool" where
  "isReservedIPv4 ipv4 flags =
     (case ipv4 of
        None \<Rightarrow> False
      | Some p \<Rightarrow>
          let ip = NET_GET_LONG p
          in (flag flags IS_IP_BROADCAST \<and> ip = 0xffffffff)
           \<or> (flag flags IS_IP_LOCALHOST \<and> ip = 0x7f000001)
           \<or> (flag flags IS_IP_THIS_HOST \<and> ip = 0x00000000)
           \<or> (flag flags IS_IP_PROTOCOL \<and> ip AND 0xffffff00 = 0xc0000000)
           \<or> (flag flags IS_IP_TEST_NET_1 \<and> ip AND 0xffffff00 = 0xc0000200)
           \<or> (flag flags IS_IP_6TO4_ANYCAST \<and> ip AND 0xffffff00 = 0xc0586300)
           \<or> (flag flags IS_IP_TEST_NET_2 \<and> ip AND 0xffffff00 = 0xc6336400)
           \<or> (flag flags IS_IP_TEST_NET_3 \<and> ip AND 0xffffff00 = 0xcb007100)
           \<or> (flag flags IS_IP_LINK_LOCAL \<and> ip AND 0xffff0000 = 0xa9fe0000)
           \<or> (flag flags IS_IP_PRIVATE_C \<and> ip AND 0xffff0000 = 0xc0a80000)
           \<or> (flag flags IS_IP_BENCHMARK \<and> ip AND 0xfffe0000 = 0xc6120000)
           \<or> (flag flags IS_IP_PRIVATE_B \<and> ip AND 0xfff00000 = 0xac100000)
           \<or> (flag flags IS_IP_SHARED \<and> ip AND 0xffc00000 = 0x64400000)
           \<or> (flag flags IS_IP_LOOPBACK \<and> ip AND 0xff000000 = 0x7f000000 \<and> ip \<noteq> 0x7f000001)
           \<or> (flag flags IS_IP_PRIVATE_A \<and> ip AND 0xff000000 = 0x0a000000)
           \<or> (flag flags IS_IP_THIS_NET \<and> ip AND 0xff000000 = 0x00000000)
           \<or> (flag flags IS_IP_MULTICAST \<and> ip AND 0xf0000000 = 0xe0000000)
           \<or> (flag flags IS_IP_CLASS_E \<and> ip AND 0xf0000000 = 0xf0000000))"

definition isReservedIPv6 :: "u8 list option \<Rightarrow> u32 \<Rightarrow> bool" where
  "isReservedIPv6 ipv6 flags =
     (case ipv6 of
        None \<Rightarrow> False
      | Some p \<Rightarrow>
          let zeros = length (takeWhile (\<lambda>b. b = 0) (take 16 p))
          in if flag flags IS_IP_THIS_HOST \<and> zeros = 16 then True
             else if flag flags IS_IP_THIS_NET \<and> zeros \<ge> 16 - 3 then True
             else if flag flags IS_IP_LOCALHOST \<and> zeros = 15 \<and> p ! 15 = 0x01 then True
             else if zeros = 12 \<or> (zeros = 10 \<and> p ! 10 = 0xff \<and> p ! 11 = 0xff) then
               (if flag flags IS_IP_V4_COMPATIBLE \<and> zeros = 12 then True
                else if flag flags IS_IP_V4_MAPPED then True
                else isReservedIPv4 (Some (drop 12 p)) flags)
             else if flag flags IS_IP_V6_RESERVED \<and> zeros \<ge> 2 then True
             else if flag flags IS_IP_V6 then True
             else if flag flags IS_IP_TEST_NET \<and> NET_GET_LONG p = 0x20010DB8 then True
             else if flag flags IS_IP_LINK_LOCAL \<and> p ! 0 = 0xFE \<and> (p ! 1) AND 0xC0 = 0x80 then True
             else if flag flags IS_IP_MULTICAST \<and> p ! 0 = 0xFF then True
             else False)"

definition isReservedIP :: "u8 list \<Rightarrow> string option \<Rightarrow> u32 \<Rightarrow> fault + bool" where
  "isReservedIP ipv6 ip flags =
     (case parseIPv6 ip (Some ipv6) of
        Inl e \<Rightarrow> Inl e
      | Inr (n, p) \<Rightarrow> Inr (if n = 0 then False else isReservedIPv6 p flags))"

section \<open>Memory safety of the parser\<close>

text \<open>What the scan keeps: two octets per group, the compression mark within what has been written, and
  pointers into the input.\<close>

definition scan_ok :: "string \<Rightarrow> string \<Rightarrow> string \<Rightarrow> nat \<Rightarrow> nat \<Rightarrow> nat \<Rightarrow> u8 list \<Rightarrow> bool" where
  "scan_ok start ip stop groups offset mark buf \<longleftrightarrow>
     suffix ip start \<and> suffix stop start \<and> offset = 2 * groups \<and> mark \<le> offset \<and> groups \<le> 8
     \<and> length buf = 16"

lemma count_list_suffix: "suffix t s \<Longrightarrow> count_list t c \<le> count_list s c"
  by (auto simp: suffix_def)

lemma count_list_tl: "deref s = c \<Longrightarrow> s \<noteq> [] \<Longrightarrow> count_list s c = Suc (count_list (tl s) c)"
  by (cases s) auto

lemma suffix_tlI: "suffix s t \<Longrightarrow> suffix (tl s) t"
  by (cases s) (auto dest: suffix_ConsD)

text \<open>One iteration: a return, the end of the loop, or the next iteration after a colon.\<close>

definition put_group :: "u8 list \<Rightarrow> nat \<Rightarrow> int \<Rightarrow> bool \<Rightarrow> u8 list" where
  "put_group buf off w st =
     (if st then buf[off := word_of_int (drop_bit 8 (w AND 0xff00)),
                     off + 1 := word_of_int (w AND 0x00ff)] else buf)"

lemma length_put_group [simp]: "length (put_group buf off w st) = length buf"
  by (simp add: put_group_def)

lemma put_group_stores:
  "off + 1 < length buf \<Longrightarrow>
    (if st then andthen (store buf off (word_of_int (drop_bit 8 (w AND 0xff00))))
                  (\<lambda>buf. store buf (off + 1) (word_of_int (w AND 0x00ff)))
     else Inr buf) = Inr (put_group buf off w st)"
  by (simp add: put_group_def)

lemma parseIPv6_loop_step:
  assumes "strtol 16 ip = (w, r)" "g < 8" "off + 1 < length buf"
  shows "parseIPv6_loop ip stop c g off mark buf =
    (let st = (r \<noteq> ip \<and> deref r \<noteq> CHR ''.''); buf' = put_group buf off w st;
         off' = (if st then off + 2 else off); g' = (if st then g + 1 else g)
     in if w < 0 \<or> 0xffff < w then Inr (Inl buf)
        else if deref r \<noteq> CHR '':'' then Inr (Inr (ip, r, c, g', off', mark, buf'))
        else if char_at r 1 = CHR '':''
        then (if c then Inr (Inl buf') else parseIPv6_loop (tl r) r True g' off' off' buf')
        else parseIPv6_loop (tl r) r c g' off' mark buf')"
  by (subst parseIPv6_loop.simps)
    (simp only: assms(1,2) Let_def prod.case put_group_stores [OF assms(3)] sum.case not_True_eq_False if_False)

lemma parseIPv6_loop_cases:
  assumes "g < 8" "off + 1 < length buf"
  obtains (bad) buf' where "parseIPv6_loop ip stop c g off mark buf = Inr (Inl buf')"
      "length buf' = length buf"
  | (stop) w r st where "strtol 16 ip = (w, r)" "st = (r \<noteq> ip \<and> deref r \<noteq> CHR ''.'')"
      "deref r \<noteq> CHR '':''"
      "parseIPv6_loop ip stop c g off mark buf = Inr (Inr (ip, r, c, if st then g + 1 else g,
         if st then off + 2 else off, mark, put_group buf off w st))"
  | (colon) w r st c2 mark2 where "strtol 16 ip = (w, r)" "st = (r \<noteq> ip \<and> deref r \<noteq> CHR ''.'')"
      "deref r = CHR '':''" "r \<noteq> []"
      "mark2 = mark \<or> mark2 = (if st then off + 2 else off)"
      "parseIPv6_loop ip stop c g off mark buf =
         parseIPv6_loop (tl r) r c2 (if st then g + 1 else g) (if st then off + 2 else off) mark2
           (put_group buf off w st)"
proof -
  obtain w r where wr: "strtol 16 ip = (w, r)" by fastforce
  note step = parseIPv6_loop_step [OF wr assms, of stop c mark]
  let ?st = "r \<noteq> ip \<and> deref r \<noteq> CHR ''.''"
  show thesis
  proof (cases "w < 0 \<or> 0xffff < w")
    case True
    then show thesis using step by (intro bad [of buf]) (simp_all add: Let_def)
  next
    case w: False
    show thesis
    proof (cases "deref r = CHR '':''")
      case False
      then show thesis using step w by (intro stop [OF wr refl False]) (simp add: Let_def)
    next
      case True
      then have ne: "r \<noteq> []" by auto
      show thesis
      proof (cases "char_at r 1 = CHR '':''")
        case dbl: True
        show thesis
        proof (cases c)
          case True
          then show thesis using step w dbl \<open>deref r = CHR '':''\<close>
            by (intro bad [of "put_group buf off w ?st"]) (simp_all add: Let_def)
        next
          case False
          then show thesis using step w dbl \<open>deref r = CHR '':''\<close>
            by (intro colon [OF wr refl True ne, of "if ?st then off + 2 else off" True])
              (simp_all add: Let_def)
        qed
      next
        case False
        then show thesis using step w True
          by (intro colon [OF wr refl True ne, of mark c]) (simp_all add: Let_def)
      qed
    qed
  qed
qed

definition scan_result ::
    "string \<Rightarrow> string \<Rightarrow> nat \<Rightarrow> fault + u8 list + string \<times> string \<times> bool \<times> nat \<times> nat \<times> nat \<times> u8 list
      \<Rightarrow> bool" where
  "scan_result start ip g res =
     (case res of
        Inl e \<Rightarrow> False
      | Inr (Inl buf) \<Rightarrow> length buf = 16
      | Inr (Inr (ip', stop', c', g', off', mark', buf')) \<Rightarrow>
          scan_ok start ip' stop' g' off' mark' buf' \<and>
          (deref stop' = CHR ''.'' \<longrightarrow> g' \<le> g + count_list ip CHR '':'' \<and> suffix stop' ip'))"

lemma parseIPv6_loop_ok:
  assumes "scan_ok start ip stop g off mark buf" and "deref stop \<noteq> CHR ''.''"
  shows "scan_result start ip g (parseIPv6_loop ip stop c g off mark buf)"
  using assms
proof (induction "length ip" arbitrary: ip stop c g off mark buf rule: less_induct)
  case less
  show ?case
  proof (cases "g < 8")
    case False
    with less.prems show ?thesis by (subst parseIPv6_loop.simps) (simp add: scan_result_def)
  next
    case True
    then have bounds: "off + 1 < length buf" using less.prems(1) by (simp add: scan_ok_def)
    from True bounds show ?thesis
    proof (cases rule: parseIPv6_loop_cases [where ip = ip and stop = stop and c = c and mark = mark])
      case (bad buf')
      then show ?thesis using less.prems(1) by (simp add: scan_result_def scan_ok_def)
    next
      case (stop w r st)
      have "suffix r ip" using strtol_suffixD [OF stop(1)] .
      with stop less.prems True show ?thesis
        by (auto simp: scan_ok_def scan_result_def intro: suffix_order.trans)
    next
      case (colon w r st c2 mark2)
      have r: "suffix r ip" using strtol_suffixD [OF colon(1)] .
      then have lt: "length (tl r) < length ip"
        using suffix_length_le [OF r] colon(4) by (cases r) auto
      have so: "scan_ok start (tl r) r (if st then g + 1 else g) (if st then off + 2 else off) mark2
         (put_group buf off w st)"
        using less.prems(1) True r colon(5) by (auto simp: scan_ok_def intro: suffix_order.trans suffix_tlI)
      have "count_list r CHR '':'' = Suc (count_list (tl r) CHR '':'')"
        using colon(3,4) by (rule count_list_tl)
      with count_list_suffix [OF r, of "CHR '':''"]
      have cnt: "Suc (count_list (tl r) CHR '':'') \<le> count_list ip CHR '':''" by simp
      have "scan_result start (tl r) (if st then g + 1 else g) (parseIPv6_loop ip stop c g off mark buf)"
        unfolding colon(6) using less.hyps [OF lt so] colon(3) by simp
      then show ?thesis using cnt
        by (auto simp: scan_result_def split: sum.splits prod.splits if_splits)
    qed
  qed
qed

lemma parse_octet_suffix: "parse_octet ip dot = Some (v, r) \<Longrightarrow> suffix r ip"
  by (auto simp: parse_octet_def split: prod.splits if_splits dest: strtol_suffixD)

lemma suffix_tlD: "suffix r (tl p) \<Longrightarrow> suffix r p"
  by (cases p) (auto intro: suffix_ConsI)

lemma parse_dotted_suffix: "parse_dotted ip = Some (a, b, c, d, r) \<Longrightarrow> suffix r ip"
  by (auto simp: parse_dotted_def split: option.splits
      dest!: parse_octet_suffix suffix_tlD) (meson suffix_order.trans)

lemma buf_move_set:
  assumes "length buf = 16" "mark \<le> off" "off + d \<le> 16"
  shows "buf_memmove buf (16 - int d - int off + int mark) (int mark) (int off - int mark) =
      Inr (take (16 - d - off + mark) buf @ take (off - mark) (drop mark buf) @ drop (16 - d) buf)"
    and "length (b :: 'a list) = 16 \<Longrightarrow> buf_memset b (int mark) v (16 - int d - int off) =
      Inr (take mark b @ replicate (16 - d - off) v @ drop (16 - d - off + mark) b)"
proof -
  have 1: "16 - int d - int off = int (16 - d - off)" "int off - int mark = int (off - mark)"
    "int (16 - d - off) + int mark = int (16 - d - off + mark)"
    "int (16 - d - off + mark) + int (off - mark) = int (16 - d)"
    "int mark + int (16 - d - off) = int (16 - d - off + mark)"
    "int mark + int (off - mark) = int off"
    using assms by simp_all
  show "buf_memmove buf (16 - int d - int off + int mark) (int mark) (int off - int mark) =
      Inr (take (16 - d - off + mark) buf @ take (off - mark) (drop mark buf) @ drop (16 - d) buf)"
    using assms unfolding buf_memmove_def 1 by (simp only: nat_int) simp
  assume "length b = 16"
  then show "buf_memset b (int mark) v (16 - int d - int off) =
      Inr (take mark b @ replicate (16 - d - off) v @ drop (16 - d - off + mark) b)"
    using assms unfolding buf_memset_def 1 by (simp only: nat_int) simp
qed

lemma pointer_diff_le:
  assumes "suffix p s"
  shows "length s - length p + (if deref p = CHR '']'' then 1 else 0) \<le> length s"
    and "deref p = CHR '']'' \<Longrightarrow> Suc (length s - length p) \<le> length s"
  using suffix_length_le [OF assms] by (cases p; simp)+

text \<open>The buffer after the two calls: the groups before the mark, zeros, the groups after it, and
  the octets of the dotted tail.\<close>

definition expand_zeros :: "u8 list \<Rightarrow> nat \<Rightarrow> nat \<Rightarrow> nat \<Rightarrow> u8 list" where
  "expand_zeros buf mark off d =
     take mark buf @ replicate (16 - d - off) 0 @ take (off - mark) (drop mark buf) @ drop (16 - d) buf"

definition strip_tag :: "string \<Rightarrow> string" where
  "strip_tag s = (let ip = (if deref s = CHR ''['' then tl s else s)
     in if TextInsensitiveCompareN (Some ip) (Some ''IPv6:'') 5 = 0 then drop 5 ip else ip)"

lemma strip_tag_suffix: "suffix (strip_tag s) s"
  by (auto simp: strip_tag_def Let_def intro: suffix_tlI suffix_drop suffix_order.trans)

lemma length_expand_zeros [simp]:
  "length buf = 16 \<Longrightarrow> mark \<le> off \<Longrightarrow> off + d \<le> 16 \<Longrightarrow> length (expand_zeros buf mark off d) = 16"
  by (auto simp: expand_zeros_def min_def)

lemma parseIPv6_body_eq:
  assumes "parseIPv6_loop (strip_tag s) [] False 0 0 0 buf =
      Inr (Inr (ip, stop, c, g, off, mark, buf1))"
    and ml: "length buf1 = 16" "mark \<le> off"
    and d: "d = (if deref stop = CHR ''.'' then 4 else 0)" and room: "off + d \<le> 16"
  shows "parseIPv6_body s buf =
      (if deref stop = CHR ''.'' then
         (if c \<and> 4 < g then Inr (0, expand_zeros buf1 mark off d)
          else if \<not> c \<and> 6 < g then Inr (0, expand_zeros buf1 mark off d)
          else
            case parse_dotted ip of
              None \<Rightarrow> Inr (0, expand_zeros buf1 mark off d)
            | Some (v, w, x, y, ip) \<Rightarrow>
                Inr (length s - length ip + (if deref ip = CHR '']'' then 1 else 0),
                     (expand_zeros buf1 mark off d)
                       [12 := word_of_int v, 13 := word_of_int w, 14 := word_of_int x,
                        15 := word_of_int y]))
       else if \<not> c \<and> g = 8 \<or> c \<and> g \<le> 7
       then Inr (length s - length stop + (if deref stop = CHR '']'' then 1 else 0),
                 expand_zeros buf1 mark off d)
       else Inr (0, expand_zeros buf1 mark off d))"
proof -
  define b2 where "b2 = take (16 - d - off + mark) buf1 @ take (off - mark) (drop mark buf1)
    @ drop (16 - d) buf1"
  have l2: "length b2 = 16" using ml room by (auto simp: b2_def min_def)
  have dd: "(if deref stop = CHR ''.'' then 4 else (0::int)) = int d" by (simp add: d)
  have "take mark b2 = take mark buf1"
    using ml room by (simp add: b2_def take_add)
  moreover have "drop (16 - d - off + mark) b2 =
      take (off - mark) (drop mark buf1) @ drop (16 - d) buf1"
    using ml room by (simp add: b2_def)
  ultimately have b3: "take mark b2 @ replicate (16 - d - off) 0 @ drop (16 - d - off + mark) b2
      = expand_zeros buf1 mark off d"
    by (simp add: expand_zeros_def)
  show ?thesis
    unfolding parseIPv6_body_def Let_def strip_tag_def [unfolded Let_def, symmetric] assms(1)
    by (simp only: prod.case dd buf_move_set(1) [OF ml room] sum.case
        b2_def [symmetric] buf_move_set(2) [OF ml room l2] b3)
      (use ml room in \<open>simp split: option.split\<close>)
qed

lemma parseIPv6_body_ok:
  assumes len: "length buf = 16" and safe: "CHR ''.'' \<notin> set s \<or> count_list s CHR '':'' < 7"
  shows "\<exists>n buf'. parseIPv6_body s buf = Inr (n, buf') \<and> n \<le> length s \<and> length buf' = 16"
proof -
  have so0: "scan_ok s (strip_tag s) [] 0 0 0 buf"
    using strip_tag_suffix len by (simp add: scan_ok_def)
  note res = parseIPv6_loop_ok [OF so0, simplified, of False, unfolded scan_result_def]
  consider (early) b where "parseIPv6_loop (strip_tag s) [] False 0 0 0 buf = Inr (Inl b)" "length b = 16"
    | (ended) ip stop c g off mark buf1 where
        "parseIPv6_loop (strip_tag s) [] False 0 0 0 buf = Inr (Inr (ip, stop, c, g, off, mark, buf1))"
    using res by (auto split: sum.splits prod.splits)
  then show ?thesis
  proof cases
    case early
    then show ?thesis by (simp add: parseIPv6_body_def Let_def strip_tag_def)
  next
    case (ended ip stop c g off mark buf1)
    note ok = res [unfolded ended, simplified]
    from ok have so: "scan_ok s ip stop g off mark buf1" by simp
    define d :: nat where "d = (if deref stop = CHR ''.'' then 4 else 0)"
    have room: "off + d \<le> 16"
    proof (cases "deref stop = CHR ''.''")
      case True
      then have "CHR ''.'' \<in> set stop" using deref_in_set [of stop] by simp
      then have "CHR ''.'' \<in> set s" using so by (auto simp: scan_ok_def suffix_def)
      then have "count_list s CHR '':'' < 7" using safe by simp
      moreover have "g \<le> count_list (strip_tag s) CHR '':''" using ok True by simp
      ultimately have "g < 7"
        using count_list_suffix [OF strip_tag_suffix, of s "CHR '':''"] by simp
      then show ?thesis using so by (simp add: scan_ok_def d_def)
    next
      case False
      then show ?thesis using so by (simp add: scan_ok_def d_def)
    qed
    have ml: "length buf1 = 16" "mark \<le> off" and suf: "suffix ip s" "suffix stop s"
      using so by (simp_all add: scan_ok_def)
    show ?thesis
      unfolding parseIPv6_body_eq [OF ended ml d_def room]
      using suf ml room
      by (auto split: option.splits simp: pointer_diff_le [simplified]
          dest!: parse_dotted_suffix dest: pointer_diff_le(2) [OF suffix_order.trans])
  qed
qed

text \<open>C2: \<open>parseIPv6\<close> stays within the 16 octets of the caller's buffer, and within the string, for
  every string that has no dotted tail or fewer than seven colons: every octet stored and the calls to
  \<open>memmove\<close> and \<open>memset\<close> are in bounds, the buffer keeps its size and the length returned is at most that of the
  string.\<close>

theorem parseIPv6_safe:
  assumes "length buf = 16" and "CHR ''.'' \<notin> set s \<or> count_list s CHR '':'' < 7"
  shows "\<exists>n buf'. parseIPv6 (Some s) (Some buf) = Inr (n, Some buf') \<and> n \<le> length s
    \<and> length buf' = 16"
  using parseIPv6_body_ok [OF assms] by (auto simp: parseIPv6_def)

theorem parseIPv6_safe_witness:
  "\<exists>n buf'. parseIPv6 (Some ''::ffff:192.0.2.1'') (Some (replicate 16 0)) = Inr (n, Some buf')
    \<and> n \<le> 16 \<and> length buf' = 16"
  using parseIPv6_safe [of "replicate 16 0" "''::ffff:192.0.2.1''"] by (simp add: numeral_eq_Suc)

text \<open>With seven groups before a dotted tail the check of the number of groups comes too late:
  \<open>memset\<close> has already been called with the count \<open>16 - 4 - 14\<close>.\<close>

theorem parseIPv6_overrun:
  "parseIPv6 (Some ''1:2:3:4:5:6:7:1.2.3.4'') (Some (replicate 16 0)) = Inl OutOfBounds"
  by code_simp

end
