(* ===== verification/NetFormat.thy ===== *)
theory NetFormat
  imports NetParse
begin

text \<open>
  What \<^verbatim>\<open>formatIP\<close> writes, as a function of the eight words of the address and of the mode, and the
  round trip through \<^verbatim>\<open>parseIPv6\<close>. \<open>emit\<close> is the full form, \<open>emit_compact\<close> the form with
  a compressed run of zeros; both return the word index and the count of leading zeros the C loop
  ends with, from which the dotted tail is decided.
\<close>

section \<open>The text of an address\<close>

fun emit :: "nat \<Rightarrow> nat \<Rightarrow> nat \<Rightarrow> nat list \<Rightarrow> nat \<times> nat \<times> string" where
  "emit m k z [] = (k, z, [])"
| "emit m k z (w # ws) =
     (let z = (if w = 0 \<and> k = z then z + 1 else z) in
      if z = 6 \<and> k = 6 then (k, z, [])
      else let t = fmt_word m w @ (if k < 7 then '':'' else []) in
        if z = 5 \<and> k = 5 \<and> w = 0xFFFF then (k, z, t)
        else case emit m (k + 1) z ws of (k2, z2, u) \<Rightarrow> (k2, z2, t @ u))"

fun emit_compact :: "nat \<Rightarrow> nat list \<Rightarrow> nat \<times> nat \<times> string" where
  "emit_compact k [] = (k, 0, [])"
| "emit_compact k (w # ws) =
     (if w \<noteq> 0 then
        (case emit_compact (k + 1) ws of
           (k2, z2, u) \<Rightarrow> (k2, z2, fmt_word 1 w @ (if k < 7 then '':'' else []) @ u))
      else
        let n = length (takeWhile (\<lambda>x. x = 0) (w # ws));
            rest = dropWhile (\<lambda>x. x = 0) ws;
            z = (if k = 0 then n else 0);
            sep = (if k = 0 then ''::'' else '':'')
        in if k = 7 then (k, z, sep)
           else if rest = [] then (9, z, sep @ ''0'')
           else case emit 1 (k + n) z rest of (k2, z2, u) \<Rightarrow> (k2, z2, sep @ u))"

definition ip_words :: "u8 list \<Rightarrow> nat \<Rightarrow> nat list" where
  "ip_words ip k = map (\<lambda>j. ip_word ip (2 * j)) [k..<8]"

definition has_dotted :: "nat \<Rightarrow> nat \<Rightarrow> bool" where
  "has_dotted k z \<longleftrightarrow> z = 6 \<and> k = 6 \<or> z = 5 \<and> k = 5"

definition ipv6_text :: "nat \<Rightarrow> u8 list \<Rightarrow> string" where
  "ipv6_text m ip =
     (case (if m = 1 then emit_compact 0 (ip_words ip 0) else emit m 0 0 (ip_words ip 0)) of
        (k, z, u) \<Rightarrow> if has_dotted k z then u @ octets_str ip 12 else u)"

section \<open>The loops of formatIP write that text\<close>

lemma ip_words_Cons: "k < 8 \<Longrightarrow> ip_words ip k = ip_word ip (2 * k) # ip_words ip (Suc k)"
  by (simp add: ip_words_def upt_conv_Cons)

lemma ip_words_8 [simp]: "ip_words ip 8 = []"
  by (simp add: ip_words_def)

lemma length_ip_words [simp]: "length (ip_words ip k) = 8 - k"
  by (simp add: ip_words_def)

lemma ip_word_less: "ip_word ip i < 65536"
  using unsigned_less [of "NET_GET_SHORT (drop i ip)"] by (simp add: ip_word_def)

lemma ip_words_less: "w \<in> set (ip_words ip k) \<Longrightarrow> w < 65536"
  by (auto simp: ip_words_def ip_word_less)

lemma length_num_str:
  "n < b ^ Suc k \<Longrightarrow> 2 \<le> b \<Longrightarrow> length (num_str b n) \<le> Suc k"
proof (induction k arbitrary: n)
  case (Suc k)
  then have "n div b < b ^ Suc k" by (simp add: less_mult_imp_div_less mult.commute)
  with Suc have "length (num_str b (n div b)) \<le> Suc k" by simp
  then show ?case by (subst num_str.simps) simp
qed (subst num_str.simps, simp)

lemma length_hex_str: "w < 65536 \<Longrightarrow> length (hex_str w) \<le> 4"
  using length_num_str [of w 16 3] by simp

lemma length_fmt_word: "w < 65536 \<Longrightarrow> length (fmt_word m w) \<le> 4"
  using length_hex_str [of w] by (simp add: fmt_word_def hex4_str_def)

text \<open>One write of \<open>formatIP_loop\<close> into a buffer that has room.\<close>

definition fits :: "string \<Rightarrow> string \<Rightarrow> nat \<Rightarrow> nat \<Rightarrow> bool" where
  "fits out junk n sz \<longleftrightarrow> length out + n < sz \<and> sz \<le> length out + length junk"

lemma write_colon:
  assumes "fits out junk (length str + 1) sz"
  shows "\<exists>junk'. (snprintf_at (out @ junk) (length out) (sz - length out) str)
      [length out + length str := CHR '':''] = (out @ str @ '':'') @ junk'
    \<and> length junk = length str + 1 + length junk'"
proof -
  have "snprintf_at (out @ junk) (length out) (sz - length out) str =
      (out @ str) @ NUL # drop (Suc (length str)) junk"
    using assms by (intro snprintf_at_append) (auto simp: fits_def)
  then show ?thesis using assms
    by (auto simp: fits_def list_update_append intro!: exI [of _ "drop (Suc (length str)) junk"])
qed

lemma write_str:
  assumes "fits out junk (length str) sz"
  shows "\<exists>junk'. snprintf_at (out @ junk) (length out) (sz - length out) str = (out @ str) @ junk'
    \<and> length junk = length str + length junk' \<and> junk' \<noteq> [] \<and> hd junk' = NUL"
  using assms by (intro exI [of _ "NUL # drop (Suc (length str)) junk"])
    (auto simp: fits_def snprintf_at_append)


lemma formatIP_zeros_off:
  "formatIP_zeros ip sz i z False len buf =
    (False, i, if ip_word ip i = 0 \<and> i div 2 = z then z + 1 else z, ip_word ip i, False, len, buf)"
  by (simp add: formatIP_zeros_def Let_def)

lemma formatIP_loop_end [simp]:
  "16 \<le> i \<Longrightarrow> formatIP_loop ip m sz i z c len buf = (i, z, len, buf)"
  by (subst formatIP_loop.simps) simp

lemma fits_mono: "fits out junk n sz \<Longrightarrow> k \<le> n \<Longrightarrow> fits out junk k sz"
  by (simp add: fits_def)

lemma fits_append:
  "fits out junk n sz \<Longrightarrow> length junk = length t + length junk' \<Longrightarrow> length t + k \<le> n
    \<Longrightarrow> fits (out @ t) junk' k sz"
  by (auto simp: fits_def)

lemma write_word:
  fixes k :: nat
  assumes "k < 8" "w < 65536" "fits out junk n sz" "(if k < 7 then 5 else 4) \<le> n"
  obtains j1 where
    "(if 2 * k < 14 \<and> length out + length (fmt_word m w) + 1 < sz
      then (snprintf_at (out @ junk) (length out) (sz - length out) (fmt_word m w))
             [length out + length (fmt_word m w) := CHR '':'']
      else snprintf_at (out @ junk) (length out) (sz - length out) (fmt_word m w)) =
     (out @ (fmt_word m w @ (if k < 7 then '':'' else []))) @ j1"
    "(if 2 * k < 14 \<and> length out + length (fmt_word m w) + 1 < sz
      then length out + length (fmt_word m w) + 1 else length out + length (fmt_word m w)) =
     length (out @ (fmt_word m w @ (if k < 7 then '':'' else [])))"
    "\<not> sz - length out \<le> length (fmt_word m w)"
    "length junk = length (fmt_word m w @ (if k < 7 then '':'' else [])) + length j1"
    "length (fmt_word m w @ (if k < 7 then '':'' else [])) \<le> (if k < 7 then 5 else 4)"
proof -
  have lw: "length (fmt_word m w) \<le> 4" by (simp add: length_fmt_word assms(2))
  show thesis
  proof (cases "k < 7")
    case True
    have "fits out junk (length (fmt_word m w) + 1) sz"
      using lw True assms(4) by (intro fits_mono [OF assms(3)]) simp
    moreover from this have "length out + length (fmt_word m w) + 1 < sz" by (simp add: fits_def)
    ultimately show thesis using write_colon [of out junk "fmt_word m w" sz] that True lw by auto
  next
    case False
    have "fits out junk (length (fmt_word m w)) sz"
      using lw False assms(4) by (intro fits_mono [OF assms(3)]) simp
    moreover from this have "length out + length (fmt_word m w) < sz" by (simp add: fits_def)
    ultimately show thesis using write_str [of out junk "fmt_word m w" sz] that False lw by auto
  qed
qed

lemma formatIP_loop_emit:
  assumes "emit m k z (ip_words ip k) = (k', z', u)" "k \<le> 8" "fits out junk (5 * (8 - k) - 1) sz"
  shows "\<exists>junk'. formatIP_loop ip m sz (2 * k) z False (length out) (out @ junk)
      = (2 * k', z', length (out @ u), (out @ u) @ junk') \<and> length junk = length u + length junk'"
  using assms
proof (induction "8 - k" arbitrary: k z out junk u k' z')
  case 0
  then show ?case by auto
next
  case (Suc n)
  then have k: "k < 8" by simp
  define w where "w = ip_word ip (2 * k)"
  define z1 where "z1 = (if w = 0 \<and> k = z then z + 1 else z)"
  define t where "t = fmt_word m w @ (if k < 7 then '':'' else [])"
  have d: "2 * k div 2 = k" "2 * k + 2 = 2 * Suc k" by simp_all
  note loop = formatIP_loop.simps [of ip m sz "2 * k" z False "length out" "out @ junk",
      unfolded formatIP_zeros_off prod.case Let_def d, folded w_def, folded z1_def]
  obtain k2 z2 u2 where e2: "emit m (Suc k) z1 (ip_words ip (Suc k)) = (k2, z2, u2)"
    by (metis prod_cases3)
  have e: "(if z1 = 6 \<and> k = 6 then (k, z1, [])
      else if z1 = 5 \<and> k = 5 \<and> w = 0xFFFF then (k, z1, t) else (k2, z2, t @ u2)) = (k', z', u)"
    using Suc.prems(1)
    unfolding ip_words_Cons [OF k] emit.simps Let_def w_def [symmetric] z1_def [symmetric]
      t_def [symmetric]
    unfolding Suc_eq_plus1 [symmetric] e2 prod.case .
  show ?case
  proof (cases "z1 = 6 \<and> k = 6")
    case True
    with loop e k show ?thesis by auto
  next
    case False
    have "w < 65536" "(if k < 7 then 5 else 4) \<le> 5 * (8 - k) - 1"
      using k by (simp add: w_def ip_word_less, arith)
    from write_word [OF k this(1) Suc.prems(3) this(2), of m, folded t_def] obtain j1 where j1:
      "(if 2 * k < 14 \<and> length out + length (fmt_word m w) + 1 < sz
      then (snprintf_at (out @ junk) (length out) (sz - length out) (fmt_word m w))
             [length out + length (fmt_word m w) := CHR '':'']
      else snprintf_at (out @ junk) (length out) (sz - length out) (fmt_word m w)) = (out @ t) @ j1"
      "(if 2 * k < 14 \<and> length out + length (fmt_word m w) + 1 < sz
      then length out + length (fmt_word m w) + 1 else length out + length (fmt_word m w)) =
       length (out @ t)"
      "\<not> sz - length out \<le> length (fmt_word m w)"
      "length junk = length t + length j1" "length t \<le> (if k < 7 then 5 else 4)" by blast
    have "fits (out @ t) j1 (5 * (8 - Suc k) - 1) sz"
      using k j1(5) by (intro fits_append [OF Suc.prems(3) j1(4)]) arith
    then have "\<exists>junk'. formatIP_loop ip m sz (2 * Suc k) z1 False (length (out @ t)) ((out @ t) @ j1)
      = (2 * k2, z2, length ((out @ t) @ u2), ((out @ t) @ u2) @ junk')
        \<and> length j1 = length u2 + length junk'"
      using Suc.hyps(2) k by (intro Suc.hyps(1) [OF _ e2]) auto
    then show ?thesis unfolding loop j1(1,2) using False e k j1(3,4)
      by (auto split: if_splits)
  qed
qed

lemma skip_zero_words_eq:
  assumes "z \<le> k" "k \<le> 8" "n = length (takeWhile (\<lambda>x. x = 0) (ip_words ip k))"
  shows "skip_zero_words ip (2 * k) z 0 =
    (2 * (k + n), if z = k then z + n else z, if k + n < 8 then ip_word ip (2 * (k + n)) else 0)"
  using assms
proof (induction "8 - k" arbitrary: k z n)
  case 0
  then show ?case by (subst skip_zero_words.simps) simp
next
  case (Suc r)
  then have k: "k < 8" by simp
  have d: "2 * k div 2 = k" "2 * k + 2 = 2 * Suc k" by simp_all
  show ?case
  proof (cases "ip_word ip (2 * k) = 0")
    case True
    define n1 where "n1 = length (takeWhile (\<lambda>x. x = 0) (ip_words ip (Suc k)))"
    have n: "n = Suc n1" using Suc.prems(3) True by (simp add: ip_words_Cons k n1_def)
    have "skip_zero_words ip (2 * k) z 0 =
        skip_zero_words ip (2 * Suc k) (if k = z then z + 1 else z) 0"
      by (subst skip_zero_words.simps) (simp add: True Let_def k)
    also have "\<dots> = (2 * (Suc k + n1),
        if (if k = z then z + 1 else z) = Suc k then (if k = z then z + 1 else z) + n1
        else (if k = z then z + 1 else z),
        if Suc k + n1 < 8 then ip_word ip (2 * (Suc k + n1)) else 0)"
      using Suc.hyps(2) Suc.prems k by (intro Suc.hyps(1)) (auto simp: n1_def)
    finally show ?thesis using Suc.prems(1) by (auto simp: n)
  next
    case False
    then show ?thesis using Suc.prems(3) k
      by (subst skip_zero_words.simps) (simp add: ip_words_Cons Let_def)
  qed
qed

lemma drop_ip_words: "drop n (ip_words ip k) = ip_words ip (k + n)"
  by (simp add: ip_words_def drop_map drop_upt)

lemma formatIP_loop_word_on:
  "k < 8 \<Longrightarrow> formatIP_zeros ip sz (2 * k) 0 True len buf = (False, 2 * k, 0, w, c, len, buf) \<Longrightarrow>
   formatIP_loop ip m sz (2 * k) 0 True len buf =
     (let str = fmt_word m w; buf = snprintf_at buf len (sz - len) str
      in if sz - len \<le> length str then (2 * k, 0, len, buf)
         else
           let len = len + length str;
               colon = (2 * k < 14 \<and> len + 1 < sz);
               buf = (if colon then buf[len := CHR '':''] else buf);
               len = (if colon then len + 1 else len)
           in formatIP_loop ip m sz (2 * Suc k) 0 c len buf)"
  by (subst formatIP_loop.simps) (simp add: Let_def)

lemma formatIP_loop_cong:
  assumes "i < 16" "j < 16"
    "formatIP_zeros ip sz i z c len buf = formatIP_zeros ip sz j z2 c2 len2 buf2"
  shows "formatIP_loop ip m sz i z c len buf = formatIP_loop ip m sz j z2 c2 len2 buf2"
  using assms by (subst (1 2) formatIP_loop.simps) simp

text \<open>The pass that meets the first zero word while compressing.\<close>

lemma formatIP_zeros_run:
  assumes k: "k < 7" "ip_word ip (2 * k) = 0" and sep: "sep = (if k = 0 then ''::'' else '':'')"
    and f: "fits out junk (length sep) sz"
    and n: "n = length (takeWhile (\<lambda>x. x = 0) (ip_words ip k))"
  shows "\<exists>j1. formatIP_zeros ip sz (2 * k) 0 True (length out) (out @ junk) =
     (False, 2 * (k + n), if k = 0 then n else 0,
      if k + n < 8 then ip_word ip (2 * (k + n)) else 0, False,
      length (out @ sep), (out @ sep) @ j1) \<and> length junk = length sep + length j1"
proof -
  define n1 where "n1 = length (takeWhile (\<lambda>x. x = 0) (ip_words ip (Suc k)))"
  have n: "n = Suc n1" using n k by (simp add: ip_words_Cons n1_def)
  from write_str [OF f] obtain j1 where j1:
    "snprintf_at (out @ junk) (length out) (sz - length out) sep = (out @ sep) @ j1"
    "length junk = length sep + length j1" by blast
  have sk: "skip_zero_words ip (2 * Suc k) (if k = 0 then 1 else 0) 0 =
      (2 * (Suc k + n1), if (if k = 0 then 1 else 0) = Suc k then (if k = 0 then 1 else 0) + n1
       else (if k = 0 then 1 else 0),
       if Suc k + n1 < 8 then ip_word ip (2 * (Suc k + n1)) else 0)"
    using k by (intro skip_zero_words_eq) (auto simp: n1_def)
  have nf: "\<not> sz - length out \<le> length sep" using f unfolding fits_def by linarith
  show ?thesis
    using sk j1 k nf unfolding formatIP_zeros_def
    by (cases "k = 0") (auto simp: Let_def n sep simp flip: numeral_2_eq_2)
qed

lemma takeWhile_length_le: "length (takeWhile P xs) = length xs \<longleftrightarrow> dropWhile P xs = []"
proof -
  have "length xs = length (takeWhile P xs) + length (dropWhile P xs)"
    by (metis length_append takeWhile_dropWhile_id)
  then show ?thesis by auto
qed

lemma formatIP_loop_compact:
  assumes "emit_compact k (ip_words ip k) = (k', z', u)" "k \<le> 8" "fits out junk (5 * (8 - k) - 1) sz"
  shows "\<exists>junk'. formatIP_loop ip 1 sz (2 * k) 0 True (length out) (out @ junk)
      = (2 * k', z', length (out @ u), (out @ u) @ junk') \<and> length junk = length u + length junk'"
  using assms
proof (induction "8 - k" arbitrary: k out junk u k' z')
  case 0
  then show ?case by auto
next
  case (Suc n)
  then have k: "k < 8" by simp
  define w where "w = ip_word ip (2 * k)"
  note cons = ip_words_Cons [OF k, of ip, folded w_def]
  show ?case
  proof (cases "w = 0")
    case False
    define t where "t = fmt_word 1 w @ (if k < 7 then '':'' else [])"
    obtain k2 z2 u2 where e2: "emit_compact (Suc k) (ip_words ip (Suc k)) = (k2, z2, u2)"
      by (metis prod_cases3)
    have e: "k' = k2" "z' = z2" "u = t @ u2"
      using Suc.prems(1) e2 False by (auto simp: cons t_def)
    have d: "2 * k + 2 = 2 * Suc k" by simp
    have "formatIP_zeros ip sz (2 * k) 0 True (length out) (out @ junk) =
        (False, 2 * k, 0, w, True, length out, out @ junk)"
      using False by (simp add: formatIP_zeros_def w_def)
    note loop = formatIP_loop_word_on [OF k this, unfolded Let_def]
    have "w < 65536" "(if k < 7 then 5 else 4) \<le> 5 * (8 - k) - 1"
      using k by (simp add: w_def ip_word_less, arith)
    from write_word [OF k this(1) Suc.prems(3) this(2), of 1, folded t_def] obtain j1 where j1:
      "(if 2 * k < 14 \<and> length out + length (fmt_word 1 w) + 1 < sz
      then (snprintf_at (out @ junk) (length out) (sz - length out) (fmt_word 1 w))
             [length out + length (fmt_word 1 w) := CHR '':'']
      else snprintf_at (out @ junk) (length out) (sz - length out) (fmt_word 1 w)) = (out @ t) @ j1"
      "(if 2 * k < 14 \<and> length out + length (fmt_word 1 w) + 1 < sz
      then length out + length (fmt_word 1 w) + 1 else length out + length (fmt_word 1 w)) =
       length (out @ t)"
      "\<not> sz - length out \<le> length (fmt_word 1 w)"
      "length junk = length t + length j1" "length t \<le> (if k < 7 then 5 else 4)" by blast
    have "fits (out @ t) j1 (5 * (8 - Suc k) - 1) sz"
      using k j1(5) by (intro fits_append [OF Suc.prems(3) j1(4)]) arith
    then have "\<exists>junk'. formatIP_loop ip 1 sz (2 * Suc k) 0 True (length (out @ t)) ((out @ t) @ j1)
      = (2 * k2, z2, length ((out @ t) @ u2), ((out @ t) @ u2) @ junk')
        \<and> length j1 = length u2 + length junk'"
      using Suc.hyps(2) k by (intro Suc.hyps(1) [OF _ e2]) auto
    then show ?thesis unfolding loop j1(1,2) using e j1(3,4)
      by (auto split: if_splits)
  next
    case True
    define nz where "nz = length (takeWhile (\<lambda>x. x = 0) (ip_words ip k))"
    define rest where "rest = dropWhile (\<lambda>x. x = 0) (ip_words ip (Suc k))"
    define sep where "sep = (if k = 0 then ''::'' else '':'')"
    define z where "z = (if k = 0 then nz else 0)"
    have c0: "ip_words ip k = 0 # ip_words ip (Suc k)" using cons True by simp
    have nz: "length (takeWhile (\<lambda>x. x = 0) (0 # ip_words ip (Suc k))) = nz"
      by (simp only: nz_def c0)
    have e: "(if k = 7 then (k, z, sep)
           else if rest = [] then (9, z, sep @ ''0'')
           else case emit 1 (k + nz) z rest of (k2, z2, u) \<Rightarrow> (k2, z2, sep @ u)) = (k', z', u)"
      using Suc.prems(1)
      unfolding c0 emit_compact.simps Let_def nz rest_def [symmetric] sep_def [symmetric]
        z_def [symmetric]
      by simp
    have ls: "length sep \<le> 2" "k = 7 \<Longrightarrow> length sep = 1" by (simp_all add: sep_def)
    have f: "fits out junk (length sep) sz"
      using ls k by (intro fits_mono [OF Suc.prems(3)]) auto
    show ?thesis
    proof (cases "k = 7")
      case k7: True
      from write_str [OF f] obtain j1 where j1:
        "snprintf_at (out @ junk) (length out) (sz - length out) sep = (out @ sep) @ j1"
        "length junk = length sep + length j1" by blast
      have nf: "\<not> sz - length out \<le> length sep" using f unfolding fits_def by linarith
      have "formatIP_zeros ip sz (2 * k) 0 True (length out) (out @ junk) =
          (True, 2 * k, 0, 0, False, length (out @ sep), (out @ sep) @ j1)"
        using True k7 nf j1(1) by (simp add: formatIP_zeros_def Let_def w_def sep_def)
      then have "formatIP_loop ip 1 sz (2 * k) 0 True (length out) (out @ junk) =
          (2 * k, 0, length (out @ sep), (out @ sep) @ j1)"
        using k7 by (subst formatIP_loop.simps) (simp del: length_append)
      then show ?thesis using e k7 j1(2) by (auto simp: z_def)
    next
      case False
      with k have k6: "k < 7" by simp
      from formatIP_zeros_run [OF k6 True [unfolded w_def] sep_def f nz_def] obtain j1 where
        zr: "formatIP_zeros ip sz (2 * k) 0 True (length out) (out @ junk) =
          (False, 2 * (k + nz), z, if k + nz < 8 then ip_word ip (2 * (k + nz)) else 0, False,
           length (out @ sep), (out @ sep) @ j1)" and lj: "length junk = length sep + length j1"
        unfolding z_def by blast
      have le: "k + nz \<le> 8" and rest: "rest = ip_words ip (k + nz)"
      proof -
        show "k + nz \<le> 8"
          using length_takeWhile_le [of "\<lambda>x. x = 0" "ip_words ip k"] k by (simp add: nz_def)
        have "rest = dropWhile (\<lambda>x. x = 0) (ip_words ip k)"
          using True by (simp add: rest_def cons)
        then show "rest = ip_words ip (k + nz)"
          by (simp add: dropWhile_eq_drop drop_ip_words nz_def)
      qed
      have nz1: "1 \<le> nz" using True by (simp add: nz_def cons)
      show ?thesis
      proof (cases "k + nz = 8")
        case end8: True
        have "fits (out @ sep) j1 1 sz"
          using ls k6 by (intro fits_append [OF Suc.prems(3) lj]) auto
        then have "fits (out @ sep) j1 (length ''0'') sz" by simp
        from write_str [OF this] obtain j2 where j2:
          "snprintf_at ((out @ sep) @ j1) (length (out @ sep)) (sz - length (out @ sep)) ''0'' =
            ((out @ sep) @ ''0'') @ j2" "length j1 = length ''0'' + length j2" by blast
        have nf: "\<not> sz - length (out @ sep) \<le> length ''0''"
          using \<open>fits (out @ sep) j1 1 sz\<close> unfolding fits_def
          by (simp only: list.size) linarith
        have f0: "fmt_word 1 0 = ''0''" by (simp add: fmt_word_def) (code_simp)
        have "formatIP_loop ip 1 sz (2 * k) 0 True (length out) (out @ junk) =
            (18, z, length ((out @ sep) @ ''0''), ((out @ sep) @ ''0'') @ j2)"
          using k6 nf f0 j2(1) by (subst formatIP_loop.simps) (simp add: zr end8 Let_def)
        then show ?thesis using e False rest end8 j2(2) lj by auto
      next
        case False
        with le have lt: "k + nz < 8" by simp
        obtain k2 z2 u2 where e2: "emit 1 (k + nz) z (ip_words ip (k + nz)) = (k2, z2, u2)"
          by (metis prod_cases3)
        have ne: "ip_word ip (2 * (k + nz)) \<noteq> 0"
        proof -
          have "dropWhile (\<lambda>x. x = 0) (ip_words ip k) = ip_words ip (k + nz)"
            using rest True by (simp add: rest_def cons)
          with ip_words_Cons [OF lt] show ?thesis
            by (metis (mono_tags, lifting) dropWhile_eq_Cons_conv)
        qed
        have "formatIP_loop ip 1 sz (2 * k) 0 True (length out) (out @ junk) =
            formatIP_loop ip 1 sz (2 * (k + nz)) z False (length (out @ sep)) ((out @ sep) @ j1)"
          using k6 lt ne by (intro formatIP_loop_cong) (simp_all add: zr formatIP_zeros_off)
        moreover have "fits (out @ sep) j1 (5 * (8 - (k + nz)) - 1) sz"
          using ls nz1 lt by (intro fits_append [OF Suc.prems(3) lj]) (simp add: diff_mult_distrib2)
        note formatIP_loop_emit [OF e2 le this]
        moreover have "ip_words ip (k + nz) \<noteq> []" using ip_words_Cons [OF lt] by simp
        with e \<open>k \<noteq> 7\<close> have "k' = k2 \<and> z' = z2 \<and> u = sep @ u2"
          unfolding rest e2 prod.case by simp
        ultimately show ?thesis using lj by auto
      qed
    qed
  qed
qed

text \<open>The room the text of the words needs.\<close>

lemma emit_room:
  assumes "emit m k z ws = (k', z', u)" "\<forall>w \<in> set ws. w < 65536" "k + length ws = 8" "ws \<noteq> []"
  shows "length u + 5 * k \<le> (if has_dotted k' z' then 30 else 39)"
  using assms
proof (induction ws arbitrary: k z k' z' u)
  case (Cons w ws)
  have w: "length (fmt_word m w) \<le> 4" using Cons.prems by (simp add: length_fmt_word)
  have k: "k < 7 \<longleftrightarrow> ws \<noteq> []" "k < 8" using Cons.prems(3) by (cases ws; simp)+
  define z1 where "z1 = (if w = 0 \<and> k = z then z + 1 else z)"
  obtain k2 z2 u2 where e2: "emit m (k + 1) z1 ws = (k2, z2, u2)" by (metis prod_cases3)
  have e: "(if z1 = 6 \<and> k = 6 then (k, z1, [])
      else if z1 = 5 \<and> k = 5 \<and> w = 0xFFFF
      then (k, z1, fmt_word m w @ (if k < 7 then '':'' else []))
      else (k2, z2, (fmt_word m w @ (if k < 7 then '':'' else [])) @ u2)) = (k', z', u)"
    using Cons.prems(1) unfolding emit.simps Let_def z1_def [symmetric] e2 prod.case .
  show ?case
  proof (cases "ws = []")
    case True
    then show ?thesis using e e2 w k Cons.prems(3) by (auto simp: has_dotted_def)
  next
    case False
    have "length u2 + 5 * (k + 1) \<le> (if has_dotted k2 z2 then 30 else 39)"
      using Cons.IH [OF e2] Cons.prems False by simp
    then show ?thesis using e w k(1) False by (auto simp: has_dotted_def split: if_splits)
  qed
qed simp

lemma emit_not_lead: "emit m k z ws = (k', z', u) \<Longrightarrow> z < k \<Longrightarrow> z' = z \<and> k \<le> k'"
proof (induction ws arbitrary: k k' z' u)
  case (Cons w ws)
  obtain k2 z2 u2 where e: "emit m (k + 1) z ws = (k2, z2, u2)" by (metis prod_cases3)
  from Cons.IH [OF this] Cons.prems e show ?case
    by (auto simp: Let_def split: if_splits)
qed simp

lemma fmt_word_0: "m \<noteq> 2 \<Longrightarrow> fmt_word m 0 = ''0''"
  by (simp add: fmt_word_def) (code_simp)

text \<open>With a dotted tail the words before it are zeros, but for \<open>ffff\<close>.\<close>

lemma emit_dotted_room:
  assumes "emit m k k ws = (k', z', u)" "m \<noteq> 2" "has_dotted k' z'"
  shows "length u + 2 * k \<le> 15"
  using assms
proof (induction ws arbitrary: k k' z' u)
  case Nil
  then show ?case by (auto simp: has_dotted_def)
next
  case (Cons w ws)
  show ?case
  proof (cases "w = 0")
    case True
    obtain k2 z2 u2 where e: "emit m (k + 1) (k + 1) ws = (k2, z2, u2)" by (metis prod_cases3)
    have "(k2, z2, (fmt_word m w @ (if k < 7 then '':'' else [])) @ u2) = (k', z', u)"
      using Cons.prems(1) e True by (cases "k = 6") (simp_all add: Let_def)
    then show ?thesis using Cons.IH [OF e] Cons.prems(2,3) True by (auto simp: fmt_word_0)
  next
    case False
    obtain k2 z2 u2 where e: "emit m (k + 1) k ws = (k2, z2, u2)" by (metis prod_cases3)
    then have "z2 = k \<and> k + 1 \<le> k2" by (intro emit_not_lead) simp_all
    then have nd: "\<not> has_dotted k2 z2" by (auto simp: has_dotted_def)
    have "length (fmt_word m 65535) \<le> 4" by (simp add: length_fmt_word)
    then show ?thesis using Cons.prems e False nd
      by (auto simp: Let_def split: if_splits)
  qed
qed

lemma emit_compact_later:
  "emit_compact (k + 1) ws = (k', z', u) \<Longrightarrow> \<not> has_dotted k' z'"
proof (induction ws arbitrary: k k' z' u)
  case (Cons w ws)
  obtain k2 z2 u2 where e: "emit_compact (k + 1 + 1) ws = (k2, z2, u2)" by (metis prod_cases3)
  let ?n = "length (takeWhile (\<lambda>x. x = 0) (w # ws))"
  obtain k3 z3 u3 where e3: "emit 1 (k + 1 + ?n) 0 (dropWhile (\<lambda>x. x = 0) ws) = (k3, z3, u3)"
    by (metis prod_cases3)
  have "z3 = 0" using emit_not_lead [OF e3] by simp
  with e3 e Cons.IH [OF e] Cons.prems show ?case
    by (auto simp: Let_def has_dotted_def split: if_splits)
qed (simp add: has_dotted_def)

lemma emit_compact_room:
  assumes "emit_compact k ws = (k', z', u)" "\<forall>w \<in> set ws. w < 65536" "k + length ws = 8" "ws \<noteq> []"
  shows "length u + 5 * k \<le> 39 \<and> (has_dotted k' z' \<longrightarrow> length u \<le> 15)"
  using assms
proof (induction ws arbitrary: k k' z' u)
  case (Cons w ws)
  have k: "k < 7 \<longleftrightarrow> ws \<noteq> []" "k < 8" using Cons.prems(3) by (cases ws; simp)+
  show ?case
  proof (cases "w = 0")
    case False
    have w: "length (fmt_word 1 w) \<le> 4" using Cons.prems by (intro length_fmt_word) simp
    obtain k2 z2 u2 where e: "emit_compact (k + 1) ws = (k2, z2, u2)"
      by (metis prod_cases3)
    then have eq: "k' = k2" "z' = z2" "u = (fmt_word 1 w @ (if k < 7 then '':'' else [])) @ u2"
      using Cons.prems(1) False by auto
    have nd: "\<not> has_dotted k2 z2" using emit_compact_later [OF e] by simp
    show ?thesis
    proof (cases "ws = []")
      case True
      then show ?thesis using eq e nd w k Cons.prems(3) by auto
    next
      case ne: False
      then have "length u2 + 5 * (k + 1) \<le> 39"
        using Cons.IH [OF e] Cons.prems by simp
      then show ?thesis using eq w nd by auto
    qed
  next
    case True
    define n where "n = length (takeWhile (\<lambda>x. x = 0) (w # ws))"
    define rest where "rest = dropWhile (\<lambda>x. x = 0) ws"
    define z where "z = (if k = 0 then n else 0)"
    define sep where "sep = (if k = 0 then ''::'' else '':'')"
    obtain k2 z2 u2 where e2: "emit 1 (k + n) z rest = (k2, z2, u2)" by (metis prod_cases3)
    have e: "(if k = 7 then (k, z, sep) else if rest = [] then (9, z, sep @ ''0'')
        else (k2, z2, sep @ u2)) = (k', z', u)"
      using Cons.prems(1) True unfolding emit_compact.simps Let_def n_def [symmetric]
        rest_def [symmetric] z_def [symmetric] sep_def [symmetric] e2 prod.case by simp
    have ls: "length sep \<le> 2" "k \<noteq> 0 \<Longrightarrow> length sep = 1" by (simp_all add: sep_def)
    have "length ws = length (takeWhile (\<lambda>x. x = 0) ws) + length rest"
      unfolding rest_def by (metis length_append takeWhile_dropWhile_id)
    then have len: "k + n + length rest = 8" "1 \<le> n" using Cons.prems(3) True by (auto simp: n_def)
    show ?thesis
    proof (cases "k = 7 \<or> rest = []")
      case True
      then show ?thesis using e ls k(2) by (auto simp: has_dotted_def split: if_splits)
    next
      case False
      then have eq: "k' = k2" "z' = z2" "u = sep @ u2" using e by auto
      have "\<forall>w \<in> set rest. w < 65536"
        using Cons.prems(2) by (auto simp: rest_def dest: set_dropWhileD)
      with e2 len False have r: "length u2 + 5 * (k + n) \<le> 39"
        using emit_room [of 1 "k + n" z rest k2 z2 u2] by (auto split: if_splits)
      have "length u2 + 2 * n \<le> 15 \<and> k = 0" if "has_dotted k2 z2"
      proof (cases "k = 0")
        case True
        then show ?thesis using emit_dotted_room [of 1 n rest k2 z2 u2] e2 that by (simp add: z_def)
      next
        case k0: False
        then have "z2 = 0" using emit_not_lead [OF e2] len by (auto simp: z_def)
        then show ?thesis using that by (simp add: has_dotted_def)
      qed
      then show ?thesis using r eq ls len by auto
    qed
  qed
qed simp

lemma length_dec_octet: "length (dec_str (unat (b :: u8))) \<le> 3"
proof -
  have "unat b < 256" using unsigned_less [of b] by simp
  then show ?thesis using length_num_str [of "unat b" 10 2] by simp
qed

lemma length_octets_str: "length (octets_str ip i) \<le> 15"
  using length_dec_octet [of "ip ! i"] length_dec_octet [of "ip ! (i + 1)"]
    length_dec_octet [of "ip ! (i + 2)"] length_dec_octet [of "ip ! (i + 3)"]
  by (simp add: octets_str_def dotted_quad_def)

lemma has_dotted_16:
  "(z = 6 \<and> 2 * k = (12::nat) \<or> z = 5 \<and> 2 * k = (10::nat)) \<longleftrightarrow> has_dotted k z"
  by (auto simp: has_dotted_def)

lemma formatIP_text:
  assumes "40 \<le> sz" "m = 2 \<Longrightarrow> 46 \<le> sz" "sz \<le> length buf"
  shows "\<exists>junk. formatIP (Some ip) 16 m (Some buf) sz =
      (length (ipv6_text m ip), Some (ipv6_text m ip @ NUL # junk))"
proof -
  define em where "em = (if m = 1 then emit_compact 0 (ip_words ip 0) else emit m 0 0 (ip_words ip 0))"
  obtain k z u where e: "em = (k, z, u)" by (metis prod_cases3)
  have f: "fits [] buf (5 * (8 - 0) - 1) sz" using assms by (simp add: fits_def)
  have "\<exists>j. formatIP_loop ip m sz 0 0 (m = 1) 0 buf = (2 * k, z, length u, u @ j)
      \<and> length buf = length u + length j"
  proof (cases "m = 1")
    case True
    then show ?thesis using formatIP_loop_compact [OF _ _ f] e by (fastforce simp: em_def)
  next
    case False
    then show ?thesis using formatIP_loop_emit [OF _ _ f] e by (fastforce simp: em_def)
  qed
  then obtain j where loop: "formatIP_loop ip m sz 0 0 (m = 1) 0 buf = (2 * k, z, length u, u @ j)"
    and lj: "length buf = length u + length j" by blast
  have ne: "ip_words ip 0 \<noteq> []" using ip_words_Cons [of 0 ip] by simp
  have room: "length u \<le> 39 \<and> (has_dotted k z \<longrightarrow> length u + 15 < sz)"
    using e ne assms(1,2) emit_room [of m 0 0 "ip_words ip 0" k z u]
      emit_dotted_room [of m 0 "ip_words ip 0" k z u]
      emit_compact_room [of 0 "ip_words ip 0" k z u]
    by (cases "m = 2") (auto simp: em_def ip_words_less split: if_splits)
  then have lt: "length u < sz" using assms by auto
  then obtain c j' where j: "j = c # j'" using assms lj by (cases j) auto
  have nul: "(u @ j)[length u := NUL] = u @ NUL # j'" by (simp add: j)
  have tx: "ipv6_text m ip = (if has_dotted k z then u @ octets_str ip 12 else u)"
    using e by (simp add: ipv6_text_def em_def split: if_splits)
  have fmt: "formatIP (Some ip) 16 m (Some buf) sz =
     (if has_dotted k z
      then (length u + length (octets_str ip 12),
            Some (snprintf_at (u @ NUL # j') (length u) (sz - length u) (octets_str ip 12)))
      else (length u, Some (u @ NUL # j')))"
    using lt unfolding formatIP_def option.case prod.case loop Let_def nul has_dotted_16 by simp
  show ?thesis
  proof (cases "has_dotted k z")
    case True
    have "fits u (NUL # j') (length (octets_str ip 12)) sz"
      using assms lj j room True length_octets_str [of ip 12]
      by (simp add: fits_def)
    from write_str [OF this] obtain j2 where
      "snprintf_at (u @ NUL # j') (length u) (sz - length u) (octets_str ip 12)
        = (u @ octets_str ip 12) @ j2" "j2 \<noteq> [] \<and> hd j2 = NUL" by blast
    then show ?thesis using True fmt tx by (cases j2) auto
  qed (use fmt tx in auto)
qed

end
