(* ===== verification/NetRoundTrip.thy ===== *)
theory NetRoundTrip
  imports NetFormat
begin

text \<open>
  \<^verbatim>\<open>parseIPv6\<close> reads back what \<^verbatim>\<open>formatIP\<close> writes: the loop of the parser on the tokens of an
  address, the shape of the text in each mode, and the round trip.
\<close>

section \<open>Octets of words\<close>

definition octs :: "nat list \<Rightarrow> u8 list" where
  "octs ws = concat (map (\<lambda>w. [word_of_nat (w div 256), word_of_nat (w mod 256)]) ws)"

lemma octs_simps [simp]:
  "octs [] = []"
  "octs (w # ws) = word_of_nat (w div 256) # word_of_nat (w mod 256) # octs ws"
  "octs (vs @ ws) = octs vs @ octs ws"
  by (simp_all add: octs_def)

lemma length_octs [simp]: "length (octs ws) = 2 * length ws"
  by (induction ws) simp_all

lemma octs_zeros [simp]: "octs (replicate n 0) = replicate (2 * n) 0"
  by (induction n) simp_all

lemma octs_take: "octs (take n ws) = take (2 * n) (octs ws)"
proof (induction ws arbitrary: n)
  case (Cons w ws)
  then show ?case by (cases n) simp_all
qed simp

lemma octs_ip_word:
  "octs [ip_word ip i] = [ip ! i, ip ! (i + 1)]" if "i + 1 < length ip"
proof -
  have "unat (ip ! (i + 1)) < 256" using unsigned_less [of "ip ! (i + 1)"] by simp
  then show ?thesis using that
    by (simp add: ip_word_def unat_NET_GET_SHORT)
qed

lemma octs_ip_words:
  assumes "length ip = 16" "k \<le> 8"
  shows "octs (ip_words ip k) = drop (2 * k) ip"
  using assms
proof (induction "8 - k" arbitrary: k)
  case (Suc n)
  then have k: "k < 8" by simp
  have "octs (ip_words ip k) = octs [ip_word ip (2 * k)] @ octs (ip_words ip (Suc k))"
    by (simp add: ip_words_Cons [OF k])
  also have "\<dots> = [ip ! (2 * k), ip ! (2 * k + 1)] @ drop (2 * Suc k) ip"
    using Suc k octs_ip_word [of "2 * k" ip] by simp
  also have "\<dots> = drop (2 * k) ip"
    using k Suc.prems by (simp add: Cons_nth_drop_Suc)
  finally show ?case .
qed simp

section \<open>Tokens\<close>

lemma digits_value_zeros [simp]: "digits_value b (replicate n CHR ''0'' @ ds) = digits_value b ds"
proof -
  have "digit_value CHR ''0'' = 0" by code_simp
  then have "foldl (\<lambda>acc c. acc * b + digit_value c) 0 (replicate n CHR ''0'') = 0"
    by (induction n) simp_all
  then show ?thesis by (simp add: digits_value_def)
qed

lemma fmt_word_digits:
  assumes "c \<in> set (fmt_word m w)"
  shows "is_base_digit 16 c"
proof -
  have "is_base_digit 16 CHR ''0''" by code_simp
  then show ?thesis using assms
    by (auto simp: fmt_word_def hex4_str_def is_base_digit_num_str split: if_splits)
qed

lemma fmt_word_neq_Nil [simp]: "fmt_word m w \<noteq> []"
  by (simp add: fmt_word_def hex4_str_def)

lemma digits_value_fmt_word [simp]: "digits_value 16 (fmt_word m w) = w"
  by (simp add: fmt_word_def hex4_str_def digits_value_num_str)

definition hex_end :: "string \<Rightarrow> bool" where
  "hex_end r \<longleftrightarrow> \<not> is_base_digit 16 (deref r) \<and> deref r \<noteq> CHR ''x'' \<and> deref r \<noteq> CHR ''X''"

lemma hex_end_simps [simp]: "hex_end []" "hex_end (CHR '':'' # r)" "hex_end (CHR ''.'' # r)"
  by (simp_all add: hex_end_def) (code_simp+)

lemma strtol_fmt_word:
  assumes "w < 65536" "hex_end r"
  shows "strtol 16 (fmt_word m w @ r) = (int w, r)"
  using assms strtol_digits [of "fmt_word m w" 16 r]
  by (simp add: fmt_word_digits hex_end_def LONG_MAX_def)

lemma strtol_colon: "strtol 16 (CHR '':'' # r) = (0, CHR '':'' # r)"
proof -
  have "\<not> is_base_digit 16 CHR '':''" "\<not> isspace CHR '':''" by code_simp+
  then show ?thesis by (simp add: strtol_def strtol_sign_def strtol_prefix_def)
qed

text \<open>The octets a group stores.\<close>

lemma store_group:
  fixes w :: nat
  assumes "w < 65536"
  shows "word_of_int (drop_bit 8 (int w AND 0xff00)) = (word_of_nat (w div 256) :: u8)"
    and "word_of_int (int w AND 0x00ff) = (word_of_nat (w mod 256) :: u8)"
proof -
  have "int w AND 0x00ff = int w mod 256"
    using take_bit_eq_mask [of 8 "int w"] by (simp add: take_bit_eq_mod mask_eq_exp_minus_1)
  then show "word_of_int (int w AND 0x00ff) = (word_of_nat (w mod 256) :: u8)"
    by (metis of_int_of_nat_eq of_nat_mod of_nat_numeral)
  have "drop_bit 8 (int w AND 0xff00) = drop_bit 8 (int w) AND drop_bit 8 0xff00" by simp
  also have "drop_bit 8 (0xff00 :: int) = 0xff" by (simp add: drop_bit_eq_div)
  also have "drop_bit 8 (int w) AND 0xff = drop_bit 8 (int w) mod 256"
    using take_bit_eq_mask [of 8 "drop_bit 8 (int w)"]
    by (simp add: take_bit_eq_mod mask_eq_exp_minus_1)
  also have "\<dots> = int (w div 256)"
    using assms by (simp add: drop_bit_eq_div zdiv_int)
  finally have "drop_bit 8 (int w AND 0xff00) = int (w div 256)" .
  then show "word_of_int (drop_bit 8 (int w AND 0xff00)) = (word_of_nat (w div 256) :: u8)"
    by (metis of_int_of_nat_eq)
qed

lemma store_list:
  fixes w :: nat
  assumes "w < 65536" "2 \<le> length junk"
  shows "(wr @ junk)[length wr := word_of_int (drop_bit 8 (int w AND 0xff00)),
      length wr + 1 := word_of_int (int w AND 0x00ff)] = (wr @ octs [w]) @ drop 2 junk"
proof -
  obtain a b j where "junk = a # b # j" using assms(2) by (metis Suc_le_length_iff numeral_2_eq_2)
  then show ?thesis using assms(1) unfolding store_group [OF assms(1)]
    by (simp add: list_update_append)
qed

lemma put_group_list:
  "w < 65536 \<Longrightarrow> 2 \<le> length junk \<Longrightarrow>
    put_group (wr @ junk) (length wr) (int w) True = (wr @ octs [w]) @ drop 2 junk"
  using store_list [of w junk wr] by (simp add: put_group_def)

lemma put_group_none [simp]: "put_group buf off w False = buf"
  by (simp add: put_group_def)

lemma parse_token:
  assumes "w < 65536" "g < 8" "hex_end r" "deref r \<noteq> CHR ''.''" "2 \<le> length junk"
  shows "parseIPv6_loop (fmt_word m w @ r) stop c g (length wr) mark (wr @ junk) =
     (if deref r \<noteq> CHR '':''
      then Inr (Inr (fmt_word m w @ r, r, c, g + 1, length wr + 2, mark, (wr @ octs [w]) @ drop 2 junk))
      else if char_at r 1 = CHR '':''
      then (if c then Inr (Inl ((wr @ octs [w]) @ drop 2 junk))
            else parseIPv6_loop (tl r) r True (g + 1) (length wr + 2) (length wr + 2)
                   ((wr @ octs [w]) @ drop 2 junk))
      else parseIPv6_loop (tl r) r c (g + 1) (length wr + 2) mark ((wr @ octs [w]) @ drop 2 junk))"
proof -
  have "\<not> 65535 < w" using assms(1) by simp
  then show ?thesis
    using assms(2,4,5) put_group_list [OF assms(1,5), of wr] fmt_word_neq_Nil [of m w]
      parseIPv6_loop_step [OF strtol_fmt_word [OF assms(1,3)] assms(2), of "length wr" "wr @ junk" m stop c mark]
    by (simp add: Let_def del: octs_simps)
qed

lemma parse_colon:
  assumes "g < 8"
  shows "parseIPv6_loop (CHR '':'' # r) stop c g off mark buf =
     (if deref r = CHR '':''
      then (if c then Inr (Inl buf) else parseIPv6_loop r (CHR '':'' # r) True g off off buf)
      else parseIPv6_loop r (CHR '':'' # r) c g off mark buf)"
  using assms by (subst parseIPv6_loop.simps) (simp add: strtol_colon)

lemma parse_stop_irrelevant:
  "g < 8 \<Longrightarrow> parseIPv6_loop ip stop c g off mark buf = parseIPv6_loop ip stop' c g off mark buf"
  by (subst (1 2) parseIPv6_loop.simps) simp


section \<open>Runs of tokens\<close>

definition colons :: "nat \<Rightarrow> nat list \<Rightarrow> string" where
  "colons m ws = concat (map (\<lambda>w. fmt_word m w @ '':'') ws)"

fun joined :: "nat \<Rightarrow> nat list \<Rightarrow> string" where
  "joined m [] = []"
| "joined m [w] = fmt_word m w"
| "joined m (w # ws) = fmt_word m w @ '':'' @ joined m ws"

lemma colons_simps [simp]:
  "colons m [] = []" "colons m (w # ws) = fmt_word m w @ '':'' @ colons m ws"
  "colons m (vs @ ws) = colons m vs @ colons m ws"
  by (simp_all add: colons_def)

lemma fmt_word_Cons: "\<exists>c t. fmt_word m w = c # t \<and> is_base_digit 16 c"
  by (cases "fmt_word m w") (use fmt_word_digits [of _ m w] in auto)

lemma hex_not_colon: "is_base_digit 16 c \<Longrightarrow> c \<noteq> CHR '':'' \<and> c \<noteq> CHR ''.''"
  by (auto simp: isxdigit_base16 ctype_defs ord_def)

lemma deref_fmt_word [simp]: "deref (fmt_word m w @ r) \<noteq> CHR '':''"
  using fmt_word_Cons [of m w] hex_not_colon by auto

lemma deref_fmt_word' [simp]: "deref (fmt_word m w) \<noteq> CHR '':''"
  using deref_fmt_word [of m w "[]"] by simp

lemma deref_joined [simp]: "deref (joined m ws) \<noteq> CHR '':''"
  by (induction m ws rule: joined.induct) simp_all

lemma deref_colons: "deref r \<noteq> CHR '':'' \<Longrightarrow> deref (colons m ws @ r) \<noteq> CHR '':''"
  by (cases ws) simp_all

lemma char_at_1_tl: "char_at (c # r) (Suc 0) = deref r"
  by simp

lemma parse_colons:
  assumes "\<forall>w \<in> set ws. w < 65536" "g + length ws < 8" "deref r \<noteq> CHR '':''"
    "2 * length ws \<le> length junk"
  shows "parseIPv6_loop (colons m ws @ r) stop c g (length wr) mark (wr @ junk) =
     parseIPv6_loop r stop c (g + length ws) (length (wr @ octs ws)) mark
       ((wr @ octs ws) @ drop (2 * length ws) junk)"
  using assms
proof (induction ws arbitrary: stop g wr junk)
  case (Cons w ws)
  have d: "deref (colons m ws @ r) \<noteq> CHR '':''" using Cons.prems(3) by (rule deref_colons)
  have "parseIPv6_loop (colons m (w # ws) @ r) stop c g (length wr) mark (wr @ junk) =
      parseIPv6_loop (colons m ws @ r) (CHR '':'' # colons m ws @ r) c (g + 1)
        (length (wr @ octs [w])) mark ((wr @ octs [w]) @ drop 2 junk)"
    using parse_token [of w g "CHR '':'' # colons m ws @ r" junk m stop c wr mark] Cons.prems d
    by simp
  also have "\<dots> = parseIPv6_loop r (CHR '':'' # colons m ws @ r) c (g + 1 + length ws)
      (length ((wr @ octs [w]) @ octs ws)) mark
      (((wr @ octs [w]) @ octs ws) @ drop (2 * length ws) (drop 2 junk))"
    using Cons.prems by (intro Cons.IH) auto
  also have "\<dots> = parseIPv6_loop r stop c (g + length (w # ws)) (length (wr @ octs (w # ws))) mark
      ((wr @ octs (w # ws)) @ drop (2 * length (w # ws)) junk)"
    using Cons.prems(2)
    by (simp add: add.commute parse_stop_irrelevant [where ip = r and stop = "CHR '':'' # colons m ws @ r" and stop' = stop])
  finally show ?case .
qed simp

lemma joined_snoc: "joined m (ws @ [w]) = colons m ws @ fmt_word m w"
  by (induction m ws rule: joined.induct) simp_all

lemma parse_joined:
  assumes "\<forall>w \<in> set ws. w < 65536" "g + length ws \<le> 8" "g < 8" "2 * length ws \<le> length junk"
  shows "\<exists>ip. parseIPv6_loop (joined m ws) stop c g (length wr) mark (wr @ junk) =
     Inr (Inr (ip, [], c, g + length ws, length (wr @ octs ws), mark,
       (wr @ octs ws) @ drop (2 * length ws) junk))"
proof (cases ws rule: rev_cases)
  case Nil
  then show ?thesis using assms(3) by (subst parseIPv6_loop.simps) simp
next
  case (snoc vs w)
  have "parseIPv6_loop (colons m vs @ fmt_word m w) stop c g (length wr) mark (wr @ junk) =
      parseIPv6_loop (fmt_word m w) stop c (g + length vs) (length (wr @ octs vs)) mark
        ((wr @ octs vs) @ drop (2 * length vs) junk)"
    using assms snoc deref_fmt_word [of m w "[]"] by (intro parse_colons) simp_all
  also have "\<dots> = Inr (Inr (fmt_word m w, [], c, g + length vs + 1, length (wr @ octs vs) + 2, mark,
      ((wr @ octs vs) @ octs [w]) @ drop 2 (drop (2 * length vs) junk)))"
    using parse_token [of w "g + length vs" "[]" "drop (2 * length vs) junk" m stop c "wr @ octs vs" mark]
      assms snoc by simp
  finally show ?thesis by (simp add: snoc joined_snoc)
qed

text \<open>The prefix up to the compressed run: the words before it and the two colons.\<close>

lemma parse_compressed:
  assumes "\<forall>w \<in> set pre. w < 65536" "length pre < 8" "deref r \<noteq> CHR '':''"
    "2 * length pre \<le> length buf"
  shows "parseIPv6_loop (colons m pre @ (if pre = [] then ''::'' else '':'') @ r) [] False 0 0 0 buf =
     parseIPv6_loop r [] True (length pre) (length (octs pre)) (length (octs pre))
       (octs pre @ drop (2 * length pre) buf)"
proof (cases pre rule: rev_cases)
  case Nil
  then show ?thesis using assms(3)
    by (simp add: parse_colon parse_stop_irrelevant [where ip = r and stop = "CHR '':'' # r" and stop' = "[]"])
next
  case (snoc vs w)
  have "parseIPv6_loop (colons m vs @ fmt_word m w @ ''::'' @ r) [] False 0 0 0 buf =
      parseIPv6_loop (fmt_word m w @ ''::'' @ r) [] False (length vs) (length (octs vs)) 0
        (octs vs @ drop (2 * length vs) buf)"
    using parse_colons [of vs 0 "fmt_word m w @ ''::'' @ r" buf m "[]" False "[]" 0] assms snoc
    by simp
  also have "\<dots> = parseIPv6_loop (CHR '':'' # r) (''::'' @ r) True (length vs + 1)
      (length (octs vs) + 2) (length (octs vs) + 2)
      ((octs vs @ octs [w]) @ drop 2 (drop (2 * length vs) buf))"
    using parse_token [of w "length vs" "''::'' @ r" "drop (2 * length vs) buf" m "[]" False
        "octs vs" 0] assms snoc by simp
  also have "\<dots> = parseIPv6_loop r [] True (length vs + 1)
      (length (octs vs) + 2) (length (octs vs) + 2)
      ((octs vs @ octs [w]) @ drop 2 (drop (2 * length vs) buf))"
    using assms snoc
    by (simp add: parse_colon parse_stop_irrelevant [where ip = r and stop = "CHR '':'' # r" and stop' = "[]"])
  finally show ?thesis by (simp add: snoc)
qed

text \<open>A dotted tail ends the loop without storing a group.\<close>

lemma digit_hex: "is_base_digit 10 c \<Longrightarrow> is_base_digit 16 c"
  by (simp add: is_base_digit_def)

lemma parse_dotted_stop:
  assumes "g < 8" "v < 256"
  shows "parseIPv6_loop (dec_str v @ CHR ''.'' # r) stop c g off mark buf =
    Inr (Inr (dec_str v @ CHR ''.'' # r, CHR ''.'' # r, c, g, off, mark, buf))"
proof -
  have h: "\<forall>c \<in> set (dec_str v). is_base_digit 16 c"
    using is_base_digit_num_str [of 10] digit_hex by auto
  have len: "length (dec_str v) \<le> 3" using assms(2) length_num_str [of v 10 2] by simp
  have dig: "digit_value c \<le> 9" if "c \<in> set (dec_str v)" for c
    using is_base_digit_num_str [of 10 c v] that by (simp add: is_base_digit_def)
  have "digits_value 16 (dec_str v) \<le> 65535"
  proof (cases "dec_str v")
    case (Cons a as)
    then show ?thesis using len dig
      by (cases as; cases "tl as"; fastforce simp: digits_value_def)
  qed simp
  then have "strtol 16 (dec_str v @ CHR ''.'' # r) =
      (int (digits_value 16 (dec_str v)), CHR ''.'' # r)"
    using strtol_digits [of "dec_str v" 16 "CHR ''.'' # r"] h hex_end_simps(3) [of r]
    by (simp add: hex_end_def LONG_MAX_def)
  then show ?thesis using assms(1) \<open>digits_value 16 (dec_str v) \<le> 65535\<close>
    by (subst parseIPv6_loop.simps) simp
qed

section \<open>The shape of the text\<close>

lemma emit_plain:
  assumes "z < k" "k + length ws = 8"
  shows "emit m k z ws = (8, z, joined m ws)"
  using assms
proof (induction ws arbitrary: k)
  case (Cons w ws)
  have "emit m (k + 1) z ws = (8, z, joined m ws)" using Cons by simp
  moreover have "\<not> (z = 6 \<and> k = 6)" "\<not> (z = 5 \<and> k = 5 \<and> w = 65535)" "k \<noteq> z" using Cons.prems(1) by auto
  moreover have "k < 7 \<longleftrightarrow> ws \<noteq> []" using Cons.prems(2) by (cases ws) auto
  ultimately show ?case by (cases ws) (auto simp: Let_def)
qed simp

lemma emit_lead:
  assumes "emit m k k ws = (k', z', u)" "k + length ws = 8"
  shows "if has_dotted k' z' then k \<le> 6 \<and> u = colons m (take (6 - k) ws) else u = joined m ws"
  using assms
proof (induction ws arbitrary: k k' z' u)
  case Nil
  then show ?case by (auto simp: has_dotted_def)
next
  case (Cons w ws)
  have k7: "k < 7 \<longleftrightarrow> ws \<noteq> []" using Cons.prems(2) by (cases ws) auto
  have j: "joined m (w # ws) = fmt_word m w @ (if k < 7 then '':'' else []) @ joined m ws"
    using k7 by (cases ws) auto
  show ?case
  proof (cases "w = 0")
    case True
    obtain k2 z2 u2 where e: "emit m (k + 1) (k + 1) ws = (k2, z2, u2)" by (metis prod_cases3)
    have ih: "if has_dotted k2 z2 then k + 1 \<le> 6 \<and> u2 = colons m (take (6 - (k + 1)) ws)
        else u2 = joined m ws"
      using Cons.prems(2) by (intro Cons.IH [OF e]) simp
    have "(k2, z2, (fmt_word m w @ (if k < 7 then '':'' else [])) @ u2) = (k', z', u)"
      using Cons.prems(1) e True by (cases "k = 6") (simp_all add: Let_def)
    moreover have "take (6 - k) (w # ws) = w # take (5 - k) ws" if "k \<le> 5"
      using that by (simp add: take_Cons' diff_diff_eq2)
    ultimately show ?thesis using ih unfolding j by (auto split: if_splits)
  next
    case False
    have e: "emit m (k + 1) k ws = (8, k, joined m ws)"
      using Cons.prems(2) by (intro emit_plain) auto
    show ?thesis
    proof (cases "k = 6 \<or> k = 5 \<and> w = 0xFFFF")
      case True
      then show ?thesis using Cons.prems(1) False by (auto simp: has_dotted_def Let_def)
    next
      case nd: False
      then have "(8, k, (fmt_word m w @ (if k < 7 then '':'' else [])) @ joined m ws) = (k', z', u)"
        using Cons.prems(1) e False unfolding emit.simps Let_def by auto
      then show ?thesis unfolding j by (auto simp: has_dotted_def)
    qed
  qed
qed

lemma emit_nonzero:
  assumes "emit m k k ws = (k', z', u)" "ws \<noteq> []" "hd ws \<noteq> 0" "k + length ws = 8" "has_dotted k' z'"
  shows "5 \<le> k"
proof -
  obtain w ws' where ws: "ws = w # ws'" "w \<noteq> 0" using assms(2,3) by (cases ws) auto
  have "emit m (k + 1) k ws' = (8, k, joined m ws')"
    using assms(4) ws by (intro emit_plain) auto
  then show ?thesis using assms(1,5) ws by (auto simp: has_dotted_def Let_def split: if_splits)
qed

lemma emit_full_shape:
  assumes "emit m 0 0 ws = (k, z, u)" "length ws = 8"
  shows "if has_dotted k z then u = colons m (take 6 ws) else u = joined m ws"
  using emit_lead [of m 0 ws k z u] assms by auto

lemma takeWhile_zeros: "takeWhile (\<lambda>x. x = 0) ws = replicate (length (takeWhile (\<lambda>x. x = 0) ws)) (0::nat)"
  by (induction ws) simp_all

lemma emit_compact_shape:
  assumes "emit_compact k ws = (k', z', u)" "k + length ws = 8"
  shows "\<exists>pre n post. ws = pre @ replicate n 0 @ post \<and>
    (if has_dotted k' z' then pre = [] \<and> k = 0 \<and> 5 \<le> n \<and> n \<le> 6 \<and> u = ''::'' @ colons 1 (take (6 - n) post)
     else n = 0 \<and> post = [] \<and> u = joined 1 pre
       \<or> 1 \<le> n \<and> u = colons 1 pre @ (if k = 0 \<and> pre = [] then ''::'' else '':'') @ joined 1 post)"
  using assms
proof (induction ws arbitrary: k k' z' u)
  case Nil
  then show ?case by (auto simp: has_dotted_def)
next
  case (Cons w ws)
  have k7: "k < 7 \<longleftrightarrow> ws \<noteq> []" using Cons.prems(2) by (cases ws) auto
  show ?case
  proof (cases "w = 0")
    case False
    obtain k2 z2 u2 where e: "emit_compact (k + 1) ws = (k2, z2, u2)" by (metis prod_cases3)
    have eq: "k' = k2" "z' = z2" "u = fmt_word 1 w @ (if k < 7 then '':'' else []) @ u2"
      using Cons.prems(1) e False by auto
    from Cons.IH [OF e] Cons.prems(2) obtain pre n post where ih:
      "ws = pre @ replicate n 0 @ post" "\<not> has_dotted k' z'"
      "n = 0 \<and> post = [] \<and> u2 = joined 1 pre \<or> 1 \<le> n \<and> u2 = colons 1 pre @ '':'' @ joined 1 post"
      unfolding eq(1,2) by (fastforce split: if_split_asm)
    have "u = joined 1 (w # pre)" if "n = 0" "post = []" "u2 = joined 1 pre"
      using that ih(1) k7 eq(3) by (cases pre) auto
    moreover have "u = colons 1 (w # pre) @ '':'' @ joined 1 post"
      if "1 \<le> n" "u2 = colons 1 pre @ '':'' @ joined 1 post"
      using that ih(1) k7 eq(3) by (cases n) auto
    ultimately show ?thesis using ih by (intro exI [of _ "w # pre"] exI [of _ n] exI [of _ post]) auto
  next
    case True
    define n where "n = length (takeWhile (\<lambda>x. x = 0) (w # ws))"
    define rest where "rest = dropWhile (\<lambda>x. x = 0) ws"
    define z where "z = (if k = 0 then n else 0)"
    define sep where "sep = (if k = 0 then ''::'' else '':'')"
    obtain k2 z2 u2 where e2: "emit 1 (k + n) z rest = (k2, z2, u2)" by (metis prod_cases3)
    have e: "(if k = 7 then (k, z, sep) else if rest = [] then (9, z, sep @ ''0'')
        else (k2, z2, sep @ u2)) = (k', z', u)"
      using Cons.prems(1) True unfolding emit_compact.simps Let_def n_def [symmetric]
        rest_def [symmetric] z_def [symmetric] sep_def [symmetric] e2 prod.case by simp
    have n1: "1 \<le> n" using True by (simp add: n_def)
    have ws: "w # ws = replicate n 0 @ rest"
      using takeWhile_zeros [of "w # ws"] takeWhile_dropWhile_id [of "\<lambda>x. x = 0" "w # ws"] True
      by (simp add: n_def rest_def)
    then have len: "k + n + length rest = 8"
      using Cons.prems(2) by (metis length_append length_replicate add.assoc)
    consider (last) "k = 7" | (toend) "k \<noteq> 7" "rest = []" | (inside) "k \<noteq> 7" "rest \<noteq> []" by blast
    then show ?thesis
    proof cases
      case last
      then show ?thesis using e ws n1 k7 True
        by (intro exI [of _ "[]"] exI [of _ 1]) (auto simp: has_dotted_def sep_def)
    next
      case toend
      have "fmt_word 1 0 = ''0''" by (simp add: fmt_word_def) (code_simp)
      moreover have "w # ws = replicate (n - 1) 0 @ [0]"
        using ws toend n1 by (cases n) (auto simp: replicate_append_same)
      moreover have "1 \<le> n - 1" using len toend n1 Cons.prems(2) k7 by auto
      ultimately show ?thesis using toend e
        by (intro exI [of _ "[]"] exI [of _ "n - 1"] exI [of _ "[0]"])
          (auto simp: has_dotted_def sep_def)
    next
      case inside
      have eq: "k' = k2" "z' = z2" "u = sep @ u2" using e inside by auto
      have hd: "hd rest \<noteq> 0" using inside by (metis (mono_tags) hd_dropWhile rest_def)
      show ?thesis
      proof (cases "k = 0")
        case True
        have "if has_dotted k2 z2 then n \<le> 6 \<and> u2 = colons 1 (take (6 - n) rest)
            else u2 = joined 1 rest"
          using emit_lead [of 1 n rest k2 z2 u2] e2 len True by (simp add: z_def)
        moreover have "has_dotted k2 z2 \<Longrightarrow> 5 \<le> n"
          using emit_nonzero [of 1 n rest k2 z2 u2] e2 len True hd inside by (simp add: z_def)
        ultimately show ?thesis using True eq n1 ws
          by (intro exI [of _ "[]"] exI [of _ n] exI [of _ rest]) (auto simp: sep_def)
      next
        case False
        then have "emit 1 (k + n) z rest = (8, z, joined 1 rest)"
          using len n1 by (intro emit_plain) (auto simp: z_def)
        then show ?thesis using False e2 eq n1 ws
          by (intro exI [of _ "[]"] exI [of _ n] exI [of _ rest])
            (auto simp: sep_def has_dotted_def)
      qed
    qed
  qed
qed

section \<open>The round trip\<close>

lemma emit_chars:
  "emit m k z ws = (k', z', u) \<Longrightarrow> c \<in> set u \<Longrightarrow> is_base_digit 16 c \<or> c = CHR '':''"
proof (induction ws arbitrary: k z k' z' u)
  case (Cons w ws)
  obtain k2 z2 u2 where e: "emit m (k + 1) (if w = 0 \<and> k = z then z + 1 else z) ws = (k2, z2, u2)"
    by (metis prod_cases3)
  from Cons.IH [OF this] Cons.prems e show ?case
    unfolding emit.simps Let_def by (auto split: if_split_asm dest: fmt_word_digits)
qed simp

lemma emit_compact_chars:
  "emit_compact k ws = (k', z', u) \<Longrightarrow> c \<in> set u \<Longrightarrow> is_base_digit 16 c \<or> c = CHR '':''"
proof (induction ws arbitrary: k k' z' u)
  case (Cons w ws)
  have "is_base_digit 16 CHR ''0''" by code_simp
  moreover obtain k2 z2 u2 where e: "emit_compact (k + 1) ws = (k2, z2, u2)" by (metis prod_cases3)
  ultimately show ?case using Cons.IH [OF e] Cons.prems
    by (auto simp: Let_def split: if_split_asm prod.splits dest: fmt_word_digits emit_chars)
qed simp

definition ipv6_char :: "char \<Rightarrow> bool" where
  "ipv6_char c \<longleftrightarrow> is_base_digit 16 c \<or> c = CHR '':'' \<or> c = CHR ''.''"

lemma ipv6_text_chars: "c \<in> set (ipv6_text m ip) \<Longrightarrow> ipv6_char c"
  by (auto simp: ipv6_text_def ipv6_char_def octets_str_def dotted_quad_def
      split: prod.splits if_splits dest: emit_chars [OF sym] emit_compact_chars [OF sym]
      dest!: is_base_digit_num_str [of 10, simplified, THEN digit_hex])

lemma ipv6_char_not: "ipv6_char c \<Longrightarrow> c \<noteq> NUL \<and> c \<noteq> CHR ''['' \<and> tolower c \<noteq> CHR ''i''"
proof -
  assume "ipv6_char c"
  then have "isxdigit c \<or> c = CHR '':'' \<or> c = CHR ''.''"
    by (simp add: ipv6_char_def isxdigit_base16)
  moreover have "ord CHR '':'' = 58" "ord CHR ''.'' = 46" "ord CHR ''['' = 91" "ord CHR ''i'' = 105"
    by code_simp+
  ultimately show ?thesis
    by (auto simp: ctype_defs ord_tolower simp flip: ord_inject)
qed

lemma strip_tag_id:
  assumes "\<forall>c \<in> set s. ipv6_char c"
  shows "strip_tag s = s"
proof (cases s)
  case Nil
  then show ?thesis by (simp add: strip_tag_def TextInsensitiveCompareN_def)
next
  case (Cons c s')
  then have c: "ipv6_char c" using assms by simp
  have "NUL \<notin> set s" using assms ipv6_char_not by blast
  then have "TextInsensitiveCompareN (Some s) (Some ''IPv6:'') 5 = 0 \<longleftrightarrow>
      map tolower (take 5 s) = map tolower (take 5 ''IPv6:'')"
    using casecmp_loop_eq_0_N [of s "''IPv6:''" 5] by (simp add: TextInsensitiveCompareN_def)
  moreover have "tolower CHR ''I'' = CHR ''i''" by code_simp
  ultimately show ?thesis
    using ipv6_char_not [OF c] by (auto simp: strip_tag_def Cons)
qed

lemma parse_dotted_octets:
  "parse_dotted (octets_str ip i) =
     Some (int (unat (ip ! i)), int (unat (ip ! (i + 1))), int (unat (ip ! (i + 2))),
       int (unat (ip ! (i + 3))), [])"
proof -
  have u: "unat (ip ! j) < 256" for j using unsigned_less [of "ip ! j"] by simp
  have b: "unat (ip ! j) < 2 ^ 63" "unat (ip ! j) \<le> 255" for j
    using u [of j] by simp_all
  have dot: "\<not> is_base_digit 10 CHR ''.''" by code_simp
  have ui: "\<not> 255 < uint (ip ! j)" "\<not> uint (ip ! j) < 0" for j
  proof -
    have "uint (ip ! j) = int (unat (ip ! j))" by simp
    then show "\<not> 255 < uint (ip ! j)" "\<not> uint (ip ! j) < 0" using u [of j] by linarith+
  qed
  have oct: "parse_octet (dec_str (unat (ip ! j)) @ CHR ''.'' # r) True =
      Some (int (unat (ip ! j)), CHR ''.'' # r)" for j r
    using strtol_num_str [of 10 "CHR ''.'' # r" "unat (ip ! j)"] b [of j] dot
    by (simp add: parse_octet_def ui)
  have last: "parse_octet (dec_str (unat (ip ! j))) False = Some (int (unat (ip ! j)), [])" for j
    using strtol_num_str [of 10 "[]" "unat (ip ! j)"] b [of j]
    by (simp add: parse_octet_def ui)
  show ?thesis by (simp add: parse_dotted_def octets_str_def dotted_quad_def oct last)
qed

text \<open>What the parser makes of a text whose groups are known.\<close>

lemma parse_all_groups:
  assumes "\<forall>w \<in> set ws. w < 65536" "length ws = 8" "length b = 16"
    "strip_tag (joined m ws) = joined m ws"
  shows "parseIPv6_body (joined m ws) b = Inr (length (joined m ws), octs ws)"
proof -
  from parse_joined [of ws 0 b m "[]" False "[]" 0] assms(1-3) obtain ip where
    "parseIPv6_loop (joined m ws) [] False 0 0 0 b = Inr (Inr (ip, [], False, 8, 16, 0, octs ws))"
    by auto
  then have "parseIPv6_body (joined m ws) b =
      Inr (length (joined m ws), expand_zeros (octs ws) 0 16 0)"
    using parseIPv6_body_eq [of "joined m ws" b ip "[]" False 8 16 0 "octs ws" 0] assms(2,4) by simp
  then show ?thesis using assms(2) by (simp add: expand_zeros_def)
qed

lemma parse_some_groups:
  assumes "\<forall>w \<in> set (pre @ post). w < 65536" "length pre + n + length post = 8" "1 \<le> n" "length b = 16"
    "s = colons m pre @ (if pre = [] then ''::'' else '':'') @ joined m post" "strip_tag s = s"
  shows "parseIPv6_body s b = Inr (length s, octs (pre @ replicate n 0 @ post))"
proof -
  let ?b = "(octs pre @ octs post) @ drop (2 * length post) (drop (2 * length pre) b)"
  have 1: "parseIPv6_loop s [] False 0 0 0 b = parseIPv6_loop (joined m post) [] True (length pre)
      (length (octs pre)) (length (octs pre)) (octs pre @ drop (2 * length pre) b)"
    unfolding assms(5) using assms(1-4) by (intro parse_compressed) simp_all
  have "\<exists>ip. parseIPv6_loop (joined m post) [] True (length pre)
      (length (octs pre)) (length (octs pre)) (octs pre @ drop (2 * length pre) b) =
      Inr (Inr (ip, [], True, length pre + length post, length (octs pre @ octs post),
        length (octs pre), ?b))"
    using assms(1-4) by (intro parse_joined) auto
  then obtain ip where 2: "parseIPv6_loop s [] False 0 0 0 b =
      Inr (Inr (ip, [], True, length pre + length post, length (octs pre @ octs post),
        length (octs pre), ?b))"
    unfolding 1 by blast
  have "parseIPv6_body s b =
      Inr (length s, expand_zeros ?b (length (octs pre)) (length (octs pre @ octs post)) 0)"
    using parseIPv6_body_eq [of s b ip "[]" True _ _ "length (octs pre)" ?b 0] 2 assms
    by simp
  moreover have "expand_zeros ?b (length (octs pre)) (length (octs pre @ octs post)) 0 =
      octs (pre @ replicate n 0 @ post)"
  proof -
    have "16 - 0 - length (octs pre @ octs post) = 2 * n" using assms(2) by simp
    moreover have "drop (16 - 0) ?b = []" using assms(2,4) by auto
    ultimately show ?thesis unfolding expand_zeros_def by simp
  qed
  ultimately show ?thesis by simp
qed

lemma length_4: "length xs = 4 \<Longrightarrow> \<exists>x y z w. xs = [x, y, z, w]"
  by (auto simp: length_Suc_conv numeral_eq_Suc)

lemma update_tail:
  "length xs = 12 \<Longrightarrow>
    (xs @ [x, y, z, w])[12 := a, 13 := b, 14 := c, 15 := d] = xs @ [a, b, c, d]"
  by (simp add: list_update_append)

lemma parse_dotted_groups:
  assumes "parseIPv6_loop s [] False 0 0 0 b =
      parseIPv6_loop (octets_str ip 12) st c g (length (wr :: u8 list)) mk (wr @ jk)"
    and "g < 8" "length (wr @ jk) = 16" "length wr = 2 * g" "mk \<le> length wr" "g \<le> 6" "c \<Longrightarrow> g \<le> 4"
    and "strip_tag s = s"
  shows "parseIPv6_body s b = Inr (length s,
     (take mk wr @ replicate (12 - length wr) 0 @ drop mk wr)
     @ [ip ! 12, ip ! 13, ip ! 14, ip ! 15])"
proof -
  define st where "st = CHR ''.'' # dec_str (unat (ip ! 13)) @ ''.'' @ dec_str (unat (ip ! 14))
    @ ''.'' @ dec_str (unat (ip ! 15))"
  have os: "octets_str ip 12 = dec_str (unat (ip ! 12)) @ st"
    by (simp add: octets_str_def dotted_quad_def st_def)
  have "unat (ip ! 12) < 256" using unsigned_less [of "ip ! 12"] by simp
  from parse_dotted_stop [OF assms(2) this] have
    "parseIPv6_loop s [] False 0 0 0 b = Inr (Inr (octets_str ip 12, st, c, g, length wr, mk, wr @ jk))"
    unfolding assms(1) os st_def by simp
  then have "parseIPv6_body s b = Inr (length s, (expand_zeros (wr @ jk) mk (length wr) 4)
      [12 := word_of_int (int (unat (ip ! 12))), 13 := word_of_int (int (unat (ip ! 13))),
       14 := word_of_int (int (unat (ip ! 14))), 15 := word_of_int (int (unat (ip ! 15)))])"
    using parseIPv6_body_eq [of s b "octets_str ip 12" st c g "length wr" mk "wr @ jk" 4] assms(3-)
      parse_dotted_octets [of ip 12]
    by (auto simp: st_def)
  moreover have "\<exists>x y z w. expand_zeros (wr @ jk) mk (length wr) 4 =
      (take mk wr @ replicate (12 - length wr) 0 @ drop mk wr) @ [x, y, z, w]"
  proof -
    have l4: "length (drop (16 - 4) (wr @ jk)) = 4" using assms(3) by simp
    then obtain x y z w where d: "drop (16 - 4) (wr @ jk) = [x, y, z, w]"
      using length_4 by blast
    show ?thesis using assms(4-6) d unfolding expand_zeros_def by (auto simp: diff_diff_eq)
  qed
  moreover have len: "length (take mk wr @ replicate (12 - length wr) 0 @ drop mk wr) = 12"
    using assms(4-6) by simp
  ultimately show ?thesis by (auto simp: update_tail [OF len] simp del: append_assoc)
qed

lemma deref_octets_str: "deref (octets_str ip i) \<noteq> CHR '':''"
proof -
  have "c \<noteq> CHR '':''" if "c \<in> set (dec_str n)" for c n
    using is_base_digit_num_str [of 10 c n] that digit_hex hex_not_colon by simp
  from this [of _ "unat (ip ! i)"] show ?thesis
    by (cases "dec_str (unat (ip ! i))") (simp_all add: octets_str_def dotted_quad_def)
qed

lemma parse_ipv6_text:
  assumes ip: "length ip = 16" and b: "length b = 16"
  shows "parseIPv6_body (ipv6_text m ip) b = Inr (length (ipv6_text m ip), ip)"
proof -
  define ws where "ws = ip_words ip 0"
  have ws: "\<forall>w \<in> set ws. w < 65536" "length ws = 8" "octs ws = ip"
    using octs_ip_words [OF ip, of 0] by (simp_all add: ws_def ip_words_less)
  have tail: "drop 12 ip = [ip ! 12, ip ! 13, ip ! 14, ip ! 15]"
    using ip by (simp add: Cons_nth_drop_Suc [symmetric])
  have "octs (take 6 ws) = take 12 ip" using ws(3) by (simp add: octs_take)
  then have head: "octs (take 6 ws) @ [ip ! 12, ip ! 13, ip ! 14, ip ! 15] = ip"
    using tail by (metis append_take_drop_id)
  have st: "strip_tag (ipv6_text m ip) = ipv6_text m ip"
    by (intro strip_tag_id) (auto dest: ipv6_text_chars)
  show ?thesis
  proof (cases "m = 1")
    case True
    obtain k z u where e: "emit_compact 0 ws = (k, z, u)" by (metis prod_cases3)
    have tx: "ipv6_text m ip = (if has_dotted k z then u @ octets_str ip 12 else u)"
      using e True by (simp add: ipv6_text_def ws_def)
    have "0 + length ws = 8" using ws(2) by simp
    from emit_compact_shape [OF e this] obtain pre n post where sh0:
      "ws = pre @ replicate n 0 @ post \<and> (if has_dotted k z then pre = [] \<and> (0::nat) = 0 \<and> 5 \<le> n
         \<and> n \<le> 6 \<and> u = ''::'' @ colons 1 (take (6 - n) post)
       else n = 0 \<and> post = [] \<and> u = joined 1 pre
         \<or> 1 \<le> n \<and> u = colons 1 pre @ (if (0::nat) = 0 \<and> pre = [] then ''::'' else '':'')
             @ joined 1 post)"
      by blast
    from sh0 have sh1: "ws = pre @ replicate n 0 @ post" by simp
    from sh0 have sh2: "if has_dotted k z then pre = [] \<and> 5 \<le> n \<and> n \<le> 6 \<and> u = ''::'' @ colons 1 (take (6 - n) post)
       else n = 0 \<and> post = [] \<and> u = joined 1 pre
         \<or> 1 \<le> n \<and> u = colons 1 pre @ (if pre = [] then ''::'' else '':'') @ joined 1 post"
      by (cases "has_dotted k z"; cases "pre = []"; simp)
    note sh = sh1 sh2
    have len: "length pre + n + length post = 8" using ws(2) sh(1) by simp
    have lt: "\<forall>w \<in> set (pre @ post). w < 65536" using ws(1) sh(1) by auto
    show ?thesis
    proof (cases "has_dotted k z")
      case True
      define qs where "qs = take (6 - n) post"
      have qs: "length qs = 6 - n" "\<forall>w \<in> set qs. w < 65536" "5 \<le> n" "n \<le> 6"
        "take 6 ws = replicate n 0 @ qs"
        using sh len lt True by (auto simp: qs_def dest: in_set_takeD)
      have tx': "ipv6_text m ip = ''::'' @ colons 1 qs @ octets_str ip 12"
        using tx sh(2) True by (simp add: qs_def)
      have oc: "deref (octets_str ip 12) \<noteq> CHR '':''" by (rule deref_octets_str)
      have "parseIPv6_loop (ipv6_text m ip) [] False 0 0 0 b =
          parseIPv6_loop (colons 1 qs @ octets_str ip 12) [] True 0 0 0 b"
        unfolding tx' using parse_compressed [of "[]" "colons 1 qs @ octets_str ip 12" b] oc
        by (simp add: deref_colons)
      also have "\<dots> = parseIPv6_loop (octets_str ip 12) [] True (length qs) (length (octs qs)) 0
          (octs qs @ drop (2 * length qs) b)"
        using parse_colons [of qs 0 "octets_str ip 12" b 1 "[]" True "[]" 0] qs b oc by simp
      finally show ?thesis
        using parse_dotted_groups [of "ipv6_text m ip" b ip "[]" True "length qs" "octs qs" 0
            "drop (2 * length qs) b"] qs b st head
        by (simp add: diff_mult_distrib2)
    next
      case False
      then show ?thesis
        using sh tx len lt b st parse_all_groups [of pre b 1] parse_some_groups [of pre post n b u 1]
          ws by auto
    qed
  next
    case False
    obtain k z u where e: "emit m 0 0 ws = (k, z, u)" by (metis prod_cases3)
    have tx: "ipv6_text m ip = (if has_dotted k z then u @ octets_str ip 12 else u)"
      using e False by (simp add: ipv6_text_def ws_def)
    note sh = emit_full_shape [OF e ws(2)]
    show ?thesis
    proof (cases "has_dotted k z")
      case True
      define qs where "qs = take 6 ws"
      have qs: "length qs = 6" "\<forall>w \<in> set qs. w < 65536"
        using ws by (auto simp: qs_def dest: in_set_takeD)
      have tx': "ipv6_text m ip = colons m qs @ octets_str ip 12"
        using tx sh True by (simp add: qs_def)
      have "parseIPv6_loop (ipv6_text m ip) [] False 0 0 0 b =
          parseIPv6_loop (octets_str ip 12) [] False 6 (length (octs qs)) 0
          (octs qs @ drop 12 b)"
        using parse_colons [of qs 0 "octets_str ip 12" b m "[]" False "[]" 0] qs b
        by (simp add: tx' deref_octets_str)
      then show ?thesis
        using parse_dotted_groups [of "ipv6_text m ip" b ip "[]" False 6 "octs qs" 0 "drop 12 b"]
          qs b st head by (simp add: qs_def)
    next
      case False
      then show ?thesis using sh tx parse_all_groups [of ws b m] ws b st by simp
    qed
  qed
qed


text \<open>C1: Round trip. An IPv6 address of 16 octets that \<open>formatIP\<close> writes, in full or compact form
  into a buffer of at least \<open>IPV6_STRING_SIZE\<close> (40) characters, or in the fixed-width form into
  one of at least 46, is read back by \<open>parseIPv6\<close>
  unchanged, whatever the parser's buffer held, and the parser consumes exactly the characters that
  \<open>formatIP\<close> returned as its length.\<close>

theorem parseIPv6_formatIP:
  assumes "length ip = 16" and "40 \<le> sz" and "mode = 2 \<Longrightarrow> 46 \<le> sz" and "sz \<le> length out"
    and "length buf = 16"
  shows "parseIPv6 (Some (cstring_of (the (snd (formatIP (Some ip) 16 mode (Some out) sz))))) (Some buf)
    = Inr (fst (formatIP (Some ip) 16 mode (Some out) sz), Some ip)"
proof -
  obtain junk where "formatIP (Some ip) 16 mode (Some out) sz =
      (length (ipv6_text mode ip), Some (ipv6_text mode ip @ NUL # junk))"
    using formatIP_text [OF assms(2-4)] by blast
  moreover have "\<forall>c \<in> set (ipv6_text mode ip). c \<noteq> NUL"
    using ipv6_text_chars ipv6_char_not by blast
  then have "cstring_of (ipv6_text mode ip @ NUL # junk) = ipv6_text mode ip"
    by (simp add: cstring_of_def takeWhile_append)
  ultimately show ?thesis using parse_ipv6_text [OF assms(1,5)] by (simp add: parseIPv6_def)
qed

theorem parseIPv6_formatIP_witness:
  "parseIPv6 (Some (cstring_of (the (snd (formatIP (Some (replicate 15 0 @ [1])) 16 1
      (Some (replicate 40 NUL)) 40))))) (Some (replicate 16 0))
    = Inr (fst (formatIP (Some (replicate 15 0 @ [1])) 16 1 (Some (replicate 40 NUL)) 40),
        Some (replicate 15 0 @ [1]))"
  by (rule parseIPv6_formatIP) simp_all


text \<open>In the fixed-width form \<open>IPV6_STRING_SIZE\<close> is not enough: an IPv4-mapped address
  takes 45 characters and a null.\<close>

theorem formatIP_fixed_width_truncated:
  "formatIP (Some (replicate 10 0 @ replicate 6 255)) 16 2 (Some (replicate 40 CHR ''x'')) 40 =
    (45, Some (''0000:0000:0000:0000:0000:ffff:255.255.2'' @ [NUL]))"
proof -
  let ?ip = "replicate 10 0 @ replicate 6 255 :: u8 list"
  let ?u = "''0000:0000:0000:0000:0000:ffff:''"
  have w: "ip_words ?ip 0 = [0, 0, 0, 0, 0, 65535, 65535, 65535]"
    by (simp add: ip_words_def ip_word_def unat_NET_GET_SHORT upt_rec nth_append)
  have f: "fmt_word 2 0 = ''0000''" "fmt_word 2 65535 = ''ffff''"
    by (simp_all add: fmt_word_def hex4_str_def num_str.simps digit_char_def) (code_simp+)
  have e: "emit 2 0 0 (ip_words ?ip 0) = (5, 5, ?u)"
    by (simp add: w f)
  have o: "octets_str ?ip 12 = ''255.255.255.255''"
    by (simp add: octets_str_def dotted_quad_def nth_append num_str.simps digit_char_def) code_simp
  have "fits [] (replicate 40 CHR ''x'') (5 * (8 - 0) - 1) 40" by (simp add: fits_def)
  from formatIP_loop_emit [OF e _ this] obtain j where
    "formatIP_loop ?ip 2 40 0 0 False 0 (replicate 40 CHR ''x'') = (10, 5, 30, ?u @ j)"
    "length j = 10" by auto
  moreover obtain c j' where "j = c # j'" using \<open>length j = 10\<close> by (cases j) auto
  ultimately show ?thesis
    by (simp add: formatIP_def Let_def o snprintf_at_def)
qed

end
