(* ===== verification/NetNetwork.thy ===== *)
theory NetNetwork
  imports NetParse
begin

text \<open>
  Properties of networks and of the reserved address ranges: membership of a network is
  agreement of the leading bits, and the masks of \<^verbatim>\<open>net/isReservedIPv4.c\<close> are
  the CIDR blocks of its table.
\<close>

section \<open>An address as a number\<close>

definition ip_num :: "u8 list \<Rightarrow> nat" where
  "ip_num ip = foldl (\<lambda>n b. 256 * n + unat b) 0 ip"

lemma ip_num_Nil [simp]: "ip_num [] = 0"
  by (simp add: ip_num_def)

lemma ip_num_snoc [simp]: "ip_num (xs @ [b]) = 256 * ip_num xs + unat b"
  by (simp add: ip_num_def)

lemma unat_u8 [simp]: "unat (b :: u8) < 256"
  using unsigned_less [of b] by simp

lemma ip_num_append: "ip_num (xs @ ys) = 256 ^ length ys * ip_num xs + ip_num ys"
proof (induction ys rule: rev_induct)
  case (snoc b ys)
  have "ip_num (xs @ ys @ [b]) = 256 * ip_num (xs @ ys) + unat b"
    using ip_num_snoc [of "xs @ ys" b] by simp
  then show ?case by (simp add: snoc algebra_simps)
qed simp

lemma ip_num_less: "ip_num xs < 256 ^ length xs"
proof (induction xs rule: rev_induct)
  case (snoc b xs)
  then have "256 * (ip_num xs + 1) \<le> 256 * 256 ^ length xs" by (intro mult_le_mono2) simp
  then show ?case by simp (use unat_u8 [of b] in linarith)
qed simp

lemma ip_num_inj: "length xs = length ys \<Longrightarrow> ip_num xs = ip_num ys \<longleftrightarrow> xs = ys"
proof (induction xs arbitrary: ys rule: rev_induct)
  case (snoc b xs)
  then obtain c zs where ys: "ys = zs @ [c]" "length xs = length zs"
    by (cases ys rule: rev_cases) auto
  have "256 * m + unat b = 256 * n + unat c \<longleftrightarrow> m = n \<and> b = c" for m n
    using unat_u8 [of b] unat_u8 [of c]
    by (metis add.commute div_mult_self4 div_less mod_less mod_mult_self2 add_0
        unsigned_word_eqI zero_neq_numeral)
  then show ?case using snoc ys by simp
qed simp

lemma ip_num_div: "k \<le> length xs \<Longrightarrow> ip_num xs div 256 ^ k = ip_num (take (length xs - k) xs)"
proof -
  assume k: "k \<le> length xs"
  then have "ip_num xs = 256 ^ k * ip_num (take (length xs - k) xs) + ip_num (drop (length xs - k) xs)"
    using ip_num_append [of "take (length xs - k) xs" "drop (length xs - k) xs"] by simp
  moreover have "ip_num (drop (length xs - k) xs) < 256 ^ k"
    using ip_num_less [of "drop (length xs - k) xs"] k by simp
  ultimately show ?thesis by simp
qed

section \<open>Network masks\<close>

lemma high_bits_eq:
  assumes "0 < p" "p < 8"
  shows "(x :: u8) AND signed_drop_bit (p - 1) 0x80 = y AND signed_drop_bit (p - 1) 0x80
    \<longleftrightarrow> unat x div 2 ^ (8 - p) = unat y div 2 ^ (8 - p)"
proof -
  have m: "signed_drop_bit (p - 1) (0x80 :: u8) = push_bit (8 - p) (mask p)"
  proof -
    have "p \<in> {1, 2, 3, 4, 5, 6, 7}" using assms by auto
    then show ?thesis by (elim insertE) (simp_all, code_simp+)
  qed
  have "(x AND push_bit (8 - p) (mask p) = y AND push_bit (8 - p) (mask p))
      \<longleftrightarrow> drop_bit (8 - p) x = drop_bit (8 - p) y"
  proof
    assume e: "x AND push_bit (8 - p) (mask p) = y AND push_bit (8 - p) (mask p)"
    show "drop_bit (8 - p) x = drop_bit (8 - p) y"
    proof (rule bit_eqI)
      fix n assume "possible_bit TYPE(u8) n"
      have "bit (x AND push_bit (8 - p) (mask p)) (8 - p + n) =
          bit (y AND push_bit (8 - p) (mask p)) (8 - p + n)" using e by simp
      then show "bit (drop_bit (8 - p) x) n = bit (drop_bit (8 - p) y) n"
        using assms
        by (auto simp: bit_simps dest: bit_imp_le_length)
    qed
  next
    assume "drop_bit (8 - p) x = drop_bit (8 - p) y"
    then have e: "bit x (8 - p + n) = bit y (8 - p + n)" for n
      by (metis bit_drop_bit_eq comp_apply)
    show "x AND push_bit (8 - p) (mask p) = y AND push_bit (8 - p) (mask p)"
    proof (rule bit_eqI)
      fix n assume "possible_bit TYPE(u8) n"
      show "bit (x AND push_bit (8 - p) (mask p)) n = bit (y AND push_bit (8 - p) (mask p)) n"
        using e [of "n - (8 - p)"] by (auto simp: bit_simps)
    qed
  qed
  also have "drop_bit (8 - p) x = drop_bit (8 - p) y \<longleftrightarrow>
      unat x div 2 ^ (8 - p) = unat y div 2 ^ (8 - p)"
  proof -
    have "unat (drop_bit k w) = unat w div 2 ^ k" for k and w :: u8
      by (subst unat_drop_bit_eq) (rule drop_bit_eq_div)
    then show ?thesis by (simp only: word_unat_eq_iff)
  qed
  finally show ?thesis unfolding m .
qed

lemma cidr_div: "cidr \<le> 128 \<Longrightarrow> cidr mod 8 \<noteq> 0 \<Longrightarrow> cidr div 8 < (16::nat)"
  by presburger

lemma nth_network_mask:
  assumes "i < 16" "cidr \<le> 128"
  shows "network_mask cidr ! i =
    (if i < cidr div 8 then 0xff
     else if i = cidr div 8 \<and> cidr mod 8 \<noteq> 0 then signed_drop_bit (cidr mod 8 - 1) 0x80 else 0)"
proof -
  have "cidr div 8 < 16" if "cidr mod 8 \<noteq> 0" using assms that by (intro cidr_div)
  then show ?thesis using assms
    by (auto simp: network_mask_def Let_def nth_append nth_list_update)
qed

lemma networkContainsIPv6_bytes:
  assumes "cidr \<le> 128" "length net = 16" "length ip = 16"
  shows "networkContainsIPv6 net cidr ip \<longleftrightarrow>
    take (cidr div 8) net = take (cidr div 8) ip \<and>
    (cidr mod 8 \<noteq> 0 \<longrightarrow>
      unat (net ! (cidr div 8)) div 2 ^ (8 - cidr mod 8) = unat (ip ! (cidr div 8)) div 2 ^ (8 - cidr mod 8))"
proof -
  have "networkContainsIPv6 net cidr ip \<longleftrightarrow>
      (\<forall>i < 16. ip ! i AND network_mask cidr ! i = net ! i AND network_mask cidr ! i)"
    using assms(1) by (auto simp: networkContainsIPv6_def list_all_iff)
  also have "\<dots> \<longleftrightarrow> (\<forall>i < cidr div 8. ip ! i = net ! i) \<and>
      (cidr mod 8 \<noteq> 0 \<longrightarrow> ip ! (cidr div 8) AND signed_drop_bit (cidr mod 8 - 1) 0x80
         = net ! (cidr div 8) AND signed_drop_bit (cidr mod 8 - 1) 0x80)"
  proof -
    have "cidr div 8 \<le> 16" "cidr mod 8 \<noteq> 0 \<Longrightarrow> cidr div 8 < 16"
      using assms(1) by (auto intro: cidr_div)
    moreover have "(0xff :: u8) = -1" by code_simp
    then have "(x :: u8) AND 0xff = x" for x by (simp only: and.right_neutral)
    ultimately show ?thesis using assms(1)
      by (auto simp: nth_network_mask)
  qed
  also have "(\<forall>i < cidr div 8. ip ! i = net ! i) \<longleftrightarrow> take (cidr div 8) net = take (cidr div 8) ip"
    using assms by (auto simp: list_eq_iff_nth_eq)
  finally show ?thesis using high_bits_eq [of "cidr mod 8" "ip ! (cidr div 8)" "net ! (cidr div 8)"]
    by auto
qed


lemma networkContainsIPv6_num:
  assumes cidr: "cidr \<le> 128" and len: "length net = 16" "length ip = 16"
  shows "networkContainsIPv6 net cidr ip \<longleftrightarrow>
    ip_num net div 2 ^ (128 - cidr) = ip_num ip div 2 ^ (128 - cidr)"
proof -
  define q where "q = cidr div 8"
  define p where "p = cidr mod 8"
  have c: "cidr = 8 * q + p" "p < 8" by (simp_all add: q_def p_def)
  have pow: "(256::nat) ^ k = 2 ^ (8 * k)" for k by (simp add: power_mult)
  show ?thesis
  proof (cases "p = 0")
    case True
    then have k: "128 - cidr = 8 * (16 - q)" "q \<le> 16" using c cidr by auto
    have "ip_num xs div 2 ^ (128 - cidr) = ip_num (take q xs)" if "length xs = 16" for xs
      using ip_num_div [of "16 - q" xs] that k by (simp add: pow)
    then have "ip_num net div 2 ^ (128 - cidr) = ip_num ip div 2 ^ (128 - cidr) \<longleftrightarrow>
        take q net = take q ip" using len by (simp add: ip_num_inj)
    then show ?thesis
      using networkContainsIPv6_bytes [OF cidr len] True by (simp add: q_def p_def)
  next
    case False
    then have q: "q < 16" using cidr_div [OF cidr] by (simp add: q_def p_def)
    have k: "128 - cidr = 8 * (15 - q) + (8 - p)" using c cidr False q by auto
    have e: "ip_num xs div 2 ^ (128 - cidr) = 2 ^ p * ip_num (take q xs) + unat (xs ! q) div 2 ^ (8 - p)"
      if "length xs = 16" for xs
    proof -
      have "ip_num xs div 2 ^ (128 - cidr) = ip_num (take (Suc q) xs) div 2 ^ (8 - p)"
        using ip_num_div [of "15 - q" xs] that q
        by (simp add: k pow power_add div_mult2_eq Suc_diff_le)
      also have "ip_num (take (Suc q) xs) = 2 ^ (8 - p) * (2 ^ p * ip_num (take q xs)) + unat (xs ! q)"
        using that q c(2) by (simp add: take_Suc_conv_app_nth flip: power_add mult.assoc)
      finally show ?thesis by simp
    qed
    have lt: "unat (x :: u8) div 2 ^ (8 - p) < 2 ^ p" for x
      using unat_u8 [of x] c(2) by (simp add: div_less_iff_less_mult flip: power_add)
    have "2 ^ p * m + a = 2 ^ p * n + b \<longleftrightarrow> m = n \<and> a = b" if "a < 2 ^ p" "b < 2 ^ p" for m n a b :: nat
      using that by (metis add.commute add_0 div_less div_mult_self2 mod_less mod_mult_self2
          power_not_zero zero_neq_numeral)
    then have "ip_num net div 2 ^ (128 - cidr) = ip_num ip div 2 ^ (128 - cidr) \<longleftrightarrow>
        take q net = take q ip \<and> unat (net ! q) div 2 ^ (8 - p) = unat (ip ! q) div 2 ^ (8 - p)"
      using lt e len by (simp add: ip_num_inj)
    then show ?thesis
      using networkContainsIPv6_bytes [OF cidr len] False by (simp add: q_def p_def)
  qed
qed

text \<open>C3: \<open>networkContainsIPv6\<close> decides membership of a CIDR block: an address belongs to the
  network exactly when the first \<open>cidr\<close> bits of the two 128-bit numbers agree, for every prefix
  length up to 128, the mask's partial octet included; a longer prefix contains nothing.\<close>

theorem networkContainsIPv6_prefix:
  assumes "length net = 16" and "length ip = 16"
  shows "networkContainsIPv6 net cidr ip \<longleftrightarrow>
    cidr \<le> 128 \<and> ip_num net div 2 ^ (128 - cidr) = ip_num ip div 2 ^ (128 - cidr)"
  using networkContainsIPv6_num [OF _ assms] by (cases "cidr \<le> 128") (auto simp: networkContainsIPv6_def)

theorem networkContainsIPv6_prefix_witness:
  "networkContainsIPv6 ([0x20, 0x01, 0x0d, 0xb8] @ replicate 12 0) 32
     ([0x20, 0x01, 0x0d, 0xb8] @ replicate 11 0 @ [1]) \<longleftrightarrow>
    (32::nat) \<le> 128 \<and> ip_num ([0x20, 0x01, 0x0d, 0xb8] @ replicate 12 0) div 2 ^ (128 - 32)
      = ip_num ([0x20, 0x01, 0x0d, 0xb8] @ replicate 11 0 @ [1]) div 2 ^ (128 - 32)"
  by (rule networkContainsIPv6_prefix) simp_all

section \<open>Reserved IPv4 blocks\<close>

text \<open>The table in the comments of \<^verbatim>\<open>isReservedIPv4\<close>: a flag, the network and its prefix length.\<close>

definition reserved_blocks :: "(u32 \<times> u8 list \<times> nat) list" where
  "reserved_blocks =
    [(IS_IP_BROADCAST, [255, 255, 255, 255], 32), (IS_IP_LOCALHOST, [127, 0, 0, 1], 32),
     (IS_IP_THIS_HOST, [0, 0, 0, 0], 32), (IS_IP_PROTOCOL, [192, 0, 0, 0], 24),
     (IS_IP_TEST_NET_1, [192, 0, 2, 0], 24), (IS_IP_6TO4_ANYCAST, [192, 88, 99, 0], 24),
     (IS_IP_TEST_NET_2, [198, 51, 100, 0], 24), (IS_IP_TEST_NET_3, [203, 0, 113, 0], 24),
     (IS_IP_LINK_LOCAL, [169, 254, 0, 0], 16), (IS_IP_PRIVATE_C, [192, 168, 0, 0], 16),
     (IS_IP_BENCHMARK, [198, 18, 0, 0], 15), (IS_IP_PRIVATE_B, [172, 16, 0, 0], 12),
     (IS_IP_SHARED, [100, 64, 0, 0], 10), (IS_IP_LOOPBACK, [127, 0, 0, 0], 8),
     (IS_IP_PRIVATE_A, [10, 0, 0, 0], 8), (IS_IP_THIS_NET, [0, 0, 0, 0], 8),
     (IS_IP_MULTICAST, [224, 0, 0, 0], 4), (IS_IP_CLASS_E, [240, 0, 0, 0], 4)]"

definition in_block :: "nat \<Rightarrow> u8 list \<Rightarrow> nat \<Rightarrow> bool" where
  "in_block n net len \<longleftrightarrow> n div 2 ^ (32 - len) = ip_num net div 2 ^ (32 - len)"

definition block_reserves :: "u32 \<Rightarrow> nat \<Rightarrow> u32 \<times> u8 list \<times> nat \<Rightarrow> bool" where
  "block_reserves flags n b =
     (case b of (f, net, len) \<Rightarrow>
        flag flags f \<and> in_block n net len
        \<and> (if f = IS_IP_LOOPBACK then n \<noteq> ip_num [127, 0, 0, 1] else True))"

lemma unat_NET_GET_LONG: "unat (NET_GET_LONG p) = ip_num [p ! 0, p ! 1, p ! 2, p ! 3]"
proof -
  have u: "unat (p ! i) < 256" for i by simp
  have "NET_GET_LONG p = push_bit 24 (ucast (p ! 0)) + push_bit 16 (ucast (p ! 1))
      + push_bit 8 (ucast (p ! 2)) + ucast (p ! 3)"
    unfolding NET_GET_LONG_def
    by (subst disjunctive_add [symmetric], auto simp: bit_simps dest: bit_imp_le_length)+
  also have "\<dots> = word_of_nat (16777216 * unat (p ! 0) + 65536 * unat (p ! 1) + 256 * unat (p ! 2)
      + unat (p ! 3))"
    by (simp add: push_bit_eq_mult)
  finally have "NET_GET_LONG p = word_of_nat (ip_num [p ! 0, p ! 1, p ! 2, p ! 3])"
    by (simp add: ip_num_def algebra_simps)
  moreover have "ip_num [p ! 0, p ! 1, p ! 2, p ! 3] < 2 ^ 64"
    using ip_num_less [of "[p ! 0, p ! 1, p ! 2, p ! 3]"] by simp
  ultimately show ?thesis by (simp add: unat_of_nat)
qed

lemma block_mask:
  assumes "unat (x :: u64) < 2 ^ 32" "k \<le> 32" "m = push_bit k (mask (32 - k))"
    "unat b mod 2 ^ k = 0"
  shows "x AND m = b \<longleftrightarrow> unat x div 2 ^ k = unat b div 2 ^ k"
proof -
  have "unat (x AND m) = 2 ^ k * (unat x div 2 ^ k)"
  proof -
    have "x AND m = push_bit k (drop_bit k x)"
    proof (rule bit_eqI)
      fix n assume n: "possible_bit TYPE(u64) n"
      have "bit x n \<Longrightarrow> n < 32"
      proof -
        assume "bit x n"
        then have "bit (unat x) n" by (simp add: bit_unsigned_iff)
        then show "n < 32" using assms(1)
          by (metis bit_take_bit_iff take_bit_nat_eq_self)
      qed
      then show "bit (x AND m) n = bit (push_bit k (drop_bit k x)) n"
        using n by (auto simp: assms(3) bit_simps)
    qed
    then have "unat (x AND m) = unat (push_bit k (drop_bit k x))" by simp
    also have "\<dots> = push_bit k (drop_bit k (unat x)) mod 2 ^ 64"
      by (simp add: unsigned_push_bit_eq unat_drop_bit_eq take_bit_eq_mod)
    also have "\<dots> = push_bit k (unat x div 2 ^ k) mod 2 ^ 64"
      by (simp only: drop_bit_eq_div)
    also have "\<dots> = 2 ^ k * (unat x div 2 ^ k)"
    proof -
      have "2 ^ k * (unat x div 2 ^ k) \<le> unat x" by (rule times_div_less_eq_dividend)
      also have "\<dots> < 2 ^ 64" using assms(1) by simp
      finally have "2 ^ k * (unat x div 2 ^ k) < 2 ^ 64" .
      then show ?thesis by (simp add: push_bit_eq_mult mult.commute)
    qed
    finally show ?thesis .
  qed
  moreover have "unat b = 2 ^ k * (unat b div 2 ^ k)" using assms(4) by auto
  moreover have "x AND m = b \<longleftrightarrow> unat (x AND m) = unat b" by (simp add: word_unat_eq_iff)
  ultimately show ?thesis by (metis mult_cancel1 power_not_zero zero_neq_numeral)
qed

lemma block_eq:
  assumes "length p = 4" "k \<le> 32" "len = 32 - k" "m = push_bit k (mask (32 - k))"
    "b = word_of_nat (ip_num net)" "length net = 4" "ip_num net mod 2 ^ k = 0"
  shows "NET_GET_LONG p AND m = b \<longleftrightarrow> in_block (ip_num p) net len"
proof -
  obtain x y z w where p: "p = [x, y, z, w]"
    using assms(1) by (auto simp: length_Suc_conv numeral_eq_Suc)
  have n: "unat (NET_GET_LONG p) = ip_num p" by (simp add: unat_NET_GET_LONG p)
  have lt: "ip_num p < 2 ^ 32" "ip_num net < 2 ^ 32"
    using ip_num_less [of p] ip_num_less [of net] assms(1,6) by simp_all
  then have b: "unat b = ip_num net" by (simp add: assms(5) unat_of_nat)
  have "32 - (32 - k) = k" using assms(2) by simp
  then show ?thesis
    using block_mask [of "NET_GET_LONG p" k m b] assms(2-4,7) lt n b
    by (simp add: in_block_def)
qed


lemma masks_shape:
  "(0xffffffff :: u64) = push_bit 0 (mask (32 - 0))" "(0xffffff00 :: u64) = push_bit 8 (mask (32 - 8))"
  "(0xffff0000 :: u64) = push_bit 16 (mask (32 - 16))" "(0xfffe0000 :: u64) = push_bit 17 (mask (32 - 17))"
  "(0xfff00000 :: u64) = push_bit 20 (mask (32 - 20))" "(0xffc00000 :: u64) = push_bit 22 (mask (32 - 22))"
  "(0xff000000 :: u64) = push_bit 24 (mask (32 - 24))" "(0xf0000000 :: u64) = push_bit 28 (mask (32 - 28))"
  by (simp_all add: mask_eq_exp_minus_1)

lemma reserved_network:
  assumes "length p = 4"
  shows
    "NET_GET_LONG p AND 0xffffff00 = 0xc0000000 \<longleftrightarrow> in_block (ip_num p) [192, 0, 0, 0] 24"
    "NET_GET_LONG p AND 0xffffff00 = 0xc0000200 \<longleftrightarrow> in_block (ip_num p) [192, 0, 2, 0] 24"
    "NET_GET_LONG p AND 0xffffff00 = 0xc0586300 \<longleftrightarrow> in_block (ip_num p) [192, 88, 99, 0] 24"
    "NET_GET_LONG p AND 0xffffff00 = 0xc6336400 \<longleftrightarrow> in_block (ip_num p) [198, 51, 100, 0] 24"
    "NET_GET_LONG p AND 0xffffff00 = 0xcb007100 \<longleftrightarrow> in_block (ip_num p) [203, 0, 113, 0] 24"
    "NET_GET_LONG p AND 0xffff0000 = 0xa9fe0000 \<longleftrightarrow> in_block (ip_num p) [169, 254, 0, 0] 16"
    "NET_GET_LONG p AND 0xffff0000 = 0xc0a80000 \<longleftrightarrow> in_block (ip_num p) [192, 168, 0, 0] 16"
    "NET_GET_LONG p AND 0xfffe0000 = 0xc6120000 \<longleftrightarrow> in_block (ip_num p) [198, 18, 0, 0] 15"
    "NET_GET_LONG p AND 0xfff00000 = 0xac100000 \<longleftrightarrow> in_block (ip_num p) [172, 16, 0, 0] 12"
    "NET_GET_LONG p AND 0xffc00000 = 0x64400000 \<longleftrightarrow> in_block (ip_num p) [100, 64, 0, 0] 10"
    "NET_GET_LONG p AND 0xff000000 = 0x7f000000 \<longleftrightarrow> in_block (ip_num p) [127, 0, 0, 0] 8"
    "NET_GET_LONG p AND 0xff000000 = 0x0a000000 \<longleftrightarrow> in_block (ip_num p) [10, 0, 0, 0] 8"
    "NET_GET_LONG p AND 0xff000000 = 0x00000000 \<longleftrightarrow> in_block (ip_num p) [0, 0, 0, 0] 8"
    "NET_GET_LONG p AND 0xf0000000 = 0xe0000000 \<longleftrightarrow> in_block (ip_num p) [224, 0, 0, 0] 4"
    "NET_GET_LONG p AND 0xf0000000 = 0xf0000000 \<longleftrightarrow> in_block (ip_num p) [240, 0, 0, 0] 4"
proof -
  note block = block_eq [OF assms]
  show "NET_GET_LONG p AND 0xffffff00 = 0xc0000000 \<longleftrightarrow> in_block (ip_num p) [192, 0, 0, 0] 24"
    by (rule block [where k = 8]) (simp_all add: masks_shape ip_num_def)
  show "NET_GET_LONG p AND 0xffffff00 = 0xc0000200 \<longleftrightarrow> in_block (ip_num p) [192, 0, 2, 0] 24"
    by (rule block [where k = 8]) (simp_all add: masks_shape ip_num_def)
  show "NET_GET_LONG p AND 0xffffff00 = 0xc0586300 \<longleftrightarrow> in_block (ip_num p) [192, 88, 99, 0] 24"
    by (rule block [where k = 8]) (simp_all add: masks_shape ip_num_def)
  show "NET_GET_LONG p AND 0xffffff00 = 0xc6336400 \<longleftrightarrow> in_block (ip_num p) [198, 51, 100, 0] 24"
    by (rule block [where k = 8]) (simp_all add: masks_shape ip_num_def)
  show "NET_GET_LONG p AND 0xffffff00 = 0xcb007100 \<longleftrightarrow> in_block (ip_num p) [203, 0, 113, 0] 24"
    by (rule block [where k = 8]) (simp_all add: masks_shape ip_num_def)
  show "NET_GET_LONG p AND 0xffff0000 = 0xa9fe0000 \<longleftrightarrow> in_block (ip_num p) [169, 254, 0, 0] 16"
    by (rule block [where k = 16]) (simp_all add: masks_shape ip_num_def)
  show "NET_GET_LONG p AND 0xffff0000 = 0xc0a80000 \<longleftrightarrow> in_block (ip_num p) [192, 168, 0, 0] 16"
    by (rule block [where k = 16]) (simp_all add: masks_shape ip_num_def)
  show "NET_GET_LONG p AND 0xfffe0000 = 0xc6120000 \<longleftrightarrow> in_block (ip_num p) [198, 18, 0, 0] 15"
    by (rule block [where k = 17]) (simp_all add: masks_shape ip_num_def)
  show "NET_GET_LONG p AND 0xfff00000 = 0xac100000 \<longleftrightarrow> in_block (ip_num p) [172, 16, 0, 0] 12"
    by (rule block [where k = 20]) (simp_all add: masks_shape ip_num_def)
  show "NET_GET_LONG p AND 0xffc00000 = 0x64400000 \<longleftrightarrow> in_block (ip_num p) [100, 64, 0, 0] 10"
    by (rule block [where k = 22]) (simp_all add: masks_shape ip_num_def)
  show "NET_GET_LONG p AND 0xff000000 = 0x7f000000 \<longleftrightarrow> in_block (ip_num p) [127, 0, 0, 0] 8"
    by (rule block [where k = 24]) (simp_all add: masks_shape ip_num_def)
  show "NET_GET_LONG p AND 0xff000000 = 0x0a000000 \<longleftrightarrow> in_block (ip_num p) [10, 0, 0, 0] 8"
    by (rule block [where k = 24]) (simp_all add: masks_shape ip_num_def)
  show "NET_GET_LONG p AND 0xff000000 = 0x00000000 \<longleftrightarrow> in_block (ip_num p) [0, 0, 0, 0] 8"
    by (rule block [where k = 24]) (simp_all add: masks_shape ip_num_def)
  show "NET_GET_LONG p AND 0xf0000000 = 0xe0000000 \<longleftrightarrow> in_block (ip_num p) [224, 0, 0, 0] 4"
    by (rule block [where k = 28]) (simp_all add: masks_shape ip_num_def)
  show "NET_GET_LONG p AND 0xf0000000 = 0xf0000000 \<longleftrightarrow> in_block (ip_num p) [240, 0, 0, 0] 4"
    by (rule block [where k = 28]) (simp_all add: masks_shape ip_num_def)
qed

lemma exact_address:
  assumes "length p = 4" "length net = 4" "b = word_of_nat (ip_num net)"
  shows "NET_GET_LONG p = b \<longleftrightarrow> in_block (ip_num p) net 32"
proof -
  obtain x y z w where p: "p = [x, y, z, w]"
    using assms(1) by (auto simp: length_Suc_conv numeral_eq_Suc)
  have "unat (NET_GET_LONG p) = ip_num p" by (simp add: unat_NET_GET_LONG p)
  moreover have "unat b = ip_num net"
    using ip_num_less [of net] assms(2) by (simp add: assms(3) unat_of_nat)
  ultimately show ?thesis by (simp add: in_block_def word_unat_eq_iff)
qed

lemma NET_GET_LONG_take: "4 \<le> length p \<Longrightarrow> NET_GET_LONG (take 4 p) = NET_GET_LONG p"
  by (simp add: NET_GET_LONG_def)

text \<open>C4: \<open>isReservedIPv4\<close> implements the table of reserved networks: with a set of flags the
  result is true exactly when some selected network of the table contains the address, where the
  loopback network does not count its address 127.0.0.1 (that is the flag for the local host).\<close>

theorem isReservedIPv4_table:
  assumes "4 \<le> length p"
  shows "isReservedIPv4 (Some p) flags \<longleftrightarrow>
    list_ex (block_reserves flags (ip_num (take 4 p))) reserved_blocks"
proof -
  define q where "q = take 4 p"
  have l: "length q = 4" using assms by (simp add: q_def)
  have g: "NET_GET_LONG p = NET_GET_LONG q"
    unfolding q_def by (rule NET_GET_LONG_take [OF assms, symmetric])
  have e: "NET_GET_LONG q = 0xffffffff \<longleftrightarrow> in_block (ip_num q) [255, 255, 255, 255] 32"
    "NET_GET_LONG q = 0x7f000001 \<longleftrightarrow> in_block (ip_num q) [127, 0, 0, 1] 32"
    "NET_GET_LONG q = 0 \<longleftrightarrow> in_block (ip_num q) [0, 0, 0, 0] 32"
    by (rule exact_address [OF l]; simp add: ip_num_def)+
  have lo: "in_block (ip_num q) [127, 0, 0, 1] 32 \<longleftrightarrow> ip_num q = ip_num [127, 0, 0, 1]"
    by (simp add: in_block_def)
  show ?thesis
    unfolding isReservedIPv4_def option.case Let_def g e reserved_network [OF l] q_def [symmetric] lo
      reserved_blocks_def
    by (simp add: is_ip_flags lo block_reserves_def)
qed

theorem isReservedIPv4_table_witness:
  "isReservedIPv4 (Some [10, 1, 2, 3]) IS_IP_PRIVATE_A \<longleftrightarrow>
    list_ex (block_reserves IS_IP_PRIVATE_A (ip_num (take 4 [10, 1, 2, 3]))) reserved_blocks"
  by (rule isReservedIPv4_table) simp

end
