(* ===== verification/NetReverse.thy ===== *)
theory NetReverse
  imports NetRoundTrip
begin

text \<open>
  \<^verbatim>\<open>net/reverse.c\<close> (the names of DNS reverse lookups), \<^verbatim>\<open>net/findIP.c\<close> (the first address in a
  text) and \<^verbatim>\<open>net/isRFC2606.c\<close> (reserved top-level domains).
\<close>

section \<open>Reversing the segments of a name\<close>

text \<open>The second loop of \<^verbatim>\<open>reverseSegmentOrder\<close>: \<open>off\<close> is the distance \<open>buffer\<close> has advanced.\<close>

function segment_loop :: "string \<Rightarrow> nat \<Rightarrow> string \<Rightarrow> string" where
  "segment_loop delims off buf =
     (let span = strcspn (cstring_of (drop off buf)) delims
      in if 0 < span
         then segment_loop delims
                (off + span + (if char_at buf (off + span) \<noteq> NUL then 1 else 0))
                (swap_loop off (off + span) buf)
         else buf)"
  by pat_completeness auto
termination
proof (relation "measure (\<lambda>(delims, off, buf). length buf - off)", goal_cases)
  case (2 delims off buf span)
  then have "span \<le> length (cstring_of (drop off buf))" by simp
  also have "\<dots> \<le> length buf - off"
    unfolding cstring_of_def using length_takeWhile_le [of _ "drop off buf"] by simp
  finally show ?case using 2 by auto
qed simp

declare segment_loop.simps [simp del]

text \<open>The result is the returned length and the buffer of \<open>size\<close> characters.\<close>

definition reverseSegmentOrder :: "string option \<Rightarrow> string \<Rightarrow> string \<Rightarrow> nat \<Rightarrow> nat \<times> string" where
  "reverseSegmentOrder string delims buffer sz =
     (case string of
        None \<Rightarrow> (0, buffer)
      | Some s \<Rightarrow>
          if sz = 0 then (0, buffer)
          else
            let (buf, n) = TextCopy buffer sz s
            in if sz \<le> n then (n, buf)
               else
                 let trail = (0 < n \<and> strchr delims (buf ! (n - 1)) \<noteq> None);
                     buf = (if trail then buf[n - 1 := NUL] else buf);
                     n = (if trail then n - 1 else n)
                 in (n, segment_loop delims 0 (swap_loop 0 n buf)))"

text \<open>\<^verbatim>\<open>reverseByNibble\<close>: the groups after this one first, then its four nibbles from the least.\<close>

fun nibble_loop :: "nat \<Rightarrow> nat \<Rightarrow> nat \<Rightarrow> nat \<Rightarrow> string \<Rightarrow> nat \<times> string" where
  "nibble_loop 0 word sz len buf = (len, buf)"
| "nibble_loop (Suc i) word sz len buf =
     (let str = hex_str (word mod 16) @ ''.'';
          buf = snprintf_at buf len (sz - len) str
      in if sz - len \<le> length str then (len, buf)
         else nibble_loop i (word div 16) sz (len + length str) buf)"

function reverseByNibble :: "string \<Rightarrow> string \<Rightarrow> nat \<Rightarrow> nat \<times> string" where
  "reverseByNibble grp buffer sz =
     (let (v, stop) = strtol 16 grp;
          word = nat (v mod 65536);
          (len, buf) = (if deref stop = CHR '':'' then reverseByNibble (tl stop) buffer sz
                        else (0, buffer))
      in nibble_loop 4 word sz len buf)"
  by pat_completeness auto
termination
proof (relation "measure (\<lambda>(g, b, sz). length g)", goal_cases)
  case (2 g b sz x v stop y)
  then have "length stop \<le> length g" "stop \<noteq> []" by (metis strtol_length, auto)
  then show ?case by (cases stop) auto
qed simp

declare reverseByNibble.simps [simp del]

definition strstr :: "string \<Rightarrow> string \<Rightarrow> bool" where
  "strstr s t \<longleftrightarrow> list_ex (\<lambda>i. take (length t) (drop i s) = t) [0..<Suc (length s)]"

text \<open>\<open>TextCopy (buffer + length, size - length, str)\<close>: the count is a \<open>size_t\<close>, so it wraps to a
  huge one when \<open>length\<close> exceeds \<open>size\<close>, and the copy leaves the buffer.\<close>

definition append_at :: "string \<Rightarrow> nat \<Rightarrow> nat \<Rightarrow> string \<Rightarrow> fault + nat \<times> string" where
  "append_at buf len sz str =
     (if sz < len then Inl OutOfBounds
      else let (t, n) = TextCopy (drop len buf) (sz - len) str in Inr (len + n, take len buf @ t))"

text \<open>\<open>ipv60\<close> and \<open>ip0\<close> are what the two arrays on the C stack hold at first.\<close>

definition reverseSegments ::
    "u8 list \<Rightarrow> string \<Rightarrow> string \<Rightarrow> string \<Rightarrow> string \<Rightarrow> nat \<Rightarrow> bool \<Rightarrow> fault + nat \<times> string" where
  "reverseSegments ipv60 ip0 source delims buffer sz arpa =
     (let source = (if TextInsensitiveCompareN (Some source) (Some ''IPv6:'') 5 = 0
                    then drop 5 source else source)
      in if strchr source CHR '':'' = None then
           let (len, buf) = reverseSegmentOrder (Some source) delims buffer sz
           in if arpa then append_at buf len sz ''.in-addr.arpa.'' else Inr (len, buf)
         else
           case (if strstr source ''::''
                 then (case parseIPv6 (Some source) (Some ipv60) of
                         Inl e \<Rightarrow> Inl e
                       | Inr (n, ipv6) \<Rightarrow>
                           Inr (cstring_of (the (snd (formatIP ipv6 16 0 (Some ip0) 40)))))
                 else Inr source) of
             Inl e \<Rightarrow> Inl e
           | Inr source \<Rightarrow>
               let (len, buf) = reverseByNibble source buffer sz
               in if len = 0 then Inl OutOfBounds
                  else
                    let dot = (buf ! (len - 1) = CHR ''.'');
                        buf = (if dot then buf[len - 1 := NUL] else buf);
                        len = (if dot then len - 1 else len)
                    in if arpa then append_at buf len sz ''.ip6.arpa.'' else Inr (len, buf))"

definition reverseIp ::
    "u8 list \<Rightarrow> string \<Rightarrow> string \<Rightarrow> string \<Rightarrow> nat \<Rightarrow> bool \<Rightarrow> fault + nat \<times> string" where
  "reverseIp ipv60 ip0 source buffer sz arpa = reverseSegments ipv60 ip0 source ''.'' buffer sz arpa"

section \<open>Finding an address in a text\<close>

text \<open>\<^verbatim>\<open>findIPv4\<close> and \<^verbatim>\<open>findIPv6\<close> go from one delimiter to the next, back up over at most three or
  four digits before it, and scan from there. The result is the offset of the address and its
  span.\<close>

fun back_up :: "(char \<Rightarrow> bool) \<Rightarrow> nat \<Rightarrow> string \<Rightarrow> nat \<Rightarrow> nat" where
  "back_up digit 0 s i = i"
| "back_up digit (Suc k) s i = (if 0 < i \<and> digit (s ! (i - 1)) then back_up digit k s (i - 1) else i)"

function findIP_loop ::
    "char \<Rightarrow> (char \<Rightarrow> bool) \<Rightarrow> nat \<Rightarrow> (string \<Rightarrow> nat) \<Rightarrow> string \<Rightarrow> nat \<Rightarrow> (nat \<times> nat) option" where
  "findIP_loop c digit k span s i =
     (case strchr (drop i s) c of
        None \<Rightarrow> None
      | Some r \<Rightarrow>
          if r = [] then None
          else
            let delim = length s - length r;
                ip = back_up digit k s delim;
                n = span (drop ip s)
            in if ip < delim \<and> 0 < n then Some (ip, n)
               else findIP_loop c digit k span s (delim + 1))"
  by pat_completeness auto
termination
proof (relation "measure (\<lambda>(c, digit, k, span, s, i). length s - i)", goal_cases)
  case (2 c digit k span s i r delim ip n)
  have "length r \<le> length (drop i s)"
    using 2 length_dropWhile_le [of "\<lambda>x. x \<noteq> c" "drop i s"]
    by (auto simp: strchr_def Let_def split: if_splits)
  moreover obtain x r' where "r = x # r'" using 2 by (cases r) auto
  ultimately show ?case using 2(3) by simp
qed simp

declare findIP_loop.simps [simp del]

definition find_result :: "(nat \<times> nat) option \<Rightarrow> nat option \<times> int \<times> nat" where
  "find_result r = (case r of None \<Rightarrow> (None, -1, 0) | Some (ip, n) \<Rightarrow> (Some ip, int ip, n))"

definition findIPv4 :: "string \<Rightarrow> nat option \<times> int \<times> nat" where
  "findIPv4 s = find_result (findIP_loop CHR ''.'' isdigit 3 (\<lambda>t. spanIPv4 (Some t)) s 0)"

definition findIPv6 :: "string \<Rightarrow> nat option \<times> int \<times> nat" where
  "findIPv6 s = find_result (findIP_loop CHR '':'' isxdigit 4 (\<lambda>t. spanIPv6 (Some t)) s 0)"

definition findIP :: "string \<Rightarrow> nat option \<times> int \<times> nat" where
  "findIP s =
     (let (s6, offset6, span6) = findIPv6 s;
          (s4, offset4, span4) = findIPv4 s
      in if offset6 < 0 \<or> (0 \<le> offset4 \<and> offset4 < offset6) then (s4, offset4, span4)
         else (s6, offset6, span6))"

section \<open>Reserved top-level domains\<close>

definition IS_TLD_TEST :: u64 where "IS_TLD_TEST = 0x00000001"
definition IS_TLD_EXAMPLE :: u64 where "IS_TLD_EXAMPLE = 0x00000002"
definition IS_TLD_INVALID :: u64 where "IS_TLD_INVALID = 0x00000004"
definition IS_TLD_LOCALHOST :: u64 where "IS_TLD_LOCALHOST = 0x00000008"
definition IS_TLD_LOCALDOMAIN :: u64 where "IS_TLD_LOCALDOMAIN = 0x00000010"
definition IS_TLD_LOCAL :: u64 where "IS_TLD_LOCAL = 0x00000020"
definition IS_TLD_LAN :: u64 where "IS_TLD_LAN = 0x00000040"
definition IS_TLD_HOME :: u64 where "IS_TLD_HOME = 0x00000080"
definition IS_TLD_ARPA :: u64 where "IS_TLD_ARPA = 0x00000100"
definition IS_TLD_ONION :: u64 where "IS_TLD_ONION = 0x00000200"
definition IS_TLD_ANY_RESERVED :: u64 where "IS_TLD_ANY_RESERVED = NOT 0"

definition strrchr :: "string \<Rightarrow> char \<Rightarrow> string option" where
  "strrchr s c =
     (if c \<in> set s then Some (c # rev (takeWhile (\<lambda>x. x \<noteq> c) (rev s))) else None)"

definition isReservedTLD :: "string option \<Rightarrow> u64 \<Rightarrow> bool" where
  "isReservedTLD path flags =
     (case path of
        None \<Rightarrow> False
      | Some path \<Rightarrow>
          (case strrchr path CHR ''.'' of
             None \<Rightarrow> False
           | Some dot \<Rightarrow>
               let tld = (\<lambda>f s. flags AND f \<noteq> 0 \<and> TextInsensitiveCompare (Some dot) (Some s) = 0);
                   at = length path - length dot;
                   p = at + 1 - 8
               in tld IS_TLD_TEST ''.test'' \<or> tld IS_TLD_EXAMPLE ''.example''
                  \<or> tld IS_TLD_INVALID ''.invalid'' \<or> tld IS_TLD_LOCALHOST ''.localhost''
                  \<or> tld IS_TLD_LOCALDOMAIN ''.localdomain'' \<or> tld IS_TLD_LOCAL ''.local''
                  \<or> tld IS_TLD_LAN ''.lan'' \<or> tld IS_TLD_HOME ''.home'' \<or> tld IS_TLD_ARPA ''.arpa''
                  \<or> tld IS_TLD_ONION ''.onion''
                  \<or> (flags AND IS_TLD_EXAMPLE \<noteq> 0 \<and> 8 \<le> at + 1
                     \<and> 0 < TextInsensitiveStartsWith (Some (drop p path)) (Some ''example.'')
                     \<and> (p = 0 \<or> (path ! (p - 1) \<noteq> CHR ''-'' \<and> \<not> isalnum (path ! (p - 1)))))))"

definition isRFC2606 :: "string option \<Rightarrow> bool" where
  "isRFC2606 path = isReservedTLD path IS_TLD_ANY_RESERVED"

section \<open>Segments come out in reverse order\<close>

definition segment_ok :: "string \<Rightarrow> string \<Rightarrow> bool" where
  "segment_ok delims x \<longleftrightarrow> x \<noteq> [] \<and> NUL \<notin> set x \<and> set x \<inter> set delims = {}"

lemma cstring_of_append: "NUL \<notin> set s \<Longrightarrow> cstring_of (s @ NUL # t) = s"
  by (simp add: cstring_of_def takeWhile_append)

lemma strcspn_segment:
  assumes "segment_ok delims x" "t = [] \<or> deref t \<in> set delims"
  shows "strcspn (x @ t) delims = length x"
proof -
  have x: "\<forall>c \<in> set x. c \<notin> set delims" using assms(1) by (auto simp: segment_ok_def)
  have "takeWhile (\<lambda>c. c \<notin> set delims) t = []" using assms(2) by (cases t) auto
  then show ?thesis using x by (simp add: strcspn_def takeWhile_append)
qed

lemma segment_loop_joined:
  assumes "xs \<noteq> []" "\<forall>x \<in> set xs. segment_ok delims x" "d \<in> set delims" "d \<noteq> NUL"
  shows "segment_loop delims (length a) (a @ join_with [d] xs @ NUL # b) =
    a @ join_with [d] (map rev xs) @ NUL # b"
  using assms(1,2)
proof (induction "[d]" xs arbitrary: a rule: join_with.induct)
  case (2 x)
  have x: "segment_ok delims x" "x \<noteq> []" "NUL \<notin> set x" using 2 by (auto simp: segment_ok_def)
  have "strcspn (cstring_of (x @ NUL # b)) delims = length x"
    using strcspn_segment [OF x(1), of "[]"] x by (simp add: cstring_of_append)
  moreover have "segment_loop delims (length a + length x) (a @ rev x @ NUL # b) = a @ rev x @ NUL # b"
    by (subst segment_loop.simps) (simp add: cstring_of_def strcspn_def)
  ultimately show ?case using x
    by (subst segment_loop.simps) (simp add: Let_def swap_segment char_at_def nth_append)
next
  case (3 x y ys)
  let ?r = "join_with [d] (y # ys)"
  have x: "segment_ok delims x" "x \<noteq> []" "NUL \<notin> set x" using 3 by (auto simp: segment_ok_def)
  have "\<forall>z \<in> set (y # ys). NUL \<notin> set z" using 3 by (auto simp: segment_ok_def)
  then have "NUL \<notin> set ?r"
    using assms(4) by (induction "[d]" "y # ys" arbitrary: y ys rule: join_with.induct) auto
  then have "cstring_of (x @ [d] @ ?r @ NUL # b) = x @ [d] @ ?r"
    using x assms(4) cstring_of_append [of "x @ [d] @ ?r" b] by simp
  then have sp: "strcspn (cstring_of (x @ [d] @ ?r @ NUL # b)) delims = length x"
    using strcspn_segment [OF x(1), of "[d] @ ?r"] assms(3) by simp
  have "segment_loop delims (length a) (a @ join_with [d] (x # y # ys) @ NUL # b) =
      segment_loop delims (length (a @ rev x @ [d])) ((a @ rev x @ [d]) @ ?r @ NUL # b)"
    using x sp assms(4)
    by (subst segment_loop.simps)
      (simp add: Let_def swap_segment char_at_def nth_append)
  also have "\<dots> = (a @ rev x @ [d]) @ join_with [d] (map rev (y # ys)) @ NUL # b"
    using 3 by (intro "3.hyps") auto
  finally show ?case by simp
qed simp

lemma TextCopy_fits:
  assumes "NUL \<notin> set s" "length s < sz" "sz \<le> length buf"
  shows "TextCopy buf sz s = (s @ NUL # drop (length s + 1) buf, length s)"
  using assms textcopy_loop_eq [of s sz buf 0] by (simp add: TextCopy_def Let_def)

lemma swap_prefix: "swap_loop 0 (length x) (x @ b) = rev x @ b"
  using swap_segment [of "[]" x b] by simp

lemma strchr_iff: "c \<noteq> NUL \<Longrightarrow> strchr s c \<noteq> None \<longleftrightarrow> c \<in> set s"
  using in_set_iff [of c s] by (simp add: in_set_def)

text \<open>\<open>reverseSegmentOrder\<close> reverses the order of the segments of a name and keeps each
  segment as it is: for non-empty segments joined by a delimiter, with or without a trailing delimiter,
  that fit the buffer, it writes the segments in reverse order joined by the same delimiter
  and returns the length of that.\<close>

lemma reverseSegmentOrder_reverses:
  assumes "segs \<noteq> []" and "\<forall>x \<in> set segs. segment_ok delims x" and "d \<in> set delims" and "d \<noteq> NUL"
    and "trail = [] \<or> trail = [d]" and "length (join_with [d] segs @ trail) < sz"
    and "sz \<le> length buffer"
  shows "fst (reverseSegmentOrder (Some (join_with [d] segs @ trail)) delims buffer sz)
      = length (join_with [d] segs)
    \<and> cstring_of (snd (reverseSegmentOrder (Some (join_with [d] segs @ trail)) delims buffer sz))
      = join_with [d] (rev segs)"
proof -
  let ?j = "join_with [d] segs"
  have nn: "NUL \<notin> set (join_with [d] xs)" if "\<forall>x \<in> set xs. segment_ok delims x" for xs
    using that assms(4) by (induction "[d]" xs rule: join_with.induct) (auto simp: segment_ok_def)
  have ne: "?j \<noteq> []"
    using assms(1,2) by (cases segs rule: list.exhaust; cases "tl segs") (auto simp: segment_ok_def)
  have last: "last ?j \<notin> set delims \<and> last ?j \<noteq> NUL"
  proof -
    obtain ys y where y: "segs = ys @ [y]" using assms(1) by (cases segs rule: rev_cases) auto
    then have "y \<noteq> []" "set y \<inter> set delims = {}" "NUL \<notin> set y" using assms(2) by (auto simp: segment_ok_def)
    moreover have "last ?j = last y"
      using join_with_snoc [of ys "[d]" y] y calculation(1) by (cases "ys = []") auto
    ultimately show ?thesis by (metis disjoint_iff last_in_set)
  qed
  have cp: "TextCopy buffer sz (?j @ trail) =
      ((?j @ trail) @ NUL # drop (length (?j @ trail) + 1) buffer, length (?j @ trail))"
    using assms nn [OF assms(2)] by (intro TextCopy_fits) auto
  have seg: "segment_loop delims 0 (rev ?j @ NUL # b) = join_with [d] (rev segs) @ NUL # b" for b
    using segment_loop_joined [of "map rev (rev segs)" delims d "[]" b] assms
    by (simp add: rev_join_with segment_ok_def rev_map comp_def)
  have "\<exists>b. reverseSegmentOrder (Some (?j @ trail)) delims buffer sz =
      (length ?j, segment_loop delims 0 (rev ?j @ NUL # b))"
  proof (cases "trail = []")
    case True
    have "(?j @ x) ! (length ?j - 1) = last ?j" for x
      using ne by (simp add: nth_append last_conv_nth)
    then show ?thesis
      using True cp ne last assms(6) strchr_iff [of "last ?j" delims]
      by (auto simp: reverseSegmentOrder_def Let_def swap_prefix)
  next
    case False
    then have t: "trail = [d]" using assms(5) by simp
    have "strchr delims d \<noteq> None" using assms(3,4) strchr_iff [of d delims] by blast
    then have "reverseSegmentOrder (Some (?j @ trail)) delims buffer sz =
        (length ?j, segment_loop delims 0 (swap_loop 0 (length ?j)
          (?j @ NUL # NUL # drop (length (?j @ trail) + 1) buffer)))"
      using cp assms(6) by (auto simp: reverseSegmentOrder_def Let_def t nth_append list_update_append)
    then show ?thesis by (auto simp: swap_prefix)
  qed
  then show ?thesis using seg nn [of "rev segs"] assms(2)
    by (auto simp: cstring_of_append)
qed

section \<open>The nibbles of an IPv6 address\<close>

definition nibbles :: "nat \<Rightarrow> string" where
  "nibbles w = hex_str (w mod 16) @ ''.'' @ hex_str (w div 16 mod 16) @ ''.''
     @ hex_str (w div 256 mod 16) @ ''.'' @ hex_str (w div 4096 mod 16) @ ''.''"

lemma length_hex_nibble [simp]: "length (hex_str (n mod 16)) = Suc 0"
  by (subst num_str.simps) simp

lemma length_nibbles [simp]: "length (nibbles w) = 8"
  by (simp add: nibbles_def)

lemma nibble_loop_step:
  assumes "fits out junk 2 sz"
  shows "\<exists>junk'. nibble_loop (Suc i) w sz (length out) (out @ junk) =
      nibble_loop i (w div 16) sz (length (out @ hex_str (w mod 16) @ ''.''))
        ((out @ hex_str (w mod 16) @ ''.'') @ junk') \<and> length junk = 2 + length junk'
        \<and> (\<exists>t. junk' = NUL # t)"
proof -
  have "fits out junk (length (hex_str (w mod 16) @ ''.'')) sz"
    using assms by (simp add: numeral_2_eq_2)
  from write_str [OF this] obtain j where j: "snprintf_at (out @ junk) (length out) (sz - length out)
      (hex_str (w mod 16) @ ''.'') = (out @ hex_str (w mod 16) @ ''.'') @ j"
    "length junk = 2 + length j" "j \<noteq> [] \<and> hd j = NUL" by auto
  moreover have "\<not> sz - length out \<le> length (hex_str (w mod 16) @ ''.'')"
    using assms unfolding fits_def by (simp only: length_append length_hex_nibble list.size) linarith
  moreover have "\<exists>t. j = NUL # t" using j(3) by (cases j) auto
  ultimately show ?thesis by (auto simp: Let_def)
qed

lemma nibble_loop_4:
  assumes "fits out junk 8 sz"
  shows "\<exists>t. nibble_loop 4 w sz (length out) (out @ junk) =
      (length (out @ nibbles w), (out @ nibbles w) @ NUL # t) \<and> length junk = 9 + length t"
proof -
  have 4: "nibble_loop 4 = nibble_loop (Suc (Suc (Suc (Suc 0))))" by (simp add: numeral_eq_Suc)
  from nibble_loop_step [OF fits_mono [OF assms, of 2], of 3 w] obtain j1 where
    1: "nibble_loop 4 w sz (length out) (out @ junk) =
      nibble_loop 3 (w div 16) sz (length (out @ hex_str (w mod 16) @ ''.''))
        ((out @ hex_str (w mod 16) @ ''.'') @ j1)" "length junk = 2 + length j1" by auto
  let ?o1 = "out @ hex_str (w mod 16) @ ''.''"
  have f1: "fits ?o1 j1 6 sz" using 1(2) by (intro fits_append [OF assms]) simp_all
  from nibble_loop_step [OF fits_mono [OF f1, of 2], of 2 "w div 16"] obtain j2 where
    2: "nibble_loop 3 (w div 16) sz (length ?o1) (?o1 @ j1) =
      nibble_loop 2 (w div 256) sz (length (?o1 @ hex_str (w div 16 mod 16) @ ''.''))
        ((?o1 @ hex_str (w div 16 mod 16) @ ''.'') @ j2)" "length j1 = 2 + length j2"
    by (auto simp: div_mult2_eq [symmetric])
  let ?o2 = "?o1 @ hex_str (w div 16 mod 16) @ ''.''"
  have f2: "fits ?o2 j2 4 sz" using 2(2) by (intro fits_append [OF f1]) simp_all
  from nibble_loop_step [OF fits_mono [OF f2, of 2], of 1 "w div 256"] obtain j3 where
    3: "nibble_loop 2 (w div 256) sz (length ?o2) (?o2 @ j2) =
      nibble_loop 1 (w div 4096) sz (length (?o2 @ hex_str (w div 256 mod 16) @ ''.''))
        ((?o2 @ hex_str (w div 256 mod 16) @ ''.'') @ j3)" "length j2 = 2 + length j3"
    by (auto simp: div_mult2_eq [symmetric] numeral_2_eq_2)
  let ?o3 = "?o2 @ hex_str (w div 256 mod 16) @ ''.''"
  have f3: "fits ?o3 j3 2 sz" using 3(2) by (intro fits_append [OF f2]) simp_all
  from nibble_loop_step [OF f3, of 0 "w div 4096"] obtain t where
    4: "nibble_loop 1 (w div 4096) sz (length ?o3) (?o3 @ j3) =
      (length (?o3 @ hex_str (w div 4096 mod 16) @ ''.''),
        (?o3 @ hex_str (w div 4096 mod 16) @ ''.'') @ NUL # t)" "length j3 = 2 + Suc (length t)"
    by auto
  show ?thesis
    using 1 2 3 4 by (intro exI [of _ t]) (simp add: nibbles_def)
qed

lemma reverseByNibble_joined:
  assumes "ws \<noteq> []" "\<forall>w \<in> set ws. w < 65536" "8 * length ws < sz" "length buffer = sz"
  shows "\<exists>t. reverseByNibble (joined m ws) buffer sz =
    (8 * length ws, concat (map nibbles (rev ws)) @ NUL # t)
    \<and> 8 * length ws + 1 + length t = sz"
  using assms(1-3)
proof (induction m ws rule: joined.induct)
  case (2 m w)
  have w: "w < 65536" "nat (int w mod 65536) = w" using 2 by (simp_all add: nat_mod_as_int)
  have "fits [] buffer 8 sz" using 2 assms(4) by (simp add: fits_def)
  from nibble_loop_4 [OF this, of w] obtain t where
    "nibble_loop 4 w sz 0 buffer = (8, nibbles w @ NUL # t)" "length buffer = 9 + length t" by auto
  then show ?case using w strtol_fmt_word [OF w(1), of "[]" m] assms(4)
    by (subst reverseByNibble.simps) simp
next
  case (3 m w v ws)
  have w: "w < 65536" "nat (int w mod 65536) = w" using 3 by (simp_all add: nat_mod_as_int)
  from 3 obtain t where t: "reverseByNibble (joined m (v # ws)) buffer sz =
      (8 * length (v # ws), concat (map nibbles (rev (v # ws))) @ NUL # t)"
    "8 * length (v # ws) + 1 + length t = sz" by auto
  let ?o = "concat (map nibbles (rev (v # ws)))"
  have lo: "length ?o = 8 * length (v # ws)"
  proof -
    have "length (concat (map nibbles xs)) = 8 * length xs" for xs by (induction xs) simp_all
    then show ?thesis by (metis length_rev)
  qed
  have "fits ?o (NUL # t) 8 sz" unfolding fits_def lo using 3(4) t(2) by simp
  from nibble_loop_4 [OF this, of w] obtain t' where
    "nibble_loop 4 w sz (length ?o) (?o @ NUL # t) =
      (length (?o @ nibbles w), (?o @ nibbles w) @ NUL # t')" "length (NUL # t) = 9 + length t'"
    by blast
  then show ?case using w strtol_fmt_word [OF w(1), of "CHR '':'' # joined m (v # ws)" m] t lo
    by (subst reverseByNibble.simps) (auto simp: add.commute intro!: exI [of _ t'])
qed simp


text \<open>No two colons are adjacent in the full form, so it is not taken for a compact address.\<close>

lemma fmt_word_no_colon: "CHR '':'' \<notin> set (fmt_word m w)"
  using fmt_word_digits [of "CHR '':''" m w] hex_not_colon by blast

lemma sublist_strstr: "strstr s t \<longleftrightarrow> sublist t s"
proof
  assume "strstr s t"
  then obtain i where "take (length t) (drop i s) = t" by (auto simp: strstr_def list_ex_iff)
  then have "s = take i s @ t @ drop (length t) (drop i s)" by (metis append_take_drop_id)
  then show "sublist t s" unfolding sublist_def by blast
next
  assume "sublist t s"
  then obtain a b where "s = a @ t @ b" by (auto simp: sublist_def)
  then show "strstr s t"
    by (auto simp: strstr_def list_ex_iff intro!: bexI [of _ "length a"])
qed

lemma sublist_colons_append:
  "CHR '':'' \<notin> set a \<Longrightarrow> sublist ''::'' (a @ b) \<longleftrightarrow> sublist ''::'' b"
proof (induction a)
  case (Cons c a)
  then show ?case by (cases "a @ b") (auto simp: sublist_Cons_right)
qed simp

lemma joined_no_double_colon: "\<not> strstr (joined m ws) ''::''"
  unfolding sublist_strstr
proof (induction m ws rule: joined.induct)
  case (2 m w)
  then show ?case using sublist_colons_append [OF fmt_word_no_colon, of m w "[]"] by simp
next
  case (3 m w v ws)
  have "deref (joined m (v # ws)) \<noteq> CHR '':''" by simp
  then have "\<not> sublist ''::'' (CHR '':'' # joined m (v # ws))"
    using 3 by (cases "joined m (v # ws)") (auto simp: sublist_Cons_right)
  then show ?case using sublist_colons_append [OF fmt_word_no_colon] by simp
qed simp

lemma joined_chars: "c \<in> set (joined m ws) \<Longrightarrow> ipv6_char c"
  by (induction m ws rule: joined.induct) (auto simp: ipv6_char_def dest: fmt_word_digits)

lemma joined_not_tagged: "TextInsensitiveCompareN (Some (joined m ws)) (Some ''IPv6:'') 5 \<noteq> 0"
proof
  assume e: "TextInsensitiveCompareN (Some (joined m ws)) (Some ''IPv6:'') 5 = 0"
  have "NUL \<notin> set (joined m ws)" using joined_chars ipv6_char_not by blast
  then have "map tolower (take 5 (joined m ws)) = map tolower (take 5 ''IPv6:'')"
    using casecmp_loop_eq_0_N [of "joined m ws" "''IPv6:''" 5] e
    by (simp add: TextInsensitiveCompareN_def)
  moreover have "tolower CHR ''I'' = CHR ''i''" by code_simp
  moreover have "tolower a \<noteq> CHR ''i''" if "joined m ws = a # l" for a l
    using joined_chars [of a m ws] ipv6_char_not [of a] that by simp
  ultimately show False by (cases "joined m ws") auto
qed

lemma append_at_fits:
  assumes "len + length str < sz" "length buf = sz" "NUL \<notin> set str"
  shows "append_at buf len sz str =
    Inr (len + length str, take len buf @ str @ NUL # drop (len + length str + 1) buf)"
  using assms TextCopy_fits [of str "sz - len" "drop len buf"]
  by (simp add: append_at_def add.commute)

text \<open>The words of an IPv4-mapped or IPv4-compatible address: \<open>formatIP\<close> writes a dotted tail for them.\<close>

definition v4_form :: "nat list \<Rightarrow> bool" where
  "v4_form ws \<longleftrightarrow> take 6 ws = [0, 0, 0, 0, 0, 0] \<or> take 6 ws = [0, 0, 0, 0, 0, 0xffff]"

lemma emit_dotted:
  assumes "emit m k k ws = (k', z', u)" "k + length ws = 8" "has_dotted k' z'"
  shows "k \<le> 6 \<and> take (6 - k) ws = replicate (6 - k) 0 \<or>
    k \<le> 5 \<and> take (6 - k) ws = replicate (5 - k) 0 @ [0xffff]"
  using assms
proof (induction ws arbitrary: k k' z' u)
  case (Cons w ws)
  show ?case
  proof (cases "w = 0")
    case True
    then obtain u' where "emit m (k + 1) (k + 1) ws = (k', z', u')"
      using Cons.prems(1) by (auto simp: Let_def split: prod.splits if_splits)
    from Cons.IH [OF this _ Cons.prems(3)] Cons.prems(2)
    consider "k \<le> 5" "take (5 - k) ws = replicate (5 - k) 0"
      | "k \<le> 4" "take (5 - k) ws = replicate (4 - k) 0 @ [0xffff]" by auto
    then show ?thesis
    proof cases
      case 1
      then have "6 - k = Suc (5 - k)" by simp
      then show ?thesis using 1 True by simp
    next
      case 2
      then have "6 - k = Suc (5 - k)" "5 - k = Suc (4 - k)" by simp_all
      then show ?thesis using 2 True by simp
    qed
  next
    case False
    show ?thesis
    proof (cases "k = 6 \<or> k = 5 \<and> w = 0xffff")
      case True
      then show ?thesis by auto
    next
      case other: False
      have "emit m (k + 1) k ws = (8, k, joined m ws)" using Cons.prems(2) by (intro emit_plain) simp_all
      then have "z' = k" "k' = 8" using Cons.prems(1) False other by (auto simp: Let_def)
      then show ?thesis using Cons.prems(3) by (simp add: has_dotted_def)
    qed
  qed
qed (simp add: has_dotted_def)

lemma emit_not_dotted:
  assumes "length ws = 8" "\<not> v4_form ws" "emit m 0 0 ws = (k, z, u)"
  shows "\<not> has_dotted k z"
proof
  assume "has_dotted k z"
  then have "take 6 ws = replicate 6 0 \<or> take 6 ws = replicate 5 0 @ [0xffff]"
    using emit_dotted [OF assms(3)] assms(1) by simp
  moreover have "replicate 6 (0::nat) = [0, 0, 0, 0, 0, 0]" "replicate 5 (0::nat) = [0, 0, 0, 0, 0]"
    by (simp_all add: numeral_eq_Suc)
  ultimately show False using assms(2) by (simp add: v4_form_def)
qed

lemma octs_inject:
  assumes "octs vs = octs ws" "length vs = length ws" "\<forall>w \<in> set vs. w < 65536" "\<forall>w \<in> set ws. w < 65536"
  shows "vs = ws"
  using assms(2,1,3,4)
proof (induction vs ws rule: list_induct2)
  case (Cons v vs w ws)
  have u: "unat (word_of_nat n :: u8) = n" if "n < 256" for n
    using that by (simp add: unsigned_of_nat take_bit_eq_mod)
  have inj: "a = b" if "(word_of_nat a :: u8) = word_of_nat b" "a < 256" "b < 256" for a b
    using u [OF that(2)] u [OF that(3)] unfolding that(1) by simp
  have "v < 256 * 256" "w < 256 * 256" using Cons.prems(2,3) by simp_all
  then have lt: "v div 256 < 256" "w div 256 < 256" by (simp_all only: less_mult_imp_div_less)
  have eq: "(word_of_nat (v div 256) :: u8) = word_of_nat (w div 256)"
    "(word_of_nat (v mod 256) :: u8) = word_of_nat (w mod 256)" "octs vs = octs ws"
    using Cons.prems(1) by simp_all
  have "v div 256 = w div 256" by (rule inj [OF eq(1) lt])
  moreover have "v mod 256 = w mod 256" by (rule inj [OF eq(2)]) simp_all
  ultimately have "v = w" by (metis div_mult_mod_eq)
  then show ?case using Cons.IH [OF eq(3)] Cons.prems(2,3) by simp
qed simp

lemma formatIP_full_words:
  assumes "length ws = 8" "\<forall>w \<in> set ws. w < 65536" "\<not> v4_form ws" "length ip0 = 40"
  shows "cstring_of (the (snd (formatIP (Some (octs ws)) 16 0 (Some ip0) 40))) = joined 0 ws"
proof -
  have words: "ip_words (octs ws) 0 = ws"
  proof (rule octs_inject)
    show "octs (ip_words (octs ws) 0) = octs ws" using octs_ip_words [of "octs ws" 0] assms(1) by simp
    show "length (ip_words (octs ws) 0) = length ws" using assms(1) by (simp add: ip_words_def)
  qed (use assms(2) ip_words_less in auto)
  obtain k z u where e: "emit 0 0 0 ws = (k, z, u)" by (metis prod_cases3)
  have "u = joined 0 ws" "\<not> has_dotted k z"
    using emit_full_shape [OF e assms(1)] emit_not_dotted [OF assms(1,3) e] by simp_all
  then have t: "ipv6_text 0 (octs ws) = joined 0 ws" using e by (simp add: ipv6_text_def words)
  obtain junk where "formatIP (Some (octs ws)) 16 0 (Some ip0) 40 =
      (length (joined 0 ws), Some (joined 0 ws @ NUL # junk))"
    using formatIP_text [of 40 0 ip0 "octs ws"] assms(4) t by auto
  moreover have "\<forall>c \<in> set (joined 0 ws). c \<noteq> NUL"
    using ipv6_text_chars [of _ 0 "octs ws"] ipv6_char_not t by force
  ultimately show ?thesis by (simp add: cstring_of_def takeWhile_append)
qed

text \<open>C19: The reverse-lookup name of an IPv6 address: for an address written as eight hexadecimal groups, or in
  compact form with \<open>::\<close> unless it is IPv4-mapped or IPv4-compatible, and a buffer of more than 73
  characters, \<open>reverseIp\<close> with \<open>arpa\<close> writes the 32 nibbles of the address, the least significant first,
  separated by dots, then \<open>.ip6.arpa.\<close>, and returns the length of that name.\<close>

theorem reverseIp_nibbles:
  assumes "length ws = 8" and "\<forall>w \<in> set ws. w < 65536" and "73 < sz" and "length buffer = sz"
    and "src = joined m ws \<or>
      strstr src ''::'' \<and> TextInsensitiveCompareN (Some src) (Some ''IPv6:'') 5 \<noteq> 0 \<and> length ip0 = 40
        \<and> parseIPv6 (Some src) (Some ipv60) = Inr (n, Some (octs ws)) \<and> \<not> v4_form ws"
  shows "\<exists>t. reverseIp ipv60 ip0 src buffer sz True =
    Inr (73, butlast (concat (map nibbles (rev ws))) @ ''.ip6.arpa.'' @ NUL # t)"
proof -
  define m' where "m' = (if src = joined m ws then m else 0)"
  have ne: "ws \<noteq> []" using assms(1) by auto
  from reverseByNibble_joined [OF ne assms(2) _ assms(4), of m'] assms(1,3) obtain t where
    r: "reverseByNibble (joined m' ws) buffer sz = (64, concat (map nibbles (rev ws)) @ NUL # t)"
    "65 + length t = sz" by auto
  obtain w vs where ws: "rev ws = vs @ [w]" using ne by (cases "rev ws" rule: rev_cases) auto
  let ?n = "concat (map nibbles (rev ws))"
  have len: "length ?n = 64"
  proof -
    have "length (concat (map nibbles xs)) = 8 * length xs" for xs by (induction xs) simp_all
    then have "length ?n = 8 * length (rev ws)" .
    then show ?thesis using assms(1) by simp
  qed
  have dot: "?n = butlast ?n @ ''.''"
    unfolding ws by (simp add: nibbles_def butlast_append)
  have lq: "length (butlast ?n) = 63" using len by simp
  have dot63: "(?n @ x) ! 63 = CHR ''.''" for x
    by (subst dot) (simp add: nth_append len)
  have upd: "(?n @ x)[63 := NUL] = butlast ?n @ NUL # x" for x
    by (subst dot) (simp add: list_update_append len)
  have "CHR '':'' \<in> set src"
  proof (cases "src = joined m ws")
    case True
    then show ?thesis using assms(1) by (cases ws rule: list.exhaust; cases "tl ws") auto
  next
    case False
    then show ?thesis using assms(5) by (auto simp: sublist_strstr sublist_def)
  qed
  then have "strchr src CHR '':'' \<noteq> None" by (subst strchr_iff) simp_all
  then obtain y where y: "strchr src CHR '':'' = Some y" by blast
  have "reverseIp ipv60 ip0 src buffer sz True =
      append_at (butlast ?n @ NUL # NUL # t) 63 sz ''.ip6.arpa.''"
  proof (cases "src = joined m ws")
    case True
    then show ?thesis
      using y joined_no_double_colon [of m ws] joined_not_tagged [of m ws] r dot63 upd
      by (simp add: reverseIp_def reverseSegments_def Let_def m'_def)
  next
    case False
    then show ?thesis
      using y assms(5) formatIP_full_words [OF assms(1,2), of ip0] r dot63 upd
      by (auto simp: reverseIp_def reverseSegments_def Let_def m'_def)
  qed
  also have "\<dots> = Inr (73, butlast ?n @ ''.ip6.arpa.'' @ NUL # drop 74 (butlast ?n @ NUL # NUL # t))"
    using append_at_fits [of 63 "''.ip6.arpa.''" sz "butlast ?n @ NUL # NUL # t"] assms(3) r(2) len
    by simp
  finally show ?thesis by blast
qed

theorem reverseIp_nibbles_witness:
  "\<exists>t. reverseIp (replicate 16 0) (replicate 40 NUL) ''2001:db8::1'' (replicate 80 NUL) 80 True =
    Inr (73, butlast (concat (map nibbles (rev [0x2001, 0xdb8, 0, 0, 0, 0, 0, 1])))
      @ ''.ip6.arpa.'' @ NUL # t)"
proof -
  have "parseIPv6 (Some ''2001:db8::1'') (Some (replicate 16 0)) =
      Inr (11, Some (octs [0x2001, 0xdb8, 0, 0, 0, 0, 0, 1]))"
    "strstr ''2001:db8::1'' ''::''" "TextInsensitiveCompareN (Some ''2001:db8::1'') (Some ''IPv6:'') 5 \<noteq> 0"
    by code_simp+
  then show ?thesis
    using reverseIp_nibbles [of "[0x2001, 0xdb8, 0, 0, 0, 0, 0, 1]" 80 "replicate 80 NUL" "''2001:db8::1''" 0
        "replicate 40 NUL" "replicate 16 0" 11]
    by (simp add: v4_form_def)
qed

section \<open>The first address of a text\<close>

lemma strchr_drop:
  assumes "strchr (drop i s) c = Some r" "c \<noteq> NUL"
  obtains d where "i \<le> d" "d < length s" "r = drop d s" "s ! d = c" "\<forall>j. i \<le> j \<and> j < d \<longrightarrow> s ! j \<noteq> c"
proof -
  have r: "r = dropWhile (\<lambda>x. x \<noteq> c) (drop i s)" "r \<noteq> []"
    using assms by (auto simp: strchr_def Let_def split: if_splits)
  let ?n = "length (takeWhile (\<lambda>x. x \<noteq> c) (drop i s))"
  have n: "?n < length (drop i s)"
    using r by (metis dropWhile_eq_Nil_conv length_takeWhile_le linorder_not_less
        nat_less_le takeWhile_eq_all_conv takeWhile_eq_take take_all)
  have "r = drop (i + ?n) s" using r(1) by (simp add: dropWhile_eq_drop add.commute)
  moreover have "i + ?n < length s" using n by simp
  moreover have "s ! (i + ?n) = c"
    using nth_length_takeWhile [OF n] n by (simp add: add.commute)
  moreover have "\<forall>j. i \<le> j \<and> j < i + ?n \<longrightarrow> s ! j \<noteq> c"
  proof (intro allI impI)
    fix j assume j: "i \<le> j \<and> j < i + ?n"
    then have lt: "j - i < ?n" by linarith
    from set_takeWhileD [OF nth_mem [OF lt]] have "drop i s ! (j - i) \<noteq> c"
      unfolding takeWhile_nth [OF lt] by simp
    then show "s ! j \<noteq> c" using j n by simp
  qed
  ultimately show thesis using that [of "i + ?n"] by simp
qed

lemma strchr_drop_None:
  "strchr (drop i s) c = None \<Longrightarrow> i \<le> d \<Longrightarrow> d < length s \<Longrightarrow> s ! d \<noteq> c"
  using in_set_conv_nth [of "s ! d" "drop i s"]
  by (auto simp: strchr_def Let_def dropWhile_eq_Nil_conv split: if_splits)
    (metis add_diff_inverse_nat diff_less_mono length_drop linorder_not_less nth_drop nth_mem)

lemma back_up_le: "back_up P k s i \<le> i"
  by (induction P k s i rule: back_up.induct) (auto intro: le_trans)

lemma find_loop_first:
  assumes "c \<noteq> NUL" "i \<le> d" "d < length s" "s ! d = c" "back_up P k s d < d"
    "0 < span (drop (back_up P k s d) s)"
  shows "\<exists>d'. d' \<le> d \<and> d' < length s \<and> s ! d' = c \<and> 0 < span (drop (back_up P k s d') s) \<and>
    findIP_loop c P k span s i = Some (back_up P k s d', span (drop (back_up P k s d') s))"
  using assms
proof (induction "length s - i" arbitrary: i rule: less_induct)
  case less
  obtain r where r: "strchr (drop i s) c = Some r"
    using strchr_drop_None [of i s c d] less.prems by (cases "strchr (drop i s) c") auto
  then obtain e where e: "i \<le> e" "e < length s" "r = drop e s" "s ! e = c"
    "\<forall>j. i \<le> j \<and> j < e \<longrightarrow> s ! j \<noteq> c" using strchr_drop [OF r less.prems(1)] by metis
  have ed: "e \<le> d" by (rule ccontr) (use e(5) less.prems(2,4) in auto)
  have re: "r \<noteq> []" "length s - length r = e" using e by simp_all
  show ?case
  proof (cases "back_up P k s e < e \<and> 0 < span (drop (back_up P k s e) s)")
    case True
    then show ?thesis using e ed r re
      by (intro exI [of _ e]) (simp add: findIP_loop.simps [of c P k span s i] Let_def)
  next
    case False
    then have "e + 1 \<le> d" using ed less.prems(5,6) by (cases "e = d") auto
    moreover have "findIP_loop c P k span s i = findIP_loop c P k span s (e + 1)"
      using False r re by (subst findIP_loop.simps) (auto simp: Let_def)
    moreover have "length s - (e + 1) < length s - i" using e by simp
    ultimately show ?thesis using less.hyps [of "e + 1"] less.prems by simp
  qed
qed

lemma find_loop_None:
  assumes "findIP_loop c P k span s i = None" "c \<noteq> NUL" "i \<le> d" "d < length s" "s ! d = c"
    "back_up P k s d < d"
  shows "span (drop (back_up P k s d) s) = 0"
  using find_loop_first [of c i d s P k span] assms by fastforce

lemma back_up_exact:
  assumes "\<forall>c \<in> set ds. P c" "length ds \<le> k" "length ds = k \<or> pre = [] \<or> \<not> P (last pre)"
  shows "back_up P k (pre @ ds @ r) (length pre + length ds) = length pre"
  using assms
proof (induction ds arbitrary: k r rule: rev_induct)
  case Nil
  then show ?case by (cases k; cases pre rule: rev_cases) (auto simp: nth_append)
next
  case (snoc c ds)
  then obtain k' where k: "k = Suc k'" by (cases k) auto
  have "(pre @ (ds @ [c]) @ r) ! (length pre + length ds) = c" by (simp add: nth_append)
  then show ?case using snoc.IH [of k' "c # r"] snoc.prems k by simp
qed

lemma dec_octet_digits: "c \<in> set (dec_str a) \<Longrightarrow> isdigit c"
  using is_base_digit_num_str [of 10 c a] by (simp add: isdigit_base10)



section \<open>Reserved domains\<close>

definition tld_table :: "(u64 \<times> string) list" where
  "tld_table =
    [(IS_TLD_TEST, ''test''), (IS_TLD_EXAMPLE, ''example''), (IS_TLD_INVALID, ''invalid''),
     (IS_TLD_LOCALHOST, ''localhost''), (IS_TLD_LOCALDOMAIN, ''localdomain''), (IS_TLD_LOCAL, ''local''),
     (IS_TLD_LAN, ''lan''), (IS_TLD_HOME, ''home''), (IS_TLD_ARPA, ''arpa''), (IS_TLD_ONION, ''onion'')]"

text \<open>The name before the top-level domain ends with the label \<open>example\<close>.\<close>

definition example_label :: "string \<Rightarrow> bool" where
  "example_label pre \<longleftrightarrow> 7 \<le> length pre \<and> map tolower (drop (length pre - 7) pre) = ''example''
     \<and> (length pre = 7 \<or> (pre ! (length pre - 8) \<noteq> CHR ''-'' \<and> \<not> isalnum (pre ! (length pre - 8))))"

lemma strrchr_split: "c \<notin> set t \<Longrightarrow> strrchr (p @ c # t) c = Some (c # t)"
  by (simp add: strrchr_def takeWhile_append)

lemma lower_table:
  "map tolower ''test'' = ''test''" "map tolower ''example'' = ''example''" "map tolower ''invalid'' = ''invalid''"
  "map tolower ''localhost'' = ''localhost''" "map tolower ''localdomain'' = ''localdomain''"
  "map tolower ''local'' = ''local''" "map tolower ''lan'' = ''lan''" "map tolower ''home'' = ''home''"
  "map tolower ''arpa'' = ''arpa''" "map tolower ''onion'' = ''onion''" "tolower CHR ''.'' = CHR ''.''"
  by code_simp+

lemma tld_compare:
  assumes "NUL \<notin> set t" "NUL \<notin> set n" "map tolower n = n"
  shows "TextInsensitiveCompare (Some (CHR ''.'' # t)) (Some (CHR ''.'' # n)) = 0 \<longleftrightarrow> map tolower t = n"
  using casecmp_loop_eq_0 [of "CHR ''.'' # t" "CHR ''.'' # n" "-1"] assms
  by (simp add: TextInsensitiveCompare_def TextInsensitiveCompareN_def)

lemma example_prefix:
  assumes "7 \<le> length p"
  shows "0 < TextInsensitiveStartsWith (Some (drop (length p - 7) (p @ CHR ''.'' # t))) (Some ''example.'')
    \<longleftrightarrow> map tolower (drop (length p - 7) p) = ''example''"
proof -
  define e where "e = drop (length p - 7) p"
  have le: "length e = 7" using assms by (simp add: e_def)
  have d: "drop (length p - 7) (p @ CHR ''.'' # t) = e @ CHR ''.'' # t" by (simp add: e_def)
  have "take 8 (e @ CHR ''.'' # t) = e @ ''.''" by (simp add: le)
  moreover have "map tolower ''example.'' = ''example.''" by code_simp
  ultimately have "strncaseeq (e @ CHR ''.'' # t) ''example.'' \<longleftrightarrow> map tolower e = ''example''"
    using le lower_table(11) by (auto simp: strncaseeq_def)
  then show ?thesis
    unfolding d e_def [symmetric] by (simp add: TextInsensitiveStartsWith_Some)
qed

text \<open>C22: \<open>isReservedTLD\<close> of a name with a dot holds exactly when what follows the last dot is, up to case, a
  selected entry of the table of reserved top-level domains, or the flag for examples is given and what
  precedes the last dot ends in \<open>example\<close>, up to case, with nothing before it or a character before it
  that is no letter, digit or hyphen. A name without a dot is never reported.\<close>

theorem isReservedTLD_iff:
  assumes "NUL \<notin> set pre" and "NUL \<notin> set tld" and "CHR ''.'' \<notin> set tld"
  shows "(isReservedTLD (Some (pre @ ''.'' @ tld)) flags \<longleftrightarrow>
    list_ex (\<lambda>(f, n). flags AND f \<noteq> 0 \<and> map tolower tld = n) tld_table
    \<or> flags AND IS_TLD_EXAMPLE \<noteq> 0 \<and> example_label pre) \<and>
    \<not> isReservedTLD (Some tld) flags"
proof -
  have r: "strrchr (pre @ CHR ''.'' # tld) CHR ''.'' = Some (CHR ''.'' # tld)"
    using assms(3) by (rule strrchr_split)
  note compare = tld_compare [OF assms(2)]
  note cmp = compare [OF _ lower_table(1)] compare [OF _ lower_table(2)] compare [OF _ lower_table(3)]
    compare [OF _ lower_table(4)] compare [OF _ lower_table(5)] compare [OF _ lower_table(6)]
    compare [OF _ lower_table(7)] compare [OF _ lower_table(8)] compare [OF _ lower_table(9)]
    compare [OF _ lower_table(10)]
  have ex: "(8 \<le> length pre + 1 \<and>
      0 < TextInsensitiveStartsWith (Some (drop (length pre + 1 - 8) (pre @ CHR ''.'' # tld))) (Some ''example.'')
      \<and> (length pre + 1 - 8 = 0
        \<or> (pre @ CHR ''.'' # tld) ! (length pre + 1 - 8 - 1) \<noteq> CHR ''-''
          \<and> \<not> isalnum ((pre @ CHR ''.'' # tld) ! (length pre + 1 - 8 - 1)))) \<longleftrightarrow> example_label pre"
  proof (cases "7 \<le> length pre")
    case True
    moreover have "length pre + 1 - 8 = length pre - 7" by simp
    moreover have "(pre @ CHR ''.'' # tld) ! (length pre - 8) = pre ! (length pre - 8)"
    proof -
      have "length pre - 8 < length pre" using True by arith
      then show ?thesis by (simp add: nth_append)
    qed
    moreover have "length pre - 7 - 1 = length pre - 8" by simp
    moreover have "length pre - 7 = 0 \<longleftrightarrow> length pre = 7" using True by simp
    ultimately show ?thesis using example_prefix [OF True, of tld] by (simp add: example_label_def)
  next
    case False
    then show ?thesis by (simp add: example_label_def)
  qed
  have "strrchr tld CHR ''.'' = None" using assms(3) by (simp add: strrchr_def takeWhile_eq_all_conv)
  then have "\<not> isReservedTLD (Some tld) flags" by (simp add: isReservedTLD_def)
  then show ?thesis
    unfolding isReservedTLD_def option.case append_Cons append_Nil r Let_def
    using ex by (simp add: cmp tld_table_def)
qed

theorem isReservedTLD_iff_witness:
  "(isReservedTLD (Some (''mail.Example'' @ ''.'' @ ''COM'')) IS_TLD_EXAMPLE \<longleftrightarrow>
    list_ex (\<lambda>(f, n). IS_TLD_EXAMPLE AND f \<noteq> 0 \<and> map tolower ''COM'' = n) tld_table
    \<or> IS_TLD_EXAMPLE AND IS_TLD_EXAMPLE \<noteq> 0 \<and> example_label ''mail.Example'') \<and>
   \<not> isReservedTLD (Some ''COM'') IS_TLD_EXAMPLE"
  by (rule isReservedTLD_iff) simp_all

text \<open>The label before the last need not be \<open>example\<close>, and a reserved name without a dot is not reported.\<close>

lemma isReservedTLD_divergences:
  "isReservedTLD (Some ''foo_example.com'') IS_TLD_EXAMPLE"
  "\<not> isReservedTLD (Some ''localhost'') IS_TLD_LOCALHOST"
  by code_simp+

end
