(* ===== verification/MailSpan.thy ===== *)
theory MailSpan
  imports NetSpan
begin

text \<open>
  \<^verbatim>\<open>mail/MailSpan.c\<close>: the scanners of the SMTP grammar (RFC 2821). Each takes the rest of a command
  line and returns how many characters of it form an address literal, a domain, a local part, a
  mailbox, a source route or a path; zero means no match.
\<close>

section \<open>Address literals\<close>

text \<open>The loop of \<^verbatim>\<open>MailSpanIPv4\<close>: \<open>Inl ip\<close> is the early return at an octet out of range,
  \<open>Inr (ip, dots)\<close> the end of the loop.\<close>

function MailSpanIPv4_loop :: "string \<Rightarrow> nat \<Rightarrow> string + string \<times> nat" where
  "MailSpanIPv4_loop ip dots =
     (if ip = [] then Inr (ip, dots)
      else
        let (octet, stop) = strtol 10 ip
        in if stop = ip then Inr (ip, dots)
           else if octet < 0 \<or> 255 < octet then Inl ip
           else if deref stop = CHR ''.'' then MailSpanIPv4_loop (tl stop) (dots + 1)
           else MailSpanIPv4_loop stop dots)"
  by pat_completeness auto
termination
proof (relation "measure (\<lambda>(ip, dots). length ip)", goal_cases)
  case (2 ip dots x octet stop)
  then have "length stop < length ip" by (metis strtol_length_less)
  then show ?case by simp
next
  case (3 ip dots x octet stop)
  then have "length stop < length ip" by (metis strtol_length_less)
  then show ?case by simp
qed simp

declare MailSpanIPv4_loop.simps [simp del]

definition MailSpanIPv4 :: "string \<Rightarrow> nat" where
  "MailSpanIPv4 start =
     (case MailSpanIPv4_loop start 0 of
        Inl ip \<Rightarrow> length start - length ip
      | Inr (ip, dots) \<Rightarrow> if dots \<noteq> 3 then 0 else length start - length ip)"

text \<open>The loop of \<^verbatim>\<open>MailSpanIPv6\<close> has no bound on the groups; otherwise it is that of
  \<^verbatim>\<open>spanIPv6\<close>.\<close>

function MailSpanIPv6_loop :: "string \<Rightarrow> bool \<Rightarrow> nat \<Rightarrow> (string \<times> string \<times> bool \<times> nat) option" where
  "MailSpanIPv6_loop ip compressed groups =
     (let (word, stop) = strtol 16 ip
      in if word < 0 \<or> 0xffff < word then None
         else
           let groups = (if length stop < length ip \<and> deref stop \<noteq> CHR ''.'' then groups + 1 else groups)
           in if deref stop \<noteq> CHR '':'' then Some (ip, stop, compressed, groups)
              else if char_at stop 1 = CHR '':''
              then (if compressed then None else MailSpanIPv6_loop (tl stop) True groups)
              else MailSpanIPv6_loop (tl stop) compressed groups)"
  by pat_completeness auto
termination
proof (relation "measure (\<lambda>(ip, c, g). length ip)", goal_cases)
  case (2 ip c g x word r g')
  then have "length r \<le> length ip" "r \<noteq> []" by (metis strtol_length, auto)
  then show ?case by (cases r) auto
next
  case (3 ip c g x word r g')
  then have "length r \<le> length ip" "r \<noteq> []" by (metis strtol_length, auto)
  then show ?case by (cases r) auto
qed simp

declare MailSpanIPv6_loop.simps [simp del]

definition MailSpanIPv6 :: "string \<Rightarrow> nat" where
  "MailSpanIPv6 start =
     (case MailSpanIPv6_loop start False 0 of
        None \<Rightarrow> 0
      | Some (ip, stop, compressed, groups) \<Rightarrow>
          if deref stop = CHR ''.'' then
            (if compressed \<and> 4 < groups then 0
             else if \<not> compressed \<and> 6 < groups then 0
             else let len = MailSpanIPv4 ip
                  in if len = 0 then 0 else length start - length ip + len)
          else if \<not> compressed \<and> groups = 8 then length start - length stop
          else if compressed \<and> groups \<le> 6 then length start - length stop
          else 0)"

definition MailSpanAddressLiteral :: "string \<Rightarrow> nat" where
  "MailSpanAddressLiteral s =
     (if deref s \<noteq> CHR ''['' then 0
      else
        let t = tl s
        in case (if isdigit (deref t) then Some (drop (MailSpanIPv4 t) t)
                 else if take 5 t = ''ipv6:'' \<or> take 5 t = ''IPv6:''
                 then Some (drop (MailSpanIPv6 (drop 5 t) + 5) t)
                 else None) of
             None \<Rightarrow> 0
           | Some t \<Rightarrow> if deref t \<noteq> CHR '']'' then 0 else length s - length (tl t))"

section \<open>Domains\<close>

text \<open>The inner loop over the rest of a label: the character before the pointer and the pointer.\<close>

fun label_loop :: "char \<Rightarrow> string \<Rightarrow> char \<times> string" where
  "label_loop prev [] = (prev, [])"
| "label_loop prev (c # t) =
     (if isalnum c \<or> c = CHR ''-'' \<or> c = CHR ''_'' then label_loop c t else (prev, c # t))"

lemma label_loop_length: "label_loop p t = (p', r) \<Longrightarrow> length r \<le> length t"
  by (induction p t rule: label_loop.induct) (auto split: if_splits)

function MailSpanDomainName_loop :: "string \<Rightarrow> nat \<Rightarrow> string \<times> nat" where
  "MailSpanDomainName_loop t dots =
     (if t = [] then (t, dots)
      else if \<not> isalnum (deref t) then (t, dots)
      else
        let (prev, r) = label_loop (deref t) (tl t)
        in if deref r \<noteq> CHR ''.'' then (r, dots)
           else if prev = CHR ''-'' then (prev # r, dots)
           else MailSpanDomainName_loop (tl r) (dots + 1))"
  by pat_completeness auto
termination
proof (relation "measure (\<lambda>(t, dots). length t)", goal_cases)
  case (2 t dots x prev r)
  then have "length r \<le> length (tl t)" by (metis label_loop_length)
  with 2 show ?case by (cases t) auto
qed simp

declare MailSpanDomainName_loop.simps [simp del]

definition MailSpanDomainName :: "string \<Rightarrow> int \<Rightarrow> nat" where
  "MailSpanDomainName s minimumDots =
     (if deref s = CHR ''['' then MailSpanAddressLiteral s
      else let (t, dots) = MailSpanDomainName_loop s 0
           in if int dots < minimumDots then 0 else length s - length t)"

section \<open>Local parts, mailboxes and paths\<close>

text \<open>The loop over a quoted string stops at its closing quote, at the end, or, with \<open>False\<close>, at
  a character that ends the scan at once.\<close>

fun mail_quoted_loop :: "string \<Rightarrow> string \<times> bool" where
  "mail_quoted_loop [] = ([], True)"
| "mail_quoted_loop (c # t) =
     (if c = CHR 0x22 then (c # t, True)
      else if c = CHR 0x5C then (case t of [] \<Rightarrow> ([], True) | d # t' \<Rightarrow> mail_quoted_loop t')
      else if c \<in> {CHR 0x09, CHR 0x0D, CHR 0x0A, CHR ''#''} then (c # t, False)
      else mail_quoted_loop t)"

definition mail_atext :: string where
  "mail_atext = ''!#$%&'' @ [CHR 0x27] @ ''*+-/=?^_'' @ [CHR 0x60] @ ''{|}~.''"

fun mail_dot_string_loop :: "string \<Rightarrow> string" where
  "mail_dot_string_loop [] = []"
| "mail_dot_string_loop (c # t) =
     (if isalnum c then mail_dot_string_loop t
      else if c = CHR 0x5C \<and> t \<noteq> [] then mail_dot_string_loop (tl t)
      else if c \<in> set mail_atext then mail_dot_string_loop t
      else c # t)"

definition MailSpanLocalPart :: "string \<Rightarrow> nat" where
  "MailSpanLocalPart s =
     (if deref s = CHR 0x22 then
        let (t, ok) = mail_quoted_loop (tl s)
        in if ok \<and> deref t = CHR 0x22 then length s - length (tl t) else length s - length t
      else length s - length (mail_dot_string_loop s))"

definition MailSpanMailbox :: "string \<Rightarrow> nat" where
  "MailSpanMailbox s =
     (let localLength = MailSpanLocalPart s
      in if char_at s localLength \<noteq> CHR ''@'' then 0
         else
           let domainLength = MailSpanDomainName (drop (localLength + 1) s) 1
           in if domainLength = 0 then 0 else localLength + 1 + domainLength)"

text \<open>\<^verbatim>\<open>MailSpanAtDomainList\<close>: \<open>None\<close> is its early \<open>return 0\<close>.\<close>

function MailSpanAtDomainList_loop :: "string \<Rightarrow> string option" where
  "MailSpanAtDomainList_loop s =
     (if deref s \<noteq> CHR ''@'' then Some s
      else
        let n = MailSpanDomainName (tl s) 1 + 1
        in if n = 1 then None
           else MailSpanAtDomainList_loop
                  (drop (if char_at s n = CHR '','' then n + 1 else n) s))"
  by pat_completeness auto
termination
proof (relation "measure length", goal_cases)
  case (2 s n)
  then show ?case by (cases s) auto
qed simp

declare MailSpanAtDomainList_loop.simps [simp del]

definition MailSpanAtDomainList :: "string \<Rightarrow> nat" where
  "MailSpanAtDomainList start =
     (case MailSpanAtDomainList_loop start of None \<Rightarrow> 0 | Some s \<Rightarrow> length start - length s)"

definition MailSpanPath :: "string \<Rightarrow> nat" where
  "MailSpanPath s =
     (if deref s = CHR ''@'' then
        let n = MailSpanAtDomainList s
        in if char_at s n \<noteq> CHR '':'' then 0
           else n + 1 + MailSpanMailbox (drop (n + 1) s)
      else MailSpanMailbox s)"

section \<open>The scanners stay within the string\<close>

lemma MailSpanIPv4_le: "MailSpanIPv4 s \<le> length s"
  by (auto simp: MailSpanIPv4_def split: sum.split)

interpretation mail_ipv4: span_fn MailSpanIPv4
  by unfold_locales (rule MailSpanIPv4_le)

lemma MailSpanIPv6_loop_suffix:
  "MailSpanIPv6_loop ip c g = Some (ip', stop, c', g') \<Longrightarrow> suffix stop ip' \<and> suffix ip' ip"
proof (induction "length ip" arbitrary: ip c g rule: less_induct)
  case less
  obtain w r where r: "strtol 16 ip = (w, r)" by fastforce
  have sr: "suffix r ip" by (rule strtol_suffixD [OF r])
  then have st: "suffix (tl r) ip" by (rule suffix_tl')
  have lt: "r \<noteq> [] \<Longrightarrow> length (tl r) < length ip"
    using suffix_length_le [OF sr] by (cases r) auto
  consider "ip' = ip" "stop = r"
    | c2 g2 where "MailSpanIPv6_loop (tl r) c2 g2 = Some (ip', stop, c', g')" "deref r = CHR '':''"
    using less.prems by (subst (asm) MailSpanIPv6_loop.simps) (auto simp: r Let_def split: if_splits)
  then show ?case
  proof cases
    case 2
    then have "r \<noteq> []" by auto
    then have "suffix stop ip' \<and> suffix ip' (tl r)" using less.hyps [OF lt] 2 by blast
    with st show ?thesis by (meson suffix_order.trans)
  qed (use sr in simp)
qed

lemma MailSpanIPv6_le: "MailSpanIPv6 s \<le> length s"
proof -
  have "length s - length ip + MailSpanIPv4 ip \<le> length s"
    if "MailSpanIPv6_loop s False 0 = Some (ip, stop, c, g)" for ip stop c g
    using MailSpanIPv6_loop_suffix [OF that] MailSpanIPv4_le [of ip] by (auto dest!: suffix_length_le)
  then show ?thesis
    by (auto simp: MailSpanIPv6_def Let_def split: option.split)
qed

interpretation mail_ipv6: span_fn MailSpanIPv6
  by unfold_locales (rule MailSpanIPv6_le)

lemma MailSpanDomainName_le: "MailSpanDomainName s m \<le> length s"
  by (auto simp: MailSpanDomainName_def MailSpanAddressLiteral_def Let_def
      split: option.split prod.split)

interpretation mail_domain: span_fn "\<lambda>s. MailSpanDomainName s m" for m
  by unfold_locales (rule MailSpanDomainName_le)

lemma MailSpanLocalPart_le: "MailSpanLocalPart s \<le> length s"
  by (auto simp: MailSpanLocalPart_def Let_def split: prod.split)

interpretation mail_localpart: span_fn MailSpanLocalPart
  by unfold_locales (rule MailSpanLocalPart_le)

lemma MailSpanMailbox_le: "MailSpanMailbox s \<le> length s"
proof -
  have "char_at s (MailSpanLocalPart s) = CHR ''@'' \<Longrightarrow> MailSpanLocalPart s + 1 \<le> length s"
    using char_at_neq_NUL [of s "MailSpanLocalPart s"] by simp
  then show ?thesis
    using mail_domain.span_drop_le [of "MailSpanLocalPart s + 1" s 1]
    by (auto simp: MailSpanMailbox_def Let_def)
qed

interpretation mail_mailbox: span_fn MailSpanMailbox
  by unfold_locales (rule MailSpanMailbox_le)

lemma MailSpanPath_le: "MailSpanPath s \<le> length s"
proof -
  have "char_at s n = CHR '':'' \<Longrightarrow> n + 1 \<le> length s" for n
    using char_at_neq_NUL [of s n] by simp
  then show ?thesis
    using mail_mailbox.span_drop_le [of "MailSpanAtDomainList s + 1" s] MailSpanMailbox_le [of s]
    by (auto simp: MailSpanPath_def Let_def)
qed

interpretation mail_path: span_fn MailSpanPath
  by unfold_locales (rule MailSpanPath_le)

section \<open>Domains are sequences of labels\<close>

definition ldh :: "char \<Rightarrow> bool" where
  "ldh c \<longleftrightarrow> isalnum c \<or> c = CHR ''-'' \<or> c = CHR ''_''"

definition label_ok :: "string \<Rightarrow> bool" where
  "label_ok l \<longleftrightarrow> l \<noteq> [] \<and> isalnum (hd l) \<and> list_all ldh l \<and> last l \<noteq> CHR ''-''"

definition label_start :: "string \<Rightarrow> bool" where
  "label_start l \<longleftrightarrow> l = [] \<or> isalnum (hd l) \<and> list_all ldh l"

definition dotted_labels :: "string list \<Rightarrow> string" where
  "dotted_labels ls = concat (map (\<lambda>l. l @ ''.'') ls)"

lemma dotted_labels_simps [simp]:
  "dotted_labels [] = []" "dotted_labels (l # ls) = l @ ''.'' @ dotted_labels ls"
  by (simp_all add: dotted_labels_def)

lemma label_loop_split:
  "label_loop p t = (p', r) \<Longrightarrow> \<exists>q. t = q @ r \<and> list_all ldh q \<and> p' = last (p # q) \<and> \<not> ldh (deref r)"
proof (induction p t rule: label_loop.induct)
  case (2 prev c t)
  show ?case
  proof (cases "ldh c")
    case True
    then have "label_loop c t = (p', r)" using "2.prems" by (simp add: ldh_def)
    from "2.IH" [OF True [unfolded ldh_def] this] obtain q where
      "t = q @ r" "list_all ldh q" "p' = last (c # q)" "\<not> ldh (deref r)" by blast
    with True show ?thesis by (intro exI [of _ "c # q"]) auto
  next
    case False
    with 2 show ?thesis by (auto simp: ldh_def)
  qed
qed (auto simp: ldh_def ctype_defs)

lemma label_loop_exact:
  assumes "list_all ldh q" "\<not> ldh (deref r)"
  shows "label_loop p (q @ r) = (last (p # q), r)"
  using assms
proof (induction q arbitrary: p)
  case Nil
  then show ?case by (cases r) (auto simp: ldh_def)
qed (auto simp: ldh_def)

lemma domain_loop_labels:
  assumes "list_all label_ok ls" "label_ok l" "\<not> ldh (deref r)" "deref r \<noteq> CHR ''.''"
  shows "MailSpanDomainName_loop (dotted_labels ls @ l @ r) d = (r, d + length ls)"
  using assms
proof (induction ls arbitrary: d)
  case Nil
  then obtain c q where "l = c # q" "isalnum c" "list_all ldh q"
    by (cases l) (auto simp: label_ok_def)
  then show ?case using Nil
    by (subst MailSpanDomainName_loop.simps) (simp add: label_loop_exact)
next
  case (Cons k ls)
  then obtain c q where k: "k = c # q" "isalnum c" "list_all ldh q" "last (c # q) \<noteq> CHR ''-''"
    by (cases k) (auto simp: label_ok_def)
  have "\<not> ldh CHR ''.''" by (simp add: ldh_def ctype_defs ord_def)
  then have "label_loop c (q @ CHR ''.'' # dotted_labels ls @ l @ r) =
      (last (c # q), CHR ''.'' # dotted_labels ls @ l @ r)"
    using k by (intro label_loop_exact) simp_all
  then show ?case using Cons k
    by (subst MailSpanDomainName_loop.simps) (simp split: if_splits)
qed

lemma domain_loop_split:
  "MailSpanDomainName_loop t d = (r, d') \<Longrightarrow>
    \<exists>ls l. t = (dotted_labels ls @ l) @ r \<and> list_all label_ok ls \<and> label_start l \<and> d' = d + length ls"
proof (induction "length t" arbitrary: t d rule: less_induct)
  case less
  show ?case
  proof (cases "t = [] \<or> \<not> isalnum (deref t)")
    case True
    then have "MailSpanDomainName_loop t d = (t, d)"
      by (subst MailSpanDomainName_loop.simps) auto
    then have "r = t" "d' = d" using less.prems by simp_all
    then show ?thesis by (intro exI [of _ "[]"]) (simp add: label_start_def)
  next
    case False
    then obtain c t' where t: "t = c # t'" "isalnum c" by (cases t) auto
    obtain p' r1 where lp: "label_loop c t' = (p', r1)" by fastforce
    from label_loop_split [OF this] obtain q where
      q: "t' = q @ r1" "list_all ldh q" "p' = last (c # q)" by blast
    have st: "label_start (c # q)" using t q by (simp add: label_start_def ldh_def)
    consider "deref r1 \<noteq> CHR ''.''" | "deref r1 = CHR ''.''" "p' = CHR ''-''"
      | "deref r1 = CHR ''.''" "p' \<noteq> CHR ''-''" by blast
    then show ?thesis
    proof cases
      case 1
      then have "MailSpanDomainName_loop t d = (r1, d)" using t lp
        by (subst MailSpanDomainName_loop.simps) simp
      then have "r = r1" "d' = d" using less.prems by simp_all
      then show ?thesis using t q st by (intro exI [of _ "[]"] exI [of _ "c # q"]) simp
    next
      case 2
      then have "MailSpanDomainName_loop t d = (p' # r1, d)" using t lp
        by (subst MailSpanDomainName_loop.simps) simp
      then have r: "r = p' # r1" "d' = d" using less.prems by simp_all
      have "q \<noteq> []" using 2 t q by (auto simp: ctype_defs ord_def)
      then have "q = butlast q @ [p']" using q by simp
      moreover from this have "list_all ldh (butlast q)" using q(2)
        by (metis list_all_append)
      ultimately show ?thesis using t q r
        by (intro exI [of _ "[]"] exI [of _ "c # butlast q"])
          (auto simp: label_start_def ldh_def)
    next
      case 3
      then obtain r2 where r2: "r1 = CHR ''.'' # r2" by (cases r1) auto
      then have "MailSpanDomainName_loop t d = MailSpanDomainName_loop r2 (d + 1)" using t lp 3
        by (subst MailSpanDomainName_loop.simps) simp
      then have "MailSpanDomainName_loop r2 (d + 1) = (r, d')" using less.prems by simp
      moreover have "length r2 < length t" using t q r2 by simp
      ultimately obtain ls l where "r2 = (dotted_labels ls @ l) @ r" "list_all label_ok ls"
          "label_start l" "d' = d + 1 + length ls"
        using less.hyps by blast
      moreover have "label_ok (c # q)" using t q 3 by (simp add: label_ok_def ldh_def)
      ultimately show ?thesis using t q r2
        by (intro exI [of _ "(c # q) # ls"] exI [of _ l]) simp
    qed
  qed
qed

section \<open>Well-formed addresses are spanned exactly\<close>

type_synonym domain_name = "string list \<times> string"

definition domain_ok :: "domain_name \<Rightarrow> bool" where
  "domain_ok d \<longleftrightarrow> fst d \<noteq> [] \<and> list_all label_ok (fst d) \<and> label_ok (snd d)"

definition domain_str :: "domain_name \<Rightarrow> string" where
  "domain_str d = dotted_labels (fst d) @ snd d"

definition ends_domain :: "string \<Rightarrow> bool" where
  "ends_domain r \<longleftrightarrow> \<not> ldh (deref r) \<and> deref r \<noteq> CHR ''.''"

definition atom_char :: "char \<Rightarrow> bool" where
  "atom_char c \<longleftrightarrow> isalnum c \<or> c \<in> set mail_atext"

lemma label_ok_deref: "label_ok l \<Longrightarrow> isalnum (deref (l @ r)) \<and> l \<noteq> []"
  by (cases l) (auto simp: label_ok_def)

lemma domain_str_deref: "domain_ok d \<Longrightarrow> isalnum (deref (domain_str d @ r))"
  by (cases "fst d") (auto simp: domain_ok_def domain_str_def dest: label_ok_deref)

lemma isalnum_special [simp]:
  "\<not> isalnum CHR ''[''" "\<not> isalnum CHR ''@''" "\<not> isalnum CHR '':''" "\<not> isalnum CHR '',''"
  "\<not> isalnum CHR ''.''" "\<not> isalnum CHR ''>''" "\<not> isalnum CHR 0x22" "\<not> isalnum NUL"
  by (simp_all add: ctype_defs ord_def)

lemma ends_domain_special [simp]:
  "ends_domain (CHR '','' # r)" "ends_domain (CHR '':'' # r)" "ends_domain (CHR ''>'' # r)" "ends_domain []"
  by (simp_all add: ends_domain_def ldh_def)

lemma MailSpanDomainName_exact:
  assumes "domain_ok d" "ends_domain r" "m \<le> int (length (fst d))"
  shows "MailSpanDomainName (domain_str d @ r) m = length (domain_str d)"
proof -
  have "deref (domain_str d @ r) \<noteq> CHR ''[''"
    using domain_str_deref [OF assms(1), of r] by auto
  moreover have "MailSpanDomainName_loop (domain_str d @ r) 0 = (r, 0 + length (fst d))"
    using assms domain_loop_labels [of "fst d" "snd d" r 0]
    by (simp add: domain_ok_def domain_str_def ends_domain_def)
  ultimately show ?thesis using assms(3) by (simp add: MailSpanDomainName_def)
qed

lemma mail_dot_string_exact:
  "list_all atom_char a \<Longrightarrow> \<not> atom_char (deref r) \<Longrightarrow> deref r \<noteq> CHR 0x5C \<Longrightarrow>
    mail_dot_string_loop (a @ r) = r"
proof (induction a)
  case Nil
  then show ?case by (cases r) (auto simp: atom_char_def)
next
  case (Cons c a)
  have "\<not> isalnum CHR 0x5C" "CHR 0x5C \<notin> set mail_atext"
    by (simp_all add: ctype_defs ord_def mail_atext_def)
  with Cons show ?case by (auto simp: atom_char_def)
qed

lemma MailSpanLocalPart_exact:
  assumes "list_all atom_char a"
  shows "MailSpanLocalPart (a @ CHR ''@'' # r) = length a"
proof -
  have n: "\<not> atom_char CHR ''@''" "\<not> atom_char CHR 0x22"
    by (simp_all add: atom_char_def mail_atext_def)
  then have "deref (a @ CHR ''@'' # r) \<noteq> CHR 0x22"
    using assms by (cases a) auto
  then show ?thesis
    using mail_dot_string_exact [OF assms, of "CHR ''@'' # r"] n by (simp add: MailSpanLocalPart_def)
qed

lemma MailSpanMailbox_exact':
  assumes "list_all atom_char a" "domain_ok d" "ends_domain r"
  shows "MailSpanMailbox (a @ ''@'' @ domain_str d @ r) = length a + 1 + length (domain_str d)"
proof -
  have "domain_str d \<noteq> []" using assms(2) by (auto simp: domain_str_def domain_ok_def label_ok_def)
  moreover have "1 \<le> int (length (fst d))" using assms(2) by (cases "fst d") (auto simp: domain_ok_def)
  ultimately show ?thesis
    using MailSpanLocalPart_exact [OF assms(1)] MailSpanDomainName_exact [OF assms(2,3), of 1]
    by (simp add: MailSpanMailbox_def)
qed

fun route_str :: "domain_name list \<Rightarrow> string" where
  "route_str [] = []"
| "route_str [d] = ''@'' @ domain_str d"
| "route_str (d # ds) = ''@'' @ domain_str d @ '','' @ route_str ds"

lemma AtDomainList_loop_exact:
  assumes "ds \<noteq> []" "list_all domain_ok ds"
  shows "MailSpanAtDomainList_loop (route_str ds @ CHR '':'' # r) = Some (CHR '':'' # r)"
  using assms
proof (induction ds rule: route_str.induct)
  case (2 d)
  have "1 \<le> int (length (fst d))" "domain_str d \<noteq> []"
    using 2 by (cases "fst d"; auto simp: domain_ok_def domain_str_def label_ok_def)+
  then have "MailSpanDomainName (domain_str d @ CHR '':'' # r) 1 = length (domain_str d)"
    using 2 by (intro MailSpanDomainName_exact) simp_all
  moreover have "MailSpanAtDomainList_loop (CHR '':'' # r) = Some (CHR '':'' # r)"
    by (subst MailSpanAtDomainList_loop.simps) simp
  ultimately show ?case using \<open>domain_str d \<noteq> []\<close>
    by (subst MailSpanAtDomainList_loop.simps) simp
next
  case (3 d e ds)
  have "1 \<le> int (length (fst d))" "domain_str d \<noteq> []"
    using 3 by (cases "fst d"; auto simp: domain_ok_def domain_str_def label_ok_def)+
  moreover from this have "MailSpanDomainName (domain_str d @ CHR '','' # route_str (e # ds) @ CHR '':'' # r) 1
      = length (domain_str d)"
    using 3 by (intro MailSpanDomainName_exact) simp_all
  ultimately show ?case using 3
    by (subst MailSpanAtDomainList_loop.simps) simp
qed simp

lemma MailSpanAtDomainList_exact:
  assumes "ds \<noteq> []" "list_all domain_ok ds"
  shows "MailSpanAtDomainList (route_str ds @ CHR '':'' # r) = length (route_str ds)"
  using AtDomainList_loop_exact [OF assms] by (simp add: MailSpanAtDomainList_def)

section \<open>Properties\<close>

text \<open>C18: A domain name that \<open>MailSpanDomainName\<close> accepts is a sequence of labels, each starting
  with an alphanumeric character, holding only letters, digits, hyphens and underscores and not ending
  with a hyphen, each followed by a dot, and then the start of a further label or nothing; it has
  at least as many dots as the caller asked for.\<close>

theorem MailSpanDomainName_accepts:
  assumes "0 < MailSpanDomainName s m" and "deref s \<noteq> CHR ''[''"
  shows "\<exists>ls l. take (MailSpanDomainName s m) s = dotted_labels ls @ l \<and> list_all label_ok ls
    \<and> label_start l \<and> m \<le> int (length ls)"
proof -
  obtain t dots where l: "MailSpanDomainName_loop s 0 = (t, dots)" by fastforce
  with assms have m: "m \<le> int dots" "MailSpanDomainName s m = length s - length t"
    by (auto simp: MailSpanDomainName_def split: if_splits)
  from domain_loop_split [OF l] obtain ls k where "s = (dotted_labels ls @ k) @ t"
    "list_all label_ok ls" "label_start k" "dots = 0 + length ls" by blast
  with m show ?thesis by (intro exI [of _ ls] exI [of _ k]) simp
qed

theorem MailSpanDomainName_accepts_witness:
  "\<exists>ls l. take (MailSpanDomainName ''mx.example.org>'' 1) ''mx.example.org>'' = dotted_labels ls @ l
    \<and> list_all label_ok ls \<and> label_start l \<and> 1 \<le> int (length ls)"
  by (rule MailSpanDomainName_accepts) (code_simp, simp)

text \<open>\<open>MailSpanMailbox\<close> spans a mailbox \<open>local@domain\<close> exactly: for a local part of atom
  characters and a domain of at least two labels it returns the length of the whole mailbox, whatever
  follows that cannot continue the domain.\<close>

lemma MailSpanMailbox_exact:
  assumes "list_all atom_char a" and "domain_ok d" and "ends_domain r"
  shows "MailSpanMailbox (a @ ''@'' @ domain_str d @ r) = length (a @ ''@'' @ domain_str d)"
  using MailSpanMailbox_exact' [OF assms] by simp

text \<open>C17: \<open>MailSpanPath\<close> spans a path with a source route, \<open>@one,@two:local@domain\<close>,
  exactly, for every non-empty list of relay domains.\<close>

theorem MailSpanPath_exact:
  assumes "ds \<noteq> []" and "list_all domain_ok ds" and "list_all atom_char a" and "domain_ok d"
    and "ends_domain r"
  shows "MailSpanPath (route_str ds @ '':'' @ a @ ''@'' @ domain_str d @ r) =
    length (route_str ds @ '':'' @ a @ ''@'' @ domain_str d)"
proof -
  have "deref (route_str ds @ x) = CHR ''@''" for x
    using assms(1) by (induction ds rule: route_str.induct) simp_all
  then show ?thesis
    using MailSpanAtDomainList_exact [OF assms(1,2)] MailSpanMailbox_exact' [OF assms(3-5)]
    by (simp add: MailSpanPath_def)
qed

theorem MailSpanPath_exact_witness:
  "MailSpanPath (route_str [([''a''], ''org''), ([''b''], ''net'')] @ '':'' @ ''joe'' @ ''@''
      @ domain_str ([''example''], ''com'') @ ''>'') =
    length (route_str [([''a''], ''org''), ([''b''], ''net'')] @ '':'' @ ''joe'' @ ''@''
      @ domain_str ([''example''], ''com''))"
  by (rule MailSpanPath_exact)
    (simp_all add: domain_ok_def label_ok_def ldh_def atom_char_def mail_atext_def ctype_defs ord_def)

end
