(* ===== verification/VectorObj.thy ===== *)
theory VectorObj
  imports TextOps
begin

text \<open>
  \<^verbatim>\<open>type/Vector.c\<close>: a growable array of object pointers with a null pointer kept after the last
  element. A vector is a record of its slots, its capacity and its length; \<open>destroyed\<close>
  lists the objects handed to the entry destructor so far. Each method is a function on a non-null
  object, and the exported name adds the test for a null \<open>self\<close> with the error result.
\<close>

record 'a vector =
  base :: "'a option list"
  capacity :: nat
  veclen :: nat
  destroyed :: "'a list"

text \<open>The invariant: room for \<open>capacity\<close> pointers and the null after them.\<close>

definition vec_ok :: "'a vector \<Rightarrow> bool" where
  "vec_ok v \<longleftrightarrow> veclen v \<le> capacity v \<and> length (base v) = capacity v + 1 \<and> base v ! veclen v = None"

definition contents :: "'a vector \<Rightarrow> 'a option list" where
  "contents v = take (veclen v) (base v)"

definition on_vector :: "'r \<Rightarrow> ('a vector \<Rightarrow> 'r \<times> 'a vector) \<Rightarrow> 'a vector option \<Rightarrow> 'r \<times> 'a vector option" where
  "on_vector err f self =
     (case self of None \<Rightarrow> (err, None) | Some v \<Rightarrow> (let (r, v') = f v in (r, Some v')))"

section \<open>Creation and queries\<close>

text \<open>\<open>calloc\<close> and \<open>malloc\<close> may fail: \<open>mem\<close> says whether there is memory.\<close>

definition VectorCreate :: "bool \<Rightarrow> int \<Rightarrow> 'a vector option" where
  "VectorCreate mem cap =
     (let cap = (if cap < 1 then 1 else cap)
      in if \<not> mem then None
         else Some \<lparr>base = replicate (nat cap + 1) None, capacity = nat cap, veclen = 0, destroyed = []\<rparr>)"

definition VectorBase :: "'a vector option \<Rightarrow> 'a option list" where
  "VectorBase self = (case self of None \<Rightarrow> [None] | Some v \<Rightarrow> base v)"

definition VectorCapacity :: "'a vector option \<Rightarrow> nat" where
  "VectorCapacity self = (case self of None \<Rightarrow> 0 | Some v \<Rightarrow> capacity v)"

definition VectorLength :: "'a vector option \<Rightarrow> nat" where
  "VectorLength self = (case self of None \<Rightarrow> 0 | Some v \<Rightarrow> veclen v)"

definition VectorIsEmpty :: "'a vector option \<Rightarrow> bool" where
  "VectorIsEmpty self = (case self of None \<Rightarrow> True | Some v \<Rightarrow> veclen v = 0)"

definition VectorGet :: "'a vector option \<Rightarrow> int \<Rightarrow> 'a option" where
  "VectorGet self index =
     (case self of
        None \<Rightarrow> None
      | Some v \<Rightarrow>
          if 0 \<le> index \<and> index < int (veclen v) then base v ! nat index
          else if - int (veclen v) \<le> index \<and> index < 0 then base v ! nat (int (veclen v) + index)
          else None)"

section \<open>Moving ranges\<close>

definition reverse_range :: "'a vector \<Rightarrow> int \<Rightarrow> int \<Rightarrow> int \<times> 'a vector" where
  "reverse_range v x y =
     (if x < 0 \<or> int (veclen v) \<le> x then (-1, v)
      else if y < 0 \<or> int (veclen v) \<le> y then (-1, v)
      else if y < x then (-1, v)
      else (0, v\<lparr>base := swap_loop (nat x) (nat y + 1) (base v)\<rparr>))"

definition move_range :: "'a vector \<Rightarrow> int \<Rightarrow> int \<Rightarrow> int \<Rightarrow> int \<times> 'a vector" where
  "move_range v start finish to =
     (if finish < start then (-1, v)
      else if to < start then
        let (_, v) = reverse_range v to (start - 1);
            (_, v) = reverse_range v start finish;
            (_, v) = reverse_range v to finish
        in (0, v)
      else if finish < to \<and> to \<le> int (veclen v) then
        let (_, v) = reverse_range v start finish;
            (_, v) = reverse_range v (finish + 1) (to - 1);
            (_, v) = reverse_range v start (to - 1)
        in (0, v)
      else (0, v))"

definition VectorReverseRange :: "'a vector option \<Rightarrow> int \<Rightarrow> int \<Rightarrow> int \<times> 'a vector option" where
  "VectorReverseRange self x y = on_vector (-1) (\<lambda>v. reverse_range v x y) self"

definition VectorMoveRange :: "'a vector option \<Rightarrow> int \<Rightarrow> int \<Rightarrow> int \<Rightarrow> int \<times> 'a vector option" where
  "VectorMoveRange self start finish to = on_vector (-1) (\<lambda>v. move_range v start finish to) self"

section \<open>Adding, removing, replacing\<close>

text \<open>\<open>VectorRemoveSome\<close>: the loop over the objects to destroy reads the slots \<open>index\<close> to
  \<open>index + length - 1\<close>, so a negative index reads before the array.\<close>

definition remove_some :: "'a vector \<Rightarrow> int \<Rightarrow> int \<Rightarrow> fault + int \<times> 'a vector" where
  "remove_some v index n =
     (if int (veclen v) < index + n then Inr (-1, v)
      else if index < 0 \<and> 0 < n then Inl OutOfBounds
      else
        let v = v\<lparr>destroyed := destroyed v @ List.map_filter (\<lambda>i. base v ! i) [nat index ..< nat (index + n)]\<rparr>;
            (r, v) = move_range v index (index + n - 1) (int (veclen v));
            v = (if r = 0 then v\<lparr>veclen := veclen v - nat n\<rparr> else v)
        in Inr (0, v\<lparr>base := (base v)[veclen v := None]\<rparr>))"

definition VectorRemoveSome :: "'a vector option \<Rightarrow> int \<Rightarrow> int \<Rightarrow> fault + int \<times> 'a vector option" where
  "VectorRemoveSome self index n =
     (case self of
        None \<Rightarrow> Inr (-1, None)
      | Some v \<Rightarrow> (case remove_some v index n of Inl e \<Rightarrow> Inl e | Inr (r, v) \<Rightarrow> Inr (r, Some v)))"

definition VectorRemove :: "'a vector option \<Rightarrow> int \<Rightarrow> fault + int \<times> 'a vector option" where
  "VectorRemove self index = VectorRemoveSome self index 1"

definition VectorRemoveAll :: "'a vector option \<Rightarrow> fault + 'a vector option" where
  "VectorRemoveAll self =
     (case self of
        None \<Rightarrow> Inr None
      | Some v \<Rightarrow>
          (case VectorRemoveSome self 0 (int (veclen v)) of Inl e \<Rightarrow> Inl e | Inr (_, v) \<Rightarrow> Inr v))"

text \<open>\<open>VectorDestroy\<close> frees the array after its entries; \<open>qsort\<close> is the C library's.\<close>

definition VectorDestroy :: "'a vector option \<Rightarrow> fault + 'a vector option" where
  "VectorDestroy self =
     (case self of
        None \<Rightarrow> Inr None
      | Some v \<Rightarrow> (case VectorRemoveAll self of Inl e \<Rightarrow> Inl e | Inr _ \<Rightarrow> Inr None))"

definition VectorSort :: "('a option list \<Rightarrow> 'a option list) \<Rightarrow> 'a vector option \<Rightarrow> 'a vector option" where
  "VectorSort qsort self = map_option (\<lambda>v. v\<lparr>base := qsort (take (veclen v) (base v)) @ drop (veclen v) (base v)\<rparr>) self"

text \<open>\<open>realloc\<close> gives null (\<open>None\<close>) or \<open>VECTOR_GROWTH\<close> more slots of any content.\<close>

definition VECTOR_GROWTH :: nat where
  "VECTOR_GROWTH = 100"

definition vec_add :: "'a option list option \<Rightarrow> 'a vector \<Rightarrow> 'a option \<Rightarrow> int \<times> 'a vector" where
  "vec_add mem v data =
     (if data = None then (-1, v)
      else
        let grown =
              (if capacity v \<le> veclen v then
                 (case mem of
                    None \<Rightarrow> None
                  | Some slots \<Rightarrow>
                      Some (v\<lparr>base := base v @ slots, capacity := capacity v + VECTOR_GROWTH\<rparr>))
               else Some v)
        in case grown of
             None \<Rightarrow> (-1, v)
           | Some v \<Rightarrow>
               (0, v\<lparr>base := (base v)[veclen v := data, veclen v + 1 := None],
                     veclen := veclen v + 1\<rparr>))"

definition vec_insert :: "'a option list option \<Rightarrow> 'a vector \<Rightarrow> int \<Rightarrow> 'a option \<Rightarrow> int \<times> 'a vector" where
  "vec_insert mem v before data =
     (let last = int (veclen v);
          (r, v) = vec_add mem v data
      in if r \<noteq> 0 then (-1, v) else move_range v last last before)"

definition vec_replace :: "'a vector \<Rightarrow> int \<Rightarrow> 'a option \<Rightarrow> 'a option \<times> 'a vector" where
  "vec_replace v index data =
     (if 0 \<le> index \<and> index < int (veclen v)
      then (base v ! nat index, v\<lparr>base := (base v)[nat index := data]\<rparr>)
      else if - int (veclen v) \<le> index \<and> index < 0
      then (base v ! nat (int (veclen v) + index),
            v\<lparr>base := (base v)[nat (int (veclen v) + index) := data]\<rparr>)
      else (None, v))"

definition VectorAdd :: "'a option list option \<Rightarrow> 'a vector option \<Rightarrow> 'a option \<Rightarrow> int \<times> 'a vector option" where
  "VectorAdd mem self data = on_vector (-1) (\<lambda>v. vec_add mem v data) self"

definition VectorInsert ::
    "'a option list option \<Rightarrow> 'a vector option \<Rightarrow> int \<Rightarrow> 'a option \<Rightarrow> int \<times> 'a vector option" where
  "VectorInsert mem self before data = on_vector (-1) (\<lambda>v. vec_insert mem v before data) self"

definition VectorReplace :: "'a vector option \<Rightarrow> int \<Rightarrow> 'a option \<Rightarrow> 'a option \<times> 'a vector option" where
  "VectorReplace self index data = on_vector None (\<lambda>v. vec_replace v index data) self"

definition VectorSet :: "'a vector option \<Rightarrow> int \<Rightarrow> 'a option \<Rightarrow> 'a vector option" where
  "VectorSet self index data =
     (let (old, self) = VectorReplace self index data
      in if old \<noteq> None \<and> old \<noteq> data
         then map_option (\<lambda>v. v\<lparr>destroyed := destroyed v @ [the old]\<rparr>) self else self)"

section \<open>Walking\<close>

text \<open>\<open>VectorUniq\<close>: \<open>compare\<close> gets the previous kept entry and the current one.\<close>

function uniq_loop ::
    "('a option \<Rightarrow> 'a option \<Rightarrow> int) \<Rightarrow> 'a option \<Rightarrow> nat \<Rightarrow> 'a vector \<Rightarrow> fault + 'a vector" where
  "uniq_loop cmp prev i v =
     (if i < veclen v then
        if cmp prev (base v ! i) = 0 then
          (case remove_some v (int i) 1 of
             Inl e \<Rightarrow> Inl e
           | Inr (r, v') \<Rightarrow> if veclen v' < veclen v then uniq_loop cmp prev i v' else Inl NoReturn)
        else uniq_loop cmp (base v ! i) (i + 1) v
      else Inr v)"
  by pat_completeness auto
termination
  by (relation "measure (\<lambda>(cmp, prev, i, v). veclen v - i)") auto

declare uniq_loop.simps [simp del]

definition VectorUniq ::
    "('a option \<Rightarrow> 'a option \<Rightarrow> int) \<Rightarrow> 'a vector option \<Rightarrow> fault + 'a vector option" where
  "VectorUniq cmp self =
     (case self of
        None \<Rightarrow> Inr None
      | Some v \<Rightarrow>
          (case uniq_loop cmp (base v ! 0) 1 v of Inl e \<Rightarrow> Inl e | Inr v \<Rightarrow> Inr (Some v)))"

text \<open>The callbacks of \<open>VectorWalk\<close>, \<open>VectorAll\<close> and \<open>VectorSome\<close> see the index and the entry
  and have a state of their own; \<open>k\<close> is one more than the index of the next call.\<close>

fun walk_loop ::
    "('s \<Rightarrow> nat \<Rightarrow> 'a option \<Rightarrow> int \<times> 's) \<Rightarrow> nat \<Rightarrow> 's \<Rightarrow> 'a vector \<Rightarrow> fault + int \<times> 's \<times> 'a vector" where
  "walk_loop f 0 s v = Inr (1, s, v)"
| "walk_loop f (Suc k) s v =
     (let (r, s) = f s k (base v ! k)
      in if r = 0 then Inr (0, s, v)
         else if r = -1 then
           (case remove_some v (int k) 1 of Inl e \<Rightarrow> Inl e | Inr (_, v) \<Rightarrow> walk_loop f k s v)
         else walk_loop f k s v)"

definition VectorWalk ::
    "('s \<Rightarrow> nat \<Rightarrow> 'a option \<Rightarrow> int \<times> 's) \<Rightarrow> 's \<Rightarrow> 'a vector option
     \<Rightarrow> fault + int \<times> 's \<times> 'a vector option" where
  "VectorWalk f s self =
     (case self of
        None \<Rightarrow> Inr (-1, s, None)
      | Some v \<Rightarrow>
          (case walk_loop f (veclen v) s v of
             Inl e \<Rightarrow> Inl e | Inr (r, s, v) \<Rightarrow> Inr (r, s, Some v)))"

fun all_loop :: "('s \<Rightarrow> nat \<Rightarrow> 'a option \<Rightarrow> int \<times> 's) \<Rightarrow> nat \<Rightarrow> 's \<Rightarrow> 'a vector \<Rightarrow> int \<times> 's" where
  "all_loop f 0 s v = (1, s)"
| "all_loop f (Suc k) s v =
     (let (r, s) = f s k (base v ! k) in if r = 0 then (0, s) else all_loop f k s v)"

definition VectorAll ::
    "('s \<Rightarrow> nat \<Rightarrow> 'a option \<Rightarrow> int \<times> 's) \<Rightarrow> 's \<Rightarrow> 'a vector option \<Rightarrow> int \<times> 's" where
  "VectorAll f s self = (case self of None \<Rightarrow> (0, s) | Some v \<Rightarrow> all_loop f (veclen v) s v)"

fun some_loop :: "('s \<Rightarrow> nat \<Rightarrow> 'a option \<Rightarrow> int \<times> 's) \<Rightarrow> nat \<Rightarrow> 's \<Rightarrow> 'a vector \<Rightarrow> int \<times> 's" where
  "some_loop f 0 s v = (0, s)"
| "some_loop f (Suc k) s v =
     (let (r, s) = f s k (base v ! k) in if r = 1 then (1, s) else some_loop f k s v)"

definition VectorSome ::
    "('s \<Rightarrow> nat \<Rightarrow> 'a option \<Rightarrow> int \<times> 's) \<Rightarrow> 's \<Rightarrow> 'a vector option \<Rightarrow> int \<times> 's" where
  "VectorSome f s self = (case self of None \<Rightarrow> (0, s) | Some v \<Rightarrow> some_loop f (veclen v) s v)"

section \<open>Moving a range is a rotation\<close>

lemma reverse_range_split:
  assumes "base v = A @ B @ C" "B \<noteq> []" "length A + length B \<le> veclen v"
    "x = int (length A)" "y = int (length A + length B) - 1"
  shows "reverse_range v x y = (0, v\<lparr>base := A @ rev B @ C\<rparr>)"
proof -
  have y: "nat y + 1 = length A + length B" using assms(2,5) by (cases B) auto
  have "\<not> (x < 0 \<or> int (veclen v) \<le> x)" "\<not> (y < 0 \<or> int (veclen v) \<le> y)" "\<not> y < x"
    using assms(2-5) by (cases B; simp)+
  moreover have "swap_loop (nat x) (nat y + 1) (base v) = A @ rev B @ C"
    unfolding y assms(1) using assms(4) by (simp add: swap_segment)
  ultimately show ?thesis by (simp add: reverse_range_def)
qed

lemma reverse_range_empty: "y < x \<Longrightarrow> reverse_range v x y = (-1, v)"
  by (auto simp: reverse_range_def)

lemma move_range_up:
  assumes "base v = A @ B @ C @ D" "B \<noteq> []" "length A + length B + length C \<le> veclen v"
  shows "move_range v (int (length A)) (int (length A + length B) - 1)
    (int (length A + length B + length C)) = (0, v\<lparr>base := A @ C @ B @ D\<rparr>)"
proof -
  let ?s = "int (length A)" and ?f = "int (length A + length B) - 1"
    and ?t = "int (length A + length B + length C)"
  let ?v1 = "v\<lparr>base := A @ rev B @ C @ D\<rparr>"
  have 1: "reverse_range v ?s ?f = (0, ?v1)"
    using assms by (intro reverse_range_split [of v A B "C @ D"]) simp_all
  have "snd (reverse_range ?v1 (?f + 1) (?t - 1)) = v\<lparr>base := (A @ rev B) @ rev C @ D\<rparr>"
  proof (cases "C = []")
    case True
    then show ?thesis by (simp add: reverse_range_empty)
  next
    case False
    then have "reverse_range ?v1 (?f + 1) (?t - 1) = (0, ?v1\<lparr>base := (A @ rev B) @ rev C @ D\<rparr>)"
      using assms by (intro reverse_range_split [of ?v1 "A @ rev B" C D]) simp_all
    then show ?thesis by simp
  qed
  then obtain r2 where 2: "reverse_range ?v1 (?f + 1) (?t - 1) =
      (r2, v\<lparr>base := (A @ rev B) @ rev C @ D\<rparr>)" by (metis prod.collapse)
  have 3: "reverse_range (v\<lparr>base := (A @ rev B) @ rev C @ D\<rparr>) ?s (?t - 1) =
      (0, (v\<lparr>base := (A @ rev B) @ rev C @ D\<rparr>)\<lparr>base := A @ rev (rev B @ rev C) @ D\<rparr>)"
    using assms by (intro reverse_range_split [of _ A "rev B @ rev C" D]) simp_all
  have "\<not> ?f < ?s" "\<not> ?t < ?s" "?f < ?t \<and> ?t \<le> int (veclen v)"
    using assms(2,3) by (cases B; simp)+
  then show ?thesis using 1 2 3 unfolding move_range_def Let_def
    by simp
qed

lemma move_range_down:
  assumes "base v = A @ B @ C @ D" "B \<noteq> []" "C \<noteq> []" "length A + length B + length C \<le> veclen v"
  shows "move_range v (int (length A + length B)) (int (length A + length B + length C) - 1)
    (int (length A)) = (0, v\<lparr>base := A @ C @ B @ D\<rparr>)"
proof -
  let ?s = "int (length A + length B)" and ?f = "int (length A + length B + length C) - 1"
    and ?t = "int (length A)"
  have 1: "reverse_range v ?t (?s - 1) = (0, v\<lparr>base := A @ rev B @ C @ D\<rparr>)"
    using assms by (intro reverse_range_split [of v A B "C @ D"]) simp_all
  have 2: "reverse_range (v\<lparr>base := A @ rev B @ C @ D\<rparr>) ?s ?f =
      (0, (v\<lparr>base := A @ rev B @ C @ D\<rparr>)\<lparr>base := (A @ rev B) @ rev C @ D\<rparr>)"
    using assms by (intro reverse_range_split [of _ "A @ rev B" C D]) simp_all
  have 3: "reverse_range (v\<lparr>base := (A @ rev B) @ rev C @ D\<rparr>) ?t ?f =
      (0, (v\<lparr>base := (A @ rev B) @ rev C @ D\<rparr>)\<lparr>base := A @ rev (rev B @ rev C) @ D\<rparr>)"
    using assms by (intro reverse_range_split [of _ A "rev B @ rev C" D]) simp_all
  have "\<not> ?f < ?s" "?t < ?s" using assms(2,3) by (cases B; cases C; simp)+
  then show ?thesis using 1 2 3 unfolding move_range_def Let_def by simp
qed

lemma vec_ok_move:
  assumes "vec_ok v" "length b = length (base v)" "drop (veclen v) b = drop (veclen v) (base v)"
  shows "vec_ok (v\<lparr>base := b\<rparr>)"
proof -
  have "veclen v < length (base v)" using assms(1) by (simp add: vec_ok_def)
  then have "b ! veclen v = base v ! veclen v"
    using assms(2,3) by (metis Cons_nth_drop_Suc nth_via_drop)
  then show ?thesis using assms by (simp add: vec_ok_def)
qed

lemma length_contents [simp]: "vec_ok v \<Longrightarrow> length (contents v) = veclen v"
  by (simp add: contents_def vec_ok_def)

lemma base_split: "base v = contents v @ drop (veclen v) (base v)"
  by (simp add: contents_def)

lemma contents_upd: "length xs = veclen v \<Longrightarrow> contents (v\<lparr>base := xs @ D\<rparr>) = xs"
  by (simp add: contents_def)

section \<open>Adding, inserting, removing\<close>

lemma vec_add_ok:
  assumes "vec_ok v" "length slots = VECTOR_GROWTH"
  shows "\<exists>v'. vec_add (Some slots) v (Some x) = (0, v') \<and> vec_ok v' \<and>
    contents v' = contents v @ [Some x] \<and> destroyed v' = destroyed v \<and> veclen v' = veclen v + 1"
proof -
  define v1 where "v1 = (if capacity v \<le> veclen v
    then v\<lparr>base := base v @ slots, capacity := capacity v + VECTOR_GROWTH\<rparr> else v)"
  have v1: "veclen v1 = veclen v" "destroyed v1 = destroyed v" "contents v1 = contents v"
    "veclen v1 < capacity v1" "length (base v1) = capacity v1 + 1"
    using assms by (auto simp: v1_def vec_ok_def contents_def VECTOR_GROWTH_def)
  have "vec_add (Some slots) v (Some x) =
      (0, v1\<lparr>base := (base v1)[veclen v1 := Some x, veclen v1 + 1 := None], veclen := veclen v1 + 1\<rparr>)"
    by (simp add: vec_add_def v1_def Let_def)
  moreover have "contents (v1\<lparr>base := (base v1)[veclen v1 := Some x, veclen v1 + 1 := None],
      veclen := veclen v1 + 1\<rparr>) = contents v @ [Some x]"
  proof -
    have "2 \<le> length (drop (veclen v1) (base v1))" using v1(4,5) by simp
    then obtain y z r where d: "drop (veclen v1) (base v1) = y # z # r"
      by (metis Suc_le_length_iff numeral_2_eq_2)
    have "length (contents v) = veclen v1" using assms(1) v1(1) by simp
    moreover have "base v1 = contents v @ y # z # r" using base_split [of v1] v1(3) d by simp
    ultimately show ?thesis by (simp add: contents_def [of "_ \<lparr>veclen := _\<rparr>"] list_update_append)
  qed
  ultimately show ?thesis using v1 by (simp add: vec_ok_def)
qed

lemma vec_insert_ok:
  assumes "vec_ok v" "length slots = VECTOR_GROWTH" "i \<le> veclen v"
  shows "\<exists>v'. vec_insert (Some slots) v (int i) (Some x) = (0, v') \<and> vec_ok v' \<and>
    contents v' = take i (contents v) @ [Some x] @ drop i (contents v) \<and> destroyed v' = destroyed v"
proof -
  from vec_add_ok [OF assms(1,2), of x] obtain v1 where
    v1: "vec_add (Some slots) v (Some x) = (0, v1)" "vec_ok v1" "contents v1 = contents v @ [Some x]"
      "destroyed v1 = destroyed v" "veclen v1 = veclen v + 1" by blast
  let ?A = "take i (contents v)" and ?B = "drop i (contents v)"
  obtain D where b: "base v1 = ?A @ ?B @ [Some x] @ D"
  proof -
    have "base v1 = ((?A @ ?B) @ [Some x]) @ drop (veclen v1) (base v1)"
      using base_split [of v1] v1(3) by simp
    then show thesis using that by (simp only: append_assoc)
  qed
  have l: "length ?A = i" "length ?B = veclen v - i" using assms by simp_all
  show ?thesis
  proof (cases "?B = []")
    case True
    then have "i = veclen v" using assms(1,3) by simp
    then have "vec_insert (Some slots) v (int i) (Some x) = (0, v1)"
      using v1 by (simp add: vec_insert_def move_range_def)
    then show ?thesis using v1 True \<open>i = veclen v\<close> assms(1) by simp
  next
    case False
    have s: "int (length ?A) = int i" "int (length ?A + length ?B) = int (veclen v)"
      "int (length ?A + length ?B + length [Some x]) - 1 = int (veclen v)"
      and le: "length ?A + length ?B + length [Some x] \<le> veclen v1"
      using l assms(3) v1(5) by simp_all
    have mv: "move_range v1 (int (veclen v)) (int (veclen v)) (int i) =
        (0, v1\<lparr>base := ?A @ [Some x] @ ?B @ D\<rparr>)"
      by (rule move_range_down [OF b False list.distinct(2) le, unfolded s])
    then have "vec_insert (Some slots) v (int i) (Some x) = (0, v1\<lparr>base := ?A @ [Some x] @ ?B @ D\<rparr>)"
      by (simp only: vec_insert_def Let_def v1(1) prod.case mv if_False refl not_not simp_thms)
    moreover have "vec_ok (v1\<lparr>base := ?A @ [Some x] @ ?B @ D\<rparr>)"
      using l assms(1,3) v1(5)
      by (intro vec_ok_move [OF v1(2)]) (simp_all add: b Suc_diff_le)
    moreover have "contents (v1\<lparr>base := ?A @ [Some x] @ ?B @ D\<rparr>) = ?A @ [Some x] @ ?B"
    proof -
      have "length (?A @ [Some x] @ ?B) = veclen v1" using assms(1,3) v1(5) by simp
      from contents_upd [OF this, of D] show ?thesis by (simp only: append_assoc)
    qed
    ultimately show ?thesis using v1(4) by auto
  qed
qed

lemma remove_some_ok:
  assumes "vec_ok v" "0 < n" "i + n \<le> veclen v"
  shows "\<exists>v'. remove_some v (int i) (int n) = Inr (0, v') \<and> vec_ok v' \<and>
    contents v' = take i (contents v) @ drop (i + n) (contents v) \<and> veclen v' = veclen v - n \<and>
    destroyed v' = destroyed v @ List.map_filter id (take n (drop i (contents v)))"
proof -
  define v1 where "v1 = v\<lparr>destroyed := destroyed v @ List.map_filter (\<lambda>j. base v ! j) [i ..< i + n]\<rparr>"
  let ?A = "take i (contents v)" and ?B = "take n (drop i (contents v))"
    and ?C = "drop (i + n) (contents v)" and ?D = "drop (veclen v) (base v)"
  have l: "length ?A = i" "length ?B = n" "length ?C = veclen v - (i + n)" using assms by simp_all
  have "drop i (contents v) = ?B @ ?C"
    by (metis append_take_drop_id drop_drop add.commute)
  then have "contents v = ?A @ ?B @ ?C" by (metis append_take_drop_id)
  then have b: "base v1 = ?A @ ?B @ ?C @ ?D"
    using base_split [of v] by (simp add: v1_def) (metis append.assoc)
  have ne: "?B \<noteq> []" using l(2) assms(2) by auto
  have mv: "move_range v1 (int i) (int i + int n - 1) (int (veclen v)) =
      (0, v1\<lparr>base := ?A @ ?C @ ?B @ ?D\<rparr>)"
    using move_range_up [OF b ne] l assms(3) by (simp add: v1_def)
  have dest: "List.map_filter (\<lambda>j. base v ! j) [i ..< i + n] = List.map_filter id ?B"
  proof -
    have "?B = map (\<lambda>j. base v ! j) [i ..< i + n]"
      using assms(1,3) by (intro nth_equalityI) (simp_all add: contents_def vec_ok_def)
    then show ?thesis by (simp add: List.map_filter_def comp_def filter_map)
  qed
  let ?b = "(?A @ ?C @ ?B @ ?D)[veclen v - n := None]"
  have r: "remove_some v (int i) (int n) =
      Inr (0, v1\<lparr>base := ?b, veclen := veclen v - n\<rparr>)"
    using assms(3) mv unfolding remove_some_def Let_def
    by (simp add: v1_def nat_add_distrib)
  have "contents (v1\<lparr>base := ?b, veclen := veclen v - n\<rparr>) = ?A @ ?C"
  proof -
    have "take (veclen v - n) ?b = take (veclen v - n) (?A @ ?C @ ?B @ ?D)" by simp
    also have "\<dots> = ?A @ ?C" using l assms(3) by simp
    finally show ?thesis by (simp add: contents_def)
  qed
  moreover have "vec_ok (v1\<lparr>base := ?b, veclen := veclen v - n\<rparr>)"
  proof -
    have "length (base v1) = length (base v)" by (simp add: v1_def)
    moreover have "length ?b = length (base v1)" unfolding b by (simp add: add.commute add.left_commute)
    ultimately have len: "length ?b = capacity v + 1" using assms(1) unfolding vec_ok_def by simp
    have "veclen v \<le> capacity v" using assms(1) by (simp add: vec_ok_def)
    then have "veclen v - n < capacity v + 1" by linarith
    then have "veclen v - n < length ?b" unfolding len .
    then have "?b ! (veclen v - n) = None" by simp
    moreover have "veclen v - n \<le> capacity v" using \<open>veclen v \<le> capacity v\<close> by linarith
    ultimately show ?thesis using len unfolding vec_ok_def v1_def by simp
  qed
  ultimately show ?thesis using r dest by (simp add: v1_def)
qed

section \<open>The interface of an indexed sequence\<close>

text \<open>What a client of a vector relies on: inserting and removing at an index act on the sequence
  of entries as on a list.\<close>

locale seq_ops =
  fixes inv :: "'v \<Rightarrow> bool"
    and cont :: "'v \<Rightarrow> 'e list"
    and allowed :: "'e \<Rightarrow> bool"
    and ins :: "'v \<Rightarrow> nat \<Rightarrow> 'e \<Rightarrow> 'v"
    and del :: "'v \<Rightarrow> nat \<Rightarrow> 'v"
  assumes ins_ok: "inv v \<Longrightarrow> allowed x \<Longrightarrow> i \<le> length (cont v) \<Longrightarrow>
      inv (ins v i x) \<and> cont (ins v i x) = take i (cont v) @ [x] @ drop i (cont v)"
    and del_ok: "inv v \<Longrightarrow> i < length (cont v) \<Longrightarrow>
      inv (del v i) \<and> cont (del v i) = take i (cont v) @ drop (Suc i) (cont v)"
begin

lemma del_ins:
  assumes "inv v" "allowed x" "i \<le> length (cont v)"
  shows "cont (del (ins v i x) i) = cont v"
  using ins_ok [OF assms] del_ok [of "ins v i x" i] assms(3) by simp

text \<open>Appending one by one builds the list.\<close>

definition append_all :: "'v \<Rightarrow> 'e list \<Rightarrow> 'v" where
  "append_all v xs = foldl (\<lambda>v x. ins v (length (cont v)) x) v xs"

lemma append_all:
  assumes "inv v" "list_all allowed xs"
  shows "inv (append_all v xs) \<and> cont (append_all v xs) = cont v @ xs"
  using assms
proof (induction xs arbitrary: v)
  case (Cons x xs)
  have "inv (ins v (length (cont v)) x) \<and> cont (ins v (length (cont v)) x) = cont v @ [x]"
    using Cons.prems ins_ok [of v x "length (cont v)"] by simp
  then show ?case using Cons by (simp add: append_all_def)
qed (simp add: append_all_def)

text \<open>Removing the last entry as often as there are entries empties the sequence.\<close>

fun drain :: "nat \<Rightarrow> 'v \<Rightarrow> 'v" where
  "drain 0 v = v"
| "drain (Suc n) v = drain n (del v n)"

lemma drain: "inv v \<Longrightarrow> length (cont v) = n \<Longrightarrow> inv (drain n v) \<and> cont (drain n v) = []"
proof (induction n arbitrary: v)
  case (Suc n)
  then have "inv (del v n) \<and> cont (del v n) = take n (cont v) @ drop (Suc n) (cont v)"
    using del_ok [of v n] by simp
  with Suc show ?case by simp
qed simp

end

definition vec_ins :: "'a vector \<Rightarrow> nat \<Rightarrow> 'a option \<Rightarrow> 'a vector" where
  "vec_ins v i x = snd (vec_insert (Some (replicate VECTOR_GROWTH None)) v (int i) x)"

definition vec_del :: "'a vector \<Rightarrow> nat \<Rightarrow> 'a vector" where
  "vec_del v i = (case remove_some v (int i) 1 of Inl e \<Rightarrow> v | Inr (r, v') \<Rightarrow> v')"

interpretation vec: seq_ops vec_ok contents "\<lambda>x. x \<noteq> None" vec_ins vec_del
proof (unfold_locales, goal_cases)
  case (1 v x i)
  then obtain y where "x = Some y" by auto
  then show ?case
    using vec_insert_ok [of v "replicate VECTOR_GROWTH None" i y] 1 by (auto simp: vec_ins_def)
next
  case (2 v i)
  then show ?case using remove_some_ok [of v 1 i] by (auto simp: vec_del_def)
qed

section \<open>Dropping duplicates, walking\<close>

fun uniq_by :: "('e \<Rightarrow> 'e \<Rightarrow> int) \<Rightarrow> 'e list \<Rightarrow> 'e list" where
  "uniq_by c [] = []"
| "uniq_by c [x] = [x]"
| "uniq_by c (x # y # ys) = (if c x y = 0 then uniq_by c (x # ys) else x # uniq_by c (y # ys))"

lemma nth_contents: "i < veclen v \<Longrightarrow> contents v ! i = base v ! i"
  by (simp add: contents_def)

lemma uniq_loop_ok:
  assumes "vec_ok v" "contents v = done @ prev # rest" "i = length done + 1"
  shows "\<exists>v'. uniq_loop cmp prev i v = Inr v' \<and> vec_ok v' \<and> contents v' = done @ uniq_by cmp (prev # rest)"
  using assms
proof (induction rest arbitrary: v "done" prev i)
  case Nil
  then have "veclen v = i" using length_contents [of v] by simp
  then show ?case using Nil by (subst uniq_loop.simps) simp
next
  case (Cons y rest)
  have len: "veclen v = i + 1 + length rest"
    using length_contents [OF Cons.prems(1)] Cons.prems(2,3) by simp
  then have y: "base v ! i = y"
    using nth_contents [of i v] Cons.prems(2,3) by (simp add: nth_append)
  show ?case
  proof (cases "cmp prev y = 0")
    case True
    from remove_some_ok [of v 1 i] Cons.prems(1) len obtain v1 where
      v1: "remove_some v (int i) 1 = Inr (0, v1)" "vec_ok v1" "veclen v1 = veclen v - 1"
        "contents v1 = take i (contents v) @ drop (i + 1) (contents v)" by auto
    then have c1: "contents v1 = done @ prev # rest" using Cons.prems(2,3) by simp
    have "uniq_loop cmp prev i v = uniq_loop cmp prev i v1"
      using len y v1(1,3) True by (subst uniq_loop.simps) simp
    then show ?thesis using Cons.IH [OF v1(2) c1 Cons.prems(3)] True by simp
  next
    case False
    have "uniq_loop cmp prev i v = uniq_loop cmp y (i + 1) v"
      using len y False by (subst uniq_loop.simps) simp
    then show ?thesis using Cons.IH [of v "done @ [prev]" y "i + 1"] Cons.prems False by simp
  qed
qed

text \<open>The callback without a state of its own.\<close>

definition pure_fn :: "(nat \<Rightarrow> 'a option \<Rightarrow> int) \<Rightarrow> unit \<Rightarrow> nat \<Rightarrow> 'a option \<Rightarrow> int \<times> unit" where
  "pure_fn f s i x = (f i x, s)"

definition kept :: "(nat \<Rightarrow> 'a option \<Rightarrow> int) \<Rightarrow> 'a option list \<Rightarrow> 'a option list" where
  "kept f xs = map snd (filter (\<lambda>(i, x). f i x \<noteq> -1) (enumerate 0 xs))"

lemma kept_snoc: "kept f (xs @ [x]) = kept f xs @ (if f (length xs) x \<noteq> -1 then [x] else [])"
  by (simp add: kept_def enumerate_append_eq)

lemma walk_loop_ok:
  assumes "vec_ok v" "k \<le> veclen v" "\<And>i x. f i x \<noteq> 0"
  shows "\<exists>v'. walk_loop (pure_fn f) k s v = Inr (1, s, v') \<and> vec_ok v' \<and>
    contents v' = kept f (take k (contents v)) @ drop k (contents v)"
  using assms(1,2)
proof (induction k arbitrary: v)
  case 0
  then show ?case by (simp add: kept_def)
next
  case (Suc k)
  let ?x = "contents v ! k"
  have x: "base v ! k = ?x" using nth_contents [of k v] Suc.prems by simp
  have t: "take (Suc k) (contents v) = take k (contents v) @ [?x]"
    "drop k (contents v) = ?x # drop (Suc k) (contents v)"
    using Suc.prems by (simp_all add: take_Suc_conv_app_nth Cons_nth_drop_Suc)
  have l: "length (take k (contents v)) = k" using Suc.prems by simp
  show ?case
  proof (cases "f k ?x = -1")
    case True
    from remove_some_ok [of v 1 k] Suc.prems obtain v1 where
      v1: "remove_some v (int k) 1 = Inr (0, v1)" "vec_ok v1" "veclen v1 = veclen v - 1"
        "contents v1 = take k (contents v) @ drop (k + 1) (contents v)" by auto
    have "walk_loop (pure_fn f) (Suc k) s v = walk_loop (pure_fn f) k s v1"
      using v1(1) True by (simp add: x pure_fn_def)
    moreover obtain v' where "walk_loop (pure_fn f) k s v1 = Inr (1, s, v')" "vec_ok v'"
        "contents v' = kept f (take k (contents v1)) @ drop k (contents v1)"
    proof -
      have "k \<le> veclen v1" using v1(3) Suc.prems(2) by linarith
      then show thesis using Suc.IH [OF v1(2)] that by blast
    qed
    ultimately show ?thesis using v1(4) True l unfolding t(1) kept_snoc
      by (simp add: min_absorb1)
  next
    case False
    then have "walk_loop (pure_fn f) (Suc k) s v = walk_loop (pure_fn f) k s v"
      using assms(3) by (simp add: x pure_fn_def)
    then show ?thesis using Suc.IH [of v] Suc.prems False l unfolding t(1) kept_snoc
      by (simp add: t(2))
  qed
qed

lemma all_loop_eq: "fst (all_loop (pure_fn f) k s v) = (if \<forall>i < k. f i (base v ! i) \<noteq> 0 then 1 else 0)"
  by (induction k) (auto simp: pure_fn_def less_Suc_eq)

lemma some_loop_eq: "fst (some_loop (pure_fn f) k s v) = (if \<exists>i < k. f i (base v ! i) = 1 then 1 else 0)"
  by (induction k) (auto simp: pure_fn_def less_Suc_eq)

section \<open>Properties\<close>

text \<open>Both directions of \<open>VectorMoveRange\<close> rotate a middle part of the array and keep the rest:
  moving the range \<open>C\<close> to the start of the preceding entries \<open>B\<close>, and moving the range \<open>B\<close> to just
  before the entry after \<open>C\<close>, both exchange the neighbouring parts \<open>B\<close> and \<open>C\<close>. The result is 0 and
  nothing but the slots changes.\<close>

lemma VectorMoveRange_rotates:
  assumes "base v = A @ B @ C @ D" "B \<noteq> []" "C \<noteq> []"
    "length A + length B + length C \<le> veclen v"
    "a = int (length A)" "b = int (length A + length B)" "c = int (length A + length B + length C)"
  shows "VectorMoveRange (Some v) b (c - 1) a = (0, Some (v\<lparr>base := A @ C @ B @ D\<rparr>)) \<and>
    VectorMoveRange (Some v) a (b - 1) c = (0, Some (v\<lparr>base := A @ C @ B @ D\<rparr>))"
  using move_range_down [of v A B C D] move_range_up [of v A B C D] assms
  by (simp add: VectorMoveRange_def on_vector_def)

definition v5 :: "int vector" where
  "v5 = \<lparr>base = [Some 1, Some 2, Some 3, Some 4, Some 5, None], capacity = 5, veclen = 5, destroyed = []\<rparr>"

text \<open>C28: \<open>VectorInsert\<close> with an index up to the length puts the object in front of that entry,
  growing the array when it is full; \<open>VectorRemoveSome\<close> takes the entries of a non-empty range
  within the length out, hands exactly their objects to the destructor, in order, and keeps the rest.
  Both keep the invariant, with the null after the last entry.\<close>

theorem VectorInsert_RemoveSome:
  assumes "vec_ok v" "length slots = VECTOR_GROWTH" "i \<le> veclen v" "0 < n" "j + n \<le> veclen v"
  shows "(\<exists>v'. VectorInsert (Some slots) (Some v) (int i) (Some x) = (0, Some v') \<and> vec_ok v' \<and>
      contents v' = take i (contents v) @ [Some x] @ drop i (contents v) \<and> destroyed v' = destroyed v) \<and>
    (\<exists>v'. VectorRemoveSome (Some v) (int j) (int n) = Inr (0, Some v') \<and> vec_ok v' \<and>
      contents v' = take j (contents v) @ drop (j + n) (contents v) \<and>
      destroyed v' = destroyed v @ List.map_filter id (take n (drop j (contents v))))"
proof
  show "\<exists>v'. VectorInsert (Some slots) (Some v) (int i) (Some x) = (0, Some v') \<and> vec_ok v' \<and>
      contents v' = take i (contents v) @ [Some x] @ drop i (contents v) \<and> destroyed v' = destroyed v"
    using vec_insert_ok [OF assms(1-3), of x] by (auto simp: VectorInsert_def on_vector_def)
  show "\<exists>v'. VectorRemoveSome (Some v) (int j) (int n) = Inr (0, Some v') \<and> vec_ok v' \<and>
      contents v' = take j (contents v) @ drop (j + n) (contents v) \<and>
      destroyed v' = destroyed v @ List.map_filter id (take n (drop j (contents v)))"
    using remove_some_ok [OF assms(1,4,5)] by (auto simp: VectorRemoveSome_def)
qed

theorem VectorInsert_RemoveSome_witness:
  "(\<exists>v'. VectorInsert (Some (replicate VECTOR_GROWTH None)) (Some v5) 2 (Some 9) = (0, Some v') \<and>
      vec_ok v' \<and> contents v' = [Some 1, Some 2, Some 9, Some 3, Some 4, Some 5] \<and> destroyed v' = []) \<and>
   (\<exists>v'. VectorRemoveSome (Some v5) 1 3 = Inr (0, Some v') \<and> vec_ok v' \<and>
      contents v' = [Some 1, Some 5] \<and> destroyed v' = [2, 3, 4])"
  using VectorInsert_RemoveSome [of v5 "replicate VECTOR_GROWTH None" 2 3 1 9]
  by (simp add: v5_def vec_ok_def contents_def map_filter_simps)

text \<open>\<open>VectorUniq\<close> on a vector that is not empty leaves the entries of which none compares
  equal with the entry kept before it, in order.\<close>

lemma VectorUniq_uniq_by:
  assumes "vec_ok v" "contents v \<noteq> []"
  shows "\<exists>v'. VectorUniq cmp (Some v) = Inr (Some v') \<and> vec_ok v' \<and> contents v' = uniq_by cmp (contents v)"
proof -
  obtain x xs where c: "contents v = x # xs" using assms(2) by (cases "contents v") auto
  moreover from this have "base v ! 0 = x" using base_split [of v] by (metis append_Cons nth_Cons_0)
  ultimately show ?thesis using uniq_loop_ok [of v "[]" x xs 1 cmp] assms(1) by (auto simp: VectorUniq_def)
qed

text \<open>With a callback that depends only on the index and the entry, \<open>VectorWalk\<close> calls it on
  every entry unless it returns 0, removes exactly the entries for which it returns -1 and returns 1;
  \<open>VectorAll\<close> and \<open>VectorSome\<close> decide the two quantifiers over the entries.\<close>

lemma VectorWalk_kept:
  assumes "vec_ok v" "\<And>i x. f i x \<noteq> 0"
  shows "(\<exists>v'. VectorWalk (pure_fn f) () (Some v) = Inr (1, (), Some v') \<and> vec_ok v' \<and>
      contents v' = kept f (contents v)) \<and>
    fst (VectorAll (pure_fn g) () (Some v)) = of_bool (list_all (\<lambda>i. g i (contents v ! i) \<noteq> 0) [0..<veclen v]) \<and>
    fst (VectorSome (pure_fn g) () (Some v)) = of_bool (list_ex (\<lambda>i. g i (contents v ! i) = 1) [0..<veclen v])"
proof (intro conjI)
  show "\<exists>v'. VectorWalk (pure_fn f) () (Some v) = Inr (1, (), Some v') \<and> vec_ok v' \<and>
      contents v' = kept f (contents v)"
    using walk_loop_ok [of v "veclen v" f] assms by (auto simp: VectorWalk_def)
  show "fst (VectorAll (pure_fn g) () (Some v)) = of_bool (list_all (\<lambda>i. g i (contents v ! i) \<noteq> 0) [0..<veclen v])"
    using nth_contents [of _ v] by (auto simp: VectorAll_def all_loop_eq list_all_iff)
  show "fst (VectorSome (pure_fn g) () (Some v)) = of_bool (list_ex (\<lambda>i. g i (contents v ! i) = 1) [0..<veclen v])"
    using nth_contents [of _ v] by (auto simp: VectorSome_def some_loop_eq list_ex_iff)
qed

end
