(* ===== verification/LinkedList.thy ===== *)
theory LinkedList
  imports CPrelude
begin

text \<open>
  \<^verbatim>\<open>type/list.c\<close>: a doubly linked list of items that the client allocates. Pointers are
  addresses, the null pointer is \<open>None\<close>, and a list structure is kept together with the memory of the
  items; following a null or dangling pointer is a fault. An item's \<open>free\<close> member is a function
  pointer, whose effect on the memory is a parameter; the calls made are recorded with their argument.
  \<open>seg h p xs n\<close> describes a chain of items at \<open>xs\<close>, \<open>list_at\<close> a whole list.
\<close>

type_synonym addr = nat

datatype 'd free_arg = ArgItem addr | ArgData 'd

record ('f, 'd) item =
  free_fn :: "'f option"
  prev :: "addr option"
  nxt :: "addr option"
  data :: 'd

record ('f, 'd) dlist =
  len :: "64 word"
  tail :: "addr option"
  head :: "addr option"
  mem :: "addr \<rightharpoonup> ('f, 'd) item"
  freed :: "('f \<times> 'd free_arg) list"

section \<open>Memory access\<close>

definition item_at :: "('f, 'd) dlist \<Rightarrow> addr \<Rightarrow> fault + ('f, 'd) item" where
  "item_at l a = (case mem l a of None \<Rightarrow> Inl OutOfBounds | Some it \<Rightarrow> Inr it)"

definition set_prev :: "addr option \<Rightarrow> addr \<Rightarrow> ('f, 'd) dlist \<Rightarrow> fault + ('f, 'd) dlist" where
  "set_prev p a l =
     (case mem l a of
        None \<Rightarrow> Inl OutOfBounds
      | Some it \<Rightarrow> Inr (l\<lparr>mem := (mem l)(a \<mapsto> it\<lparr>prev := p\<rparr>)\<rparr>))"

definition set_next :: "addr option \<Rightarrow> addr \<Rightarrow> ('f, 'd) dlist \<Rightarrow> fault + ('f, 'd) dlist" where
  "set_next n a l =
     (case mem l a of
        None \<Rightarrow> Inl OutOfBounds
      | Some it \<Rightarrow> Inr (l\<lparr>mem := (mem l)(a \<mapsto> it\<lparr>nxt := n\<rparr>)\<rparr>))"

section \<open>The operations\<close>

definition listInit :: "('f, 'd) dlist \<Rightarrow> ('f, 'd) dlist" where
  "listInit l = l\<lparr>len := 0, tail := None, head := None\<rparr>"

definition insert_after_node :: "addr \<Rightarrow> addr \<Rightarrow> ('f, 'd) dlist \<Rightarrow> fault + ('f, 'd) dlist" where
  "insert_after_node node new l =
     andthen (set_prev (Some node) new l) (\<lambda>l.
     andthen (item_at l node) (\<lambda>it.
     andthen (set_next (nxt it) new l) (\<lambda>l.
     andthen (item_at l node) (\<lambda>it.
     andthen (case nxt it of None \<Rightarrow> Inr (l\<lparr>tail := Some new\<rparr>) | Some n \<Rightarrow> set_prev (Some new) n l) (\<lambda>l.
     andthen (set_next (Some new) node l) (\<lambda>l.
     Inr (l\<lparr>len := len l + 1\<rparr>)))))))"

definition insert_only :: "addr \<Rightarrow> ('f, 'd) dlist \<Rightarrow> fault + ('f, 'd) dlist" where
  "insert_only new l =
     andthen (set_next None new l) (\<lambda>l.
     andthen (set_prev None new l) (\<lambda>l.
     Inr (l\<lparr>tail := Some new, head := Some new, len := len l + 1\<rparr>)))"

definition listInsertAfter :: "addr option \<Rightarrow> addr \<Rightarrow> ('f, 'd) dlist \<Rightarrow> fault + ('f, 'd) dlist" where
  "listInsertAfter node new l =
     (case node of
        Some a \<Rightarrow> insert_after_node a new l
      | None \<Rightarrow> (case tail l of None \<Rightarrow> insert_only new l | Some t \<Rightarrow> insert_after_node t new l))"

definition insert_before_node :: "addr \<Rightarrow> addr \<Rightarrow> ('f, 'd) dlist \<Rightarrow> fault + ('f, 'd) dlist" where
  "insert_before_node node new l =
     andthen (item_at l node) (\<lambda>it.
     andthen (set_prev (prev it) new l) (\<lambda>l.
     andthen (set_next (Some node) new l) (\<lambda>l.
     andthen (item_at l node) (\<lambda>it.
     andthen (case prev it of None \<Rightarrow> Inr (l\<lparr>head := Some new\<rparr>) | Some p \<Rightarrow> set_next (Some new) p l) (\<lambda>l.
     andthen (set_prev (Some new) node l) (\<lambda>l.
     Inr (l\<lparr>len := len l + 1\<rparr>)))))))"

definition listInsertBefore :: "addr option \<Rightarrow> addr \<Rightarrow> ('f, 'd) dlist \<Rightarrow> fault + ('f, 'd) dlist" where
  "listInsertBefore node new l =
     (case node of
        Some a \<Rightarrow> insert_before_node a new l
      | None \<Rightarrow> (case head l of None \<Rightarrow> insert_only new l | Some t \<Rightarrow> insert_before_node t new l))"

definition listDelete :: "addr option \<Rightarrow> ('f, 'd) dlist \<Rightarrow> fault + ('f, 'd) dlist" where
  "listDelete item l =
     (case item of
        None \<Rightarrow> Inr l
      | Some a \<Rightarrow>
          andthen (item_at l a) (\<lambda>it.
          andthen (case prev it of None \<Rightarrow> Inr (l\<lparr>head := nxt it\<rparr>) | Some p \<Rightarrow> set_next (nxt it) p l) (\<lambda>l.
          andthen (case nxt it of None \<Rightarrow> Inr (l\<lparr>tail := prev it\<rparr>) | Some n \<Rightarrow> set_prev (prev it) n l) (\<lambda>l.
          andthen (set_next None a l) (\<lambda>l.
          andthen (set_prev None a l) (\<lambda>l.
          Inr (l\<lparr>len := len l - 1\<rparr>)))))))"

text \<open>The search function may change the list; the next pointer is read before it is called. The
  loop may not end when the links form a cycle, hence the fuel.\<close>

fun find_loop :: "nat \<Rightarrow> (addr \<Rightarrow> ('f, 'd) dlist \<Rightarrow> fault + bool \<times> ('f, 'd) dlist) \<Rightarrow> addr option
    \<Rightarrow> ('f, 'd) dlist \<Rightarrow> fault + addr option \<times> ('f, 'd) dlist" where
  "find_loop k f None l = Inr (None, l)"
| "find_loop 0 f (Some a) l = Inl NoReturn"
| "find_loop (Suc k) f (Some a) l =
     andthen (item_at l a) (\<lambda>it.
     andthen (f a l) (\<lambda>(found, l).
     if found then Inr (Some a, l) else find_loop k f (nxt it) l))"

definition listFind :: "nat \<Rightarrow> (addr \<Rightarrow> ('f, 'd) dlist \<Rightarrow> fault + bool \<times> ('f, 'd) dlist)
    \<Rightarrow> ('f, 'd) dlist \<Rightarrow> fault + addr option \<times> ('f, 'd) dlist" where
  "listFind k f l = find_loop k f (head l) l"

text \<open>\<open>fr\<close> is the effect of calling a \<open>free\<close> function on the memory.\<close>

definition call_free :: "('f \<Rightarrow> 'd free_arg \<Rightarrow> (addr \<rightharpoonup> ('f, 'd) item) \<Rightarrow> (addr \<rightharpoonup> ('f, 'd) item)) \<Rightarrow> 'f option
    \<Rightarrow> 'd free_arg \<Rightarrow> ('f, 'd) dlist \<Rightarrow> ('f, 'd) dlist" where
  "call_free fr f arg l =
     (case f of
        None \<Rightarrow> l
      | Some f \<Rightarrow> l\<lparr>mem := fr f arg (mem l), freed := freed l @ [(f, arg)]\<rparr>)"

fun fini_loop :: "nat \<Rightarrow> ('f \<Rightarrow> 'd free_arg \<Rightarrow> (addr \<rightharpoonup> ('f, 'd) item) \<Rightarrow> (addr \<rightharpoonup> ('f, 'd) item))
    \<Rightarrow> addr option \<Rightarrow> ('f, 'd) dlist \<Rightarrow> fault + ('f, 'd) dlist" where
  "fini_loop k fr None l = Inr l"
| "fini_loop 0 fr (Some a) l = Inl NoReturn"
| "fini_loop (Suc k) fr (Some a) l =
     andthen (item_at l a) (\<lambda>it. fini_loop k fr (nxt it) (call_free fr (free_fn it) (ArgData (data it)) l))"

definition listFini :: "nat \<Rightarrow> ('f \<Rightarrow> 'd free_arg \<Rightarrow> (addr \<rightharpoonup> ('f, 'd) item) \<Rightarrow> (addr \<rightharpoonup> ('f, 'd) item))
    \<Rightarrow> ('f, 'd) dlist option \<Rightarrow> fault + ('f, 'd) dlist option" where
  "listFini k fr list =
     (case list of
        None \<Rightarrow> Inr None
      | Some l \<Rightarrow> andthen (fini_loop k fr (head l) l) (\<lambda>l. Inr (Some l)))"

section \<open>Chains of items\<close>

definition first_or :: "addr list \<Rightarrow> addr option \<Rightarrow> addr option" where
  "first_or xs n = (case xs of [] \<Rightarrow> n | x # _ \<Rightarrow> Some x)"

definition last_or :: "addr option \<Rightarrow> addr list \<Rightarrow> addr option" where
  "last_or p xs = (if xs = [] then p else Some (last xs))"

fun seg :: "(addr \<rightharpoonup> ('f, 'd) item) \<Rightarrow> addr option \<Rightarrow> addr list \<Rightarrow> addr option \<Rightarrow> bool" where
  "seg h p [] n = True"
| "seg h p (x # xs) n =
     ((case h x of None \<Rightarrow> False | Some it \<Rightarrow> prev it = p \<and> nxt it = first_or xs n) \<and> seg h (Some x) xs n)"

definition list_at :: "('f, 'd) dlist \<Rightarrow> addr list \<Rightarrow> bool" where
  "list_at l xs \<longleftrightarrow> distinct xs \<and> seg (mem l) None xs None \<and> head l = first_or xs None \<and>
     tail l = last_or None xs \<and> len l = of_nat (length xs)"

lemma first_or_simps [simp]: "first_or [] n = n" "first_or (x # xs) n = Some x"
  "first_or (xs @ ys) n = first_or xs (first_or ys n)"
  by (simp_all add: first_or_def split: list.splits)

lemma last_or_simps [simp]: "last_or p [] = p" "last_or p (xs @ ys) = last_or (last_or p xs) ys"
  "last_or p (x # xs) = last_or (Some x) xs"
  by (simp_all add: last_or_def)

lemma seg_append [simp]:
  "seg h p (xs @ ys) n \<longleftrightarrow> seg h p xs (first_or ys n) \<and> seg h (last_or p xs) ys n"
  by (induction xs arbitrary: p) (auto split: option.splits)

lemma seg_frame [simp]: "a \<notin> set xs \<Longrightarrow> seg (h(a := v)) p xs n = seg h p xs n"
  by (induction xs arbitrary: p) auto

lemma seg_cong: "(\<And>a. a \<in> set xs \<Longrightarrow> h a = h' a) \<Longrightarrow> seg h p xs n = seg h' p xs n"
  by (induction xs arbitrary: p) (auto simp: first_or_def)

text \<open>Changing the neighbour pointers at the two ends of a chain.\<close>

lemma seg_relink_next:
  assumes "seg h p (xs @ [x]) n" "distinct (xs @ [x])"
  shows "\<exists>it. h x = Some it \<and> nxt it = n \<and> seg (h(x \<mapsto> it\<lparr>nxt := m\<rparr>)) p (xs @ [x]) m"
  using assms by (auto split: option.splits)

lemma seg_relink_prev:
  assumes "seg h p (x # xs) n" "distinct (x # xs)"
  shows "\<exists>it. h x = Some it \<and> prev it = p \<and> seg (h(x \<mapsto> it\<lparr>prev := q\<rparr>)) q (x # xs) n"
  using assms by (auto split: option.splits)

section \<open>The operations refine those on lists of addresses\<close>

text \<open>The members that no operation changes.\<close>

definition payload :: "('f, 'd) dlist \<Rightarrow> addr \<Rightarrow> ('f option \<times> 'd) option" where
  "payload l a = map_option (\<lambda>it. (free_fn it, data it)) (mem l a)"

definition same_payload :: "('f, 'd) dlist \<Rightarrow> ('f, 'd) dlist \<Rightarrow> bool" where
  "same_payload l l' \<longleftrightarrow> payload l' = payload l \<and> freed l' = freed l"

lemma insert_after_node_ok:
  assumes "list_at l (A @ x # B)" "n \<notin> set (A @ x # B)" "mem l n \<noteq> None"
  shows "\<exists>l'. insert_after_node x n l = Inr l' \<and> list_at l' (A @ x # n # B) \<and> same_payload l l'"
proof -
  note defs = insert_after_node_def item_at_def set_prev_def set_next_def list_at_def same_payload_def payload_def
  show ?thesis
  proof (cases B)
    case Nil
    then show ?thesis using assms by (auto simp: defs fun_eq_iff split: option.splits)
  next
    case (Cons b B')
    then show ?thesis using assms by (auto simp: defs fun_eq_iff split: option.splits)
  qed
qed

lemma insert_before_node_ok:
  assumes "list_at l (A @ x # B)" "n \<notin> set (A @ x # B)" "mem l n \<noteq> None"
  shows "\<exists>l'. insert_before_node x n l = Inr l' \<and> list_at l' (A @ n # x # B) \<and> same_payload l l'"
proof -
  note defs = insert_before_node_def item_at_def set_prev_def set_next_def list_at_def same_payload_def payload_def
  show ?thesis
  proof (cases A rule: rev_cases)
    case Nil
    then show ?thesis using assms by (auto simp: defs fun_eq_iff split: option.splits)
  next
    case (snoc A' a)
    then show ?thesis using assms by (auto simp: defs fun_eq_iff split: option.splits)
  qed
qed

lemma insert_only_ok:
  assumes "list_at l []" "mem l n \<noteq> None"
  shows "\<exists>l'. insert_only n l = Inr l' \<and> list_at l' [n] \<and> same_payload l l'"
  using assms
  by (auto simp: insert_only_def item_at_def set_prev_def set_next_def list_at_def same_payload_def
      payload_def fun_eq_iff split: option.splits)

lemma listDelete_ok:
  assumes "list_at l (A @ x # B)"
  shows "\<exists>l'. listDelete (Some x) l = Inr l' \<and> list_at l' (A @ B) \<and> same_payload l l'"
proof -
  note defs = listDelete_def item_at_def set_prev_def set_next_def list_at_def same_payload_def payload_def
  obtain ix where x: "mem l x = Some ix" "prev ix = last_or None A" "nxt ix = first_or B None"
    using assms by (auto simp: list_at_def split: option.splits)
  show ?thesis
  proof (cases A rule: rev_cases)
    case Nil
    then show ?thesis using assms by (cases B) (auto simp: defs fun_eq_iff split: option.splits)
  next
    case (snoc A' a)
    obtain ia where a: "mem l a = Some ia" "a \<noteq> x" 
      using assms snoc by (auto simp: list_at_def split: option.splits)
    show ?thesis
    proof (cases B)
      case Nil
      then show ?thesis using assms a x snoc by (simp add: defs fun_eq_iff)
    next
      case (Cons b B')
      obtain ib where b: "mem l b = Some ib" "b \<noteq> x" "b \<noteq> a"
        using assms snoc Cons by (auto simp: list_at_def split: option.splits)
      show ?thesis using assms a b x snoc Cons by (simp add: defs fun_eq_iff)
    qed
  qed
qed
lemma same_payload_trans: "same_payload l l' \<Longrightarrow> same_payload l' l'' \<Longrightarrow> same_payload l l''"
  by (simp add: same_payload_def)

lemma same_payload_mem: "same_payload l l' \<Longrightarrow> (\<lambda>a. \<exists>y. mem l' a = Some y) = (\<lambda>a. \<exists>y. mem l a = Some y)"
  by (auto simp: same_payload_def payload_def fun_eq_iff map_option_case split: option.splits)

lemma list_at_head: "list_at l xs \<Longrightarrow> head l = first_or xs None"
  by (simp add: list_at_def)

lemma list_at_tail: "list_at l xs \<Longrightarrow> tail l = last_or None xs"
  by (simp add: list_at_def)

lemma list_at_distinct: "list_at l xs \<Longrightarrow> distinct xs"
  by (simp add: list_at_def)

lemma seg_item: "seg h p (A @ x # B) n \<Longrightarrow> \<exists>it. h x = Some it \<and> nxt it = first_or B n"
  by (auto split: option.splits)

lemma list_append_ok:
  assumes "list_at l xs" "n \<notin> set xs" "mem l n \<noteq> None"
  shows "\<exists>l'. listInsertAfter (tail l) n l = Inr l' \<and> list_at l' (xs @ [n]) \<and> same_payload l l'"
proof (cases xs rule: rev_cases)
  case Nil
  then show ?thesis using insert_only_ok [of l n] list_at_tail [OF assms(1)] assms
    by (simp add: listInsertAfter_def)
next
  case (snoc ys y)
  then show ?thesis using insert_after_node_ok [of l ys y "[]" n] list_at_tail [OF assms(1)] assms
    by (simp add: listInsertAfter_def)
qed

lemma list_push_ok:
  assumes "list_at l xs" "n \<notin> set xs" "mem l n \<noteq> None"
  shows "\<exists>l'. listInsertBefore (head l) n l = Inr l' \<and> list_at l' (n # xs) \<and> same_payload l l'"
proof (cases xs)
  case Nil
  then show ?thesis using insert_only_ok [of l n] list_at_head [OF assms(1)] assms
    by (simp add: listInsertBefore_def)
next
  case (Cons y ys)
  then show ?thesis using insert_before_node_ok [of l "[]" y ys n] list_at_head [OF assms(1)] assms
    by (simp add: listInsertBefore_def)
qed

lemma list_remove_ok:
  assumes "list_at l xs" "x \<in> set xs"
  shows "\<exists>l'. listDelete (Some x) l = Inr l' \<and> list_at l' (remove1 x xs) \<and> same_payload l l'"
proof -
  obtain A B where xs: "xs = A @ x # B" "x \<notin> set A" using assms(2) by (meson split_list_first)
  then have "remove1 x xs = A @ B" by (simp add: remove1_append)
  then show ?thesis using listDelete_ok [of l A x B] assms(1) xs by simp
qed

text \<open>A search that does not change the list.\<close>

lemma find_loop_pure:
  assumes "seg (mem l) p xs None" "length xs \<le> k"
  shows "find_loop k (\<lambda>a l. Inr (P a, l)) (first_or xs None) l = Inr (List.find P xs, l)"
  using assms
proof (induction xs arbitrary: p k)
  case (Cons x xs)
  then show ?case by (cases k) (auto simp: item_at_def split: option.splits)
qed simp

text \<open>Finalising calls every free function on the data of its item, in order.\<close>

definition fini_calls :: "('f, 'd) dlist \<Rightarrow> addr list \<Rightarrow> ('f \<times> 'd free_arg) list" where
  "fini_calls l xs = List.map_filter
     (\<lambda>a. case payload l a of Some (Some f, d) \<Rightarrow> Some (f, ArgData d) | _ \<Rightarrow> None) xs"

lemma fini_loop_ok:
  assumes "seg (mem l) p xs None" "length xs \<le> k" "distinct xs"
    and "\<And>f d h. fr f (ArgData d) h = h"
  shows "\<exists>l'. fini_loop k fr (first_or xs None) l = Inr l' \<and> mem l' = mem l \<and> freed l' = freed l @ fini_calls l xs"
  using assms(1-3)
proof (induction xs arbitrary: p k l)
  case Nil
  then show ?case by (simp add: fini_calls_def map_filter_simps)
next
  case (Cons x xs)
  then obtain j it where j: "k = Suc j" and it: "mem l x = Some it" "nxt it = first_or xs None"
    by (cases k) (auto split: option.splits)
  let ?l = "call_free fr (free_fn it) (ArgData (data it)) l"
  have m: "mem ?l = mem l" using assms(4) by (simp add: call_free_def split: option.splits)
  have "fini_calls ?l xs = fini_calls l xs" by (simp add: fini_calls_def payload_def m)
  moreover have "freed ?l @ fini_calls l xs = freed l @ fini_calls l (x # xs)"
    by (simp add: call_free_def fini_calls_def payload_def it map_filter_simps split: option.splits)
  ultimately show ?case using Cons.IH [of ?l "Some x" j] Cons.prems m
    by (simp add: j it(1) item_at_def it(2))
qed

section \<open>The interface of a queue of items\<close>

text \<open>What a queue needs of the list below it: items go in at the end, any item can be taken out, and
  the first one is known.\<close>

locale item_queue =
  fixes rep :: "'l \<Rightarrow> 'a list \<Rightarrow> bool"
    and usable :: "'l \<Rightarrow> 'a \<Rightarrow> bool"
    and ins :: "'a \<Rightarrow> 'l \<Rightarrow> fault + 'l"
    and del :: "'a \<Rightarrow> 'l \<Rightarrow> fault + 'l"
    and first :: "'l \<Rightarrow> 'a option"
  assumes ins_ok: "rep l xs \<Longrightarrow> a \<notin> set xs \<Longrightarrow> usable l a \<Longrightarrow>
      \<exists>l'. ins a l = Inr l' \<and> rep l' (xs @ [a]) \<and> usable l' = usable l"
    and del_ok: "rep l xs \<Longrightarrow> a \<in> set xs \<Longrightarrow>
      \<exists>l'. del a l = Inr l' \<and> rep l' (remove1 a xs) \<and> usable l' = usable l"
    and first_ok: "rep l xs \<Longrightarrow> first l = (case xs of [] \<Rightarrow> None | x # _ \<Rightarrow> Some x)"
begin

fun ins_all :: "'a list \<Rightarrow> 'l \<Rightarrow> fault + 'l" where
  "ins_all [] l = Inr l"
| "ins_all (a # as) l = andthen (ins a l) (ins_all as)"

fun serve :: "nat \<Rightarrow> 'l \<Rightarrow> fault + 'a list \<times> 'l" where
  "serve 0 l = Inr ([], l)"
| "serve (Suc n) l =
     (case first l of
        None \<Rightarrow> Inr ([], l)
      | Some a \<Rightarrow> andthen (del a l) (\<lambda>l. andthen (serve n l) (\<lambda>(as, l). Inr (a # as, l))))"

lemma del_first:
  assumes "rep l (x # xs)"
  shows "\<exists>l'. first l = Some x \<and> del x l = Inr l' \<and> rep l' xs \<and> usable l' = usable l"
  using first_ok [OF assms] del_ok [OF assms, of x] by simp

lemma ins_all_ok:
  "rep l xs \<Longrightarrow> distinct (xs @ as) \<Longrightarrow> list_all (usable l) as \<Longrightarrow> \<exists>l'. ins_all as l = Inr l' \<and> rep l' (xs @ as)"
proof (induction as arbitrary: l xs)
  case (Cons a as)
  obtain l' where l': "ins a l = Inr l'" "rep l' (xs @ [a])" "usable l' = usable l"
    using ins_ok [OF Cons.prems(1), of a] Cons.prems(2,3) by auto
  then show ?case using Cons.IH [OF l'(2)] Cons.prems(2,3) by simp
qed simp

lemma serve_ok: "rep l xs \<Longrightarrow> \<exists>l'. serve (length xs) l = Inr (xs, l') \<and> rep l' []"
proof (induction xs arbitrary: l)
  case (Cons x xs)
  obtain l1 where l1: "first l = Some x" "del x l = Inr l1" "rep l1 xs" using del_first [OF Cons.prems] by auto
  then show ?case using Cons.IH [OF l1(3)] by auto
qed auto

text \<open>First in, first out.\<close>

lemma first_in_first_out:
  assumes "rep l []" "distinct as" "list_all (usable l) as"
  shows "\<exists>l' l''. ins_all as l = Inr l' \<and> serve (length as) l' = Inr (as, l'') \<and> rep l'' []"
  using ins_all_ok [OF assms(1), of as] serve_ok assms(2,3) by fastforce

end

interpretation ll: item_queue list_at "\<lambda>l a. mem l a \<noteq> None" "\<lambda>a l. listInsertAfter (tail l) a l"
    "\<lambda>a. listDelete (Some a)" head
proof (unfold_locales, goal_cases)
  case (1 l xs a)
  then show ?case using list_append_ok [of l xs a] by (auto dest: same_payload_mem)
next
  case (2 l xs a)
  then show ?case using list_remove_ok [of l xs a] by (auto dest: same_payload_mem)
next
  case (3 l xs)
  then show ?case using list_at_head [of l xs] by (simp add: first_or_def)
qed

section \<open>Properties\<close>

text \<open>C25: On a well-linked list \<open>listInsertAfter\<close> and \<open>listInsertBefore\<close> put an allocated item that
  is not in it directly after or before the given item, and \<open>listDelete\<close> takes an item out. None of
  them follows a bad pointer, all keep the two-way links, the head, the tail and the count, and none
  changes the data or the free function of any item or frees anything.\<close>

theorem list_ops_refine:
  assumes "list_at l (A @ x # B)" "n \<notin> set (A @ x # B)" "mem l n \<noteq> None"
  shows "(\<exists>l'. listInsertAfter (Some x) n l = Inr l' \<and> list_at l' (A @ x # n # B) \<and> same_payload l l') \<and>
    (\<exists>l'. listInsertBefore (Some x) n l = Inr l' \<and> list_at l' (A @ n # x # B) \<and> same_payload l l') \<and>
    (\<exists>l'. listDelete (Some x) l = Inr l' \<and> list_at l' (A @ B) \<and> same_payload l l')"
  using insert_after_node_ok [OF assms] insert_before_node_ok [OF assms] listDelete_ok [OF assms(1)]
  by (simp add: listInsertAfter_def listInsertBefore_def)

text \<open>Three linked items and one that is not in the list.\<close>

definition l3 :: "(nat, int) dlist" where
  "l3 = \<lparr>len = 3, tail = Some 7, head = Some 5,
     mem = [5 \<mapsto> \<lparr>free_fn = Some 1, prev = None, nxt = Some 6, data = 50\<rparr>,
            6 \<mapsto> \<lparr>free_fn = None, prev = Some 5, nxt = Some 7, data = 60\<rparr>,
            7 \<mapsto> \<lparr>free_fn = Some 2, prev = Some 6, nxt = None, data = 70\<rparr>,
            8 \<mapsto> \<lparr>free_fn = None, prev = None, nxt = None, data = 80\<rparr>],
     freed = []\<rparr>"

lemma l3_list: "list_at l3 [5, 6, 7]"
  by (simp add: list_at_def l3_def)

theorem list_ops_refine_witness:
  "(\<exists>l'. listInsertAfter (Some 6) 8 l3 = Inr l' \<and> list_at l' [5, 6, 8, 7] \<and> same_payload l3 l') \<and>
   (\<exists>l'. listInsertBefore (Some 6) 8 l3 = Inr l' \<and> list_at l' [5, 8, 6, 7] \<and> same_payload l3 l') \<and>
   (\<exists>l'. listDelete (Some 6) l3 = Inr l' \<and> list_at l' [5, 7] \<and> same_payload l3 l')"
  using list_ops_refine [of l3 "[5]" 6 "[7]" 8] l3_list by (simp add: l3_def)

text \<open>With fuel for every item, \<open>listFind\<close> returns the first item its test accepts, and
  \<open>listFini\<close> calls the free functions that are set, each on its item's data, in list order, provided
  freeing the data leaves the items alone.\<close>

lemma listFind_listFini:
  assumes "list_at l xs" "length xs \<le> k" "\<And>f d h. fr f (ArgData d) h = h"
  shows "listFind k (\<lambda>a l. Inr (P a, l)) l = Inr (List.find P xs, l) \<and>
    (\<exists>l'. listFini k fr (Some l) = Inr (Some l') \<and> freed l' = freed l @ fini_calls l xs)"
proof -
  note l = assms(1) [unfolded list_at_def]
  have "find_loop k (\<lambda>a l. Inr (P a, l)) (first_or xs None) l = Inr (List.find P xs, l)"
    using l assms(2) by (intro find_loop_pure) auto
  moreover obtain l' where "fini_loop k fr (first_or xs None) l = Inr l'" "freed l' = freed l @ fini_calls l xs"
    using fini_loop_ok [of l None xs k fr] l assms(2,3) by auto
  ultimately show ?thesis using l by (simp add: listFind_def listFini_def)
qed

end
