(* ===== verification/MessageQueue.thy ===== *)
theory MessageQueue
  imports LinkedList "HOL-Library.Sublist"
begin

text \<open>
  \<^verbatim>\<open>type/queue.c\<close>: a message queue over a list, a mutex and two condition variables. Every
  function body is one critical section (or several, split where \<open>pthread_cond_wait\<close> releases the
  mutex), so threads interleave at critical sections only. The record counts the threads
  that wait on each condition and those that a signal has woken but that have not run yet. A signal wakes
  whatever it returns: it fails only for a condition that does not exist. What the
  thread library answers is an \<open>env\<close>: whether the lock is obtained and the wait succeeds, how many
  waiters a signal wakes (at least one, when there is one) and what it returns.
\<close>

record env =
  lock_ok :: bool
  wait_ok :: bool
  wakes :: nat
  signal_rc :: int

datatype sync = CvMore | CvLess | Mutex

record ('f, 'd) queue =
  qlist :: "('f, 'd) dlist"
  more_waiting :: nat
  more_woken :: nat
  less_waiting :: nat
  less_woken :: nat
  live :: "sync list"

text \<open>The result of a call: it waits, or it returns a value.\<close>

datatype 'r outcome = Waits | Returns 'r

definition woken_by :: "env \<Rightarrow> nat \<Rightarrow> nat" where
  "woken_by e w = min w (max 1 (wakes e))"

definition signal_more :: "env \<Rightarrow> ('f, 'd) queue \<Rightarrow> ('f, 'd) queue" where
  "signal_more e q =
     q\<lparr>more_waiting := more_waiting q - woken_by e (more_waiting q),
       more_woken := more_woken q + woken_by e (more_waiting q)\<rparr>"

definition signal_less :: "env \<Rightarrow> ('f, 'd) queue \<Rightarrow> ('f, 'd) queue" where
  "signal_less e q =
     q\<lparr>less_waiting := less_waiting q - woken_by e (less_waiting q),
       less_woken := less_woken q + woken_by e (less_waiting q)\<rparr>"

section \<open>The operations\<close>

definition queueInit :: "bool \<Rightarrow> bool \<Rightarrow> bool \<Rightarrow> ('f, 'd) queue \<Rightarrow> int \<times> ('f, 'd) queue" where
  "queueInit cv_more cv_less mutex q =
     (let q = q\<lparr>qlist := listInit (qlist q)\<rparr>
      in if \<not> cv_more then (-1, q)
         else let q = q\<lparr>live := CvMore # live q\<rparr>
         in if \<not> cv_less then (-1, q\<lparr>live := remove1 CvMore (live q)\<rparr>)
         else let q = q\<lparr>live := CvLess # live q\<rparr>
         in if \<not> mutex then (-1, q\<lparr>live := remove1 CvMore (remove1 CvLess (live q))\<rparr>)
         else (0, q\<lparr>live := Mutex # live q\<rparr>))"

definition queueFini :: "nat \<Rightarrow> ('f \<Rightarrow> 'd free_arg \<Rightarrow> (addr \<rightharpoonup> ('f, 'd) item) \<Rightarrow> (addr \<rightharpoonup> ('f, 'd) item))
    \<Rightarrow> ('f, 'd) queue \<Rightarrow> fault + ('f, 'd) queue" where
  "queueFini k fr q =
     (let q = q\<lparr>live := remove1 Mutex (remove1 CvMore (remove1 CvLess (live q)))\<rparr>
      in andthen (listFini k fr (Some (qlist q))) (\<lambda>l.
         Inr (case l of None \<Rightarrow> q | Some l \<Rightarrow> q\<lparr>qlist := l\<rparr>)))"

definition queueLength :: "env \<Rightarrow> ('f, 'd) queue \<Rightarrow> 64 word" where
  "queueLength e q = (if lock_ok e then len (qlist q) else 0)"

definition queueIsEmpty :: "env \<Rightarrow> ('f, 'd) queue \<Rightarrow> bool" where
  "queueIsEmpty e q \<longleftrightarrow> queueLength e q = 0"

definition queueEnqueue :: "env \<Rightarrow> addr \<Rightarrow> ('f, 'd) queue \<Rightarrow> fault + int \<times> ('f, 'd) queue" where
  "queueEnqueue e item q =
     (if \<not> lock_ok e then Inr (-1, q)
      else andthen (listInsertAfter (tail (qlist q)) item (qlist q)) (\<lambda>l.
           Inr (signal_rc e, signal_more e (q\<lparr>qlist := l\<rparr>))))"

text \<open>The body of the loop of \<open>queueDequeue\<close>, from obtaining the mutex (when called or when woken).\<close>

definition dequeue_locked :: "env \<Rightarrow> ('f, 'd) queue \<Rightarrow> fault + addr option outcome \<times> ('f, 'd) queue" where
  "dequeue_locked e q =
     (if head (qlist q) = None \<and> wait_ok e
      then Inr (Waits, q\<lparr>more_waiting := more_waiting q + 1\<rparr>)
      else let item = head (qlist q)
      in andthen (listDelete item (qlist q)) (\<lambda>l.
         let q = q\<lparr>qlist := l\<rparr>;
             q = (if head l = None then signal_less e q else q)
         in Inr (Returns item, q)))"

definition queueDequeue :: "env \<Rightarrow> ('f, 'd) queue \<Rightarrow> fault + addr option outcome \<times> ('f, 'd) queue" where
  "queueDequeue e q = (if lock_ok e then dequeue_locked e q else Inr (Returns None, q))"

definition resume_dequeue :: "env \<Rightarrow> ('f, 'd) queue \<Rightarrow> fault + addr option outcome \<times> ('f, 'd) queue" where
  "resume_dequeue e q = dequeue_locked e (q\<lparr>more_woken := more_woken q - 1\<rparr>)"

definition queueRemoveFn :: "('f \<Rightarrow> 'd free_arg \<Rightarrow> (addr \<rightharpoonup> ('f, 'd) item) \<Rightarrow> (addr \<rightharpoonup> ('f, 'd) item))
    \<Rightarrow> addr \<Rightarrow> ('f, 'd) dlist \<Rightarrow> fault + bool \<times> ('f, 'd) dlist" where
  "queueRemoveFn fr item l =
     andthen (listDelete (Some item) l) (\<lambda>l.
     andthen (item_at l item) (\<lambda>it.
     Inr (False, call_free fr (free_fn it) (ArgItem item) l)))"

definition after_removal :: "env \<Rightarrow> ('f, 'd) queue \<Rightarrow> ('f, 'd) queue" where
  "after_removal e q = (if head (qlist q) = None then signal_less e q else q)"

definition queueRemove :: "('f \<Rightarrow> 'd free_arg \<Rightarrow> (addr \<rightharpoonup> ('f, 'd) item) \<Rightarrow> (addr \<rightharpoonup> ('f, 'd) item))
    \<Rightarrow> env \<Rightarrow> addr \<Rightarrow> ('f, 'd) queue \<Rightarrow> fault + ('f, 'd) queue" where
  "queueRemove fr e item q =
     (if \<not> lock_ok e then Inr q
      else andthen (queueRemoveFn fr item (qlist q)) (\<lambda>(_, l). Inr (after_removal e (q\<lparr>qlist := l\<rparr>))))"

definition queueRemoveAll :: "nat \<Rightarrow> ('f \<Rightarrow> 'd free_arg \<Rightarrow> (addr \<rightharpoonup> ('f, 'd) item) \<Rightarrow> (addr \<rightharpoonup> ('f, 'd) item))
    \<Rightarrow> env \<Rightarrow> ('f, 'd) queue \<Rightarrow> fault + ('f, 'd) queue" where
  "queueRemoveAll k fr e q =
     (if \<not> lock_ok e then Inr q
      else andthen (listFind k (queueRemoveFn fr) (qlist q)) (\<lambda>(_, l).
           Inr (signal_less e (q\<lparr>qlist := l\<rparr>))))"

definition queueWalk :: "nat \<Rightarrow> (addr \<Rightarrow> ('f, 'd) dlist \<Rightarrow> fault + bool \<times> ('f, 'd) dlist)
    \<Rightarrow> env \<Rightarrow> ('f, 'd) queue \<Rightarrow> fault + addr option \<times> ('f, 'd) queue" where
  "queueWalk k f e q =
     (if \<not> lock_ok e then Inr (None, q)
      else andthen (listFind k f (qlist q)) (\<lambda>(item, l). Inr (item, after_removal e (q\<lparr>qlist := l\<rparr>))))"

text \<open>\<open>queueWaitEmpty\<close>, and \<open>queueTimedWaitEmpty\<close>, whose wait also fails at the timeout.\<close>

definition wait_empty_locked :: "env \<Rightarrow> ('f, 'd) queue \<Rightarrow> unit outcome \<times> ('f, 'd) queue" where
  "wait_empty_locked e q =
     (if head (qlist q) \<noteq> None \<and> wait_ok e
      then (Waits, q\<lparr>less_waiting := less_waiting q + 1\<rparr>) else (Returns (), q))"

definition queueWaitEmpty :: "env \<Rightarrow> ('f, 'd) queue \<Rightarrow> unit outcome \<times> ('f, 'd) queue" where
  "queueWaitEmpty e q = (if lock_ok e then wait_empty_locked e q else (Returns (), q))"

definition resume_wait_empty :: "env \<Rightarrow> ('f, 'd) queue \<Rightarrow> unit outcome \<times> ('f, 'd) queue" where
  "resume_wait_empty e q = wait_empty_locked e (q\<lparr>less_woken := less_woken q - 1\<rparr>)"

section \<open>The queue among threads\<close>

text \<open>The state of the system with its history: \<open>queued\<close> is what the calls so far make of the
  sequence of queued items, \<open>put\<close> and \<open>got\<close> are the items in the order in which \<open>queueEnqueue\<close> took
  and \<open>queueDequeue\<close> returned them.\<close>

record ('f, 'd) sys =
  que :: "('f, 'd) queue"
  queued :: "addr list"
  put :: "addr list"
  got :: "addr list"

definition took :: "addr option outcome \<Rightarrow> ('f, 'd) sys \<Rightarrow> ('f, 'd) sys" where
  "took r s =
     (case r of
        Returns (Some a) \<Rightarrow> s\<lparr>queued := remove1 a (queued s), got := got s @ [a]\<rparr>
      | _ \<Rightarrow> s)"

text \<open>The obligations of the threads: an enqueued item is allocated and not queued already, a removed
  item is queued, items are changed only while they are not queued, and the function given to \<open>queueWalk\<close>
  only looks at the list. A waiting thread may wake without a signal. A call that ends in a fault is no step;
  \<open>sys_calls_return\<close> shows that in the states with the invariant there is none.\<close>

inductive sys_step ::
    "('f \<Rightarrow> 'd free_arg \<Rightarrow> (addr \<rightharpoonup> ('f, 'd) item) \<Rightarrow> (addr \<rightharpoonup> ('f, 'd) item))
     \<Rightarrow> ('f, 'd) sys \<Rightarrow> ('f, 'd) sys \<Rightarrow> bool" for fr where
  enqueue: "lock_ok e \<Longrightarrow> a \<notin> set (queued s) \<Longrightarrow> mem (qlist (que s)) a \<noteq> None \<Longrightarrow>
    queueEnqueue e a (que s) = Inr (r, q) \<Longrightarrow>
    sys_step fr s (s\<lparr>que := q, queued := queued s @ [a], put := put s @ [a]\<rparr>)"
| dequeue: "queueDequeue e (que s) = Inr (r, q) \<Longrightarrow> sys_step fr s (took r (s\<lparr>que := q\<rparr>))"
| resume: "0 < more_woken (que s) \<Longrightarrow> resume_dequeue e (que s) = Inr (r, q) \<Longrightarrow>
    sys_step fr s (took r (s\<lparr>que := q\<rparr>))"
| spurious: "0 < more_waiting (que s) \<Longrightarrow>
    sys_step fr s (s\<lparr>que := (que s)\<lparr>more_waiting := more_waiting (que s) - 1,
      more_woken := more_woken (que s) + 1\<rparr>\<rparr>)"
| remove: "lock_ok e \<Longrightarrow> a \<in> set (queued s) \<Longrightarrow> queueRemove fr e a (que s) = Inr q \<Longrightarrow>
    sys_step fr s (s\<lparr>que := q, queued := remove1 a (queued s)\<rparr>)"
| remove_all: "lock_ok e \<Longrightarrow> queueRemoveAll k fr e (que s) = Inr q \<Longrightarrow>
    sys_step fr s (s\<lparr>que := q, queued := []\<rparr>)"
| walk: "queueWalk k (\<lambda>a l. Inr (P a l, l)) e (que s) = Inr (r, q) \<Longrightarrow> sys_step fr s (s\<lparr>que := q\<rparr>)"
| wait_empty: "queueWaitEmpty e (que s) = (r, q) \<Longrightarrow> sys_step fr s (s\<lparr>que := q\<rparr>)"
| resume_empty: "0 < less_woken (que s) \<Longrightarrow> resume_wait_empty e (que s) = (r, q) \<Longrightarrow>
    sys_step fr s (s\<lparr>que := q\<rparr>)"
| client: "\<forall>b \<in> set (queued s). m b = mem (qlist (que s)) b \<Longrightarrow>
    sys_step fr s (s\<lparr>que := (que s)\<lparr>qlist := (qlist (que s))\<lparr>mem := m\<rparr>\<rparr>\<rparr>)"

definition sys_init :: "('f, 'd) sys" where
  "sys_init = \<lparr>que = \<lparr>qlist = \<lparr>len = 0, tail = None, head = None, mem = Map.empty, freed = []\<rparr>,
       more_waiting = 0, more_woken = 0, less_waiting = 0, less_woken = 0, live = [CvMore, CvLess, Mutex]\<rparr>,
     queued = [], put = [], got = []\<rparr>"

text \<open>The invariant: the links hold exactly the queued items; the items that came out, followed by
  those queued, are in the order in which they went in; and while a thread waits for an item, at least
  as many threads are woken as items are queued.\<close>

definition sys_ok :: "('f, 'd) sys \<Rightarrow> bool" where
  "sys_ok s \<longleftrightarrow> list_at (qlist (que s)) (queued s) \<and> subseq (got s @ queued s) (put s) \<and>
     (more_waiting (que s) = 0 \<or> length (queued s) \<le> more_woken (que s))"

definition frees_item :: "('f \<Rightarrow> 'd free_arg \<Rightarrow> (addr \<rightharpoonup> ('f, 'd) item) \<Rightarrow> (addr \<rightharpoonup> ('f, 'd) item)) \<Rightarrow> bool" where
  "frees_item fr \<longleftrightarrow> (\<forall>f a h b. b \<noteq> a \<longrightarrow> fr f (ArgItem a) h b = h b)"

lemma list_at_mem:
  assumes "list_at l xs" "\<And>b. b \<in> set xs \<Longrightarrow> m b = mem l b"
  shows "list_at (l\<lparr>mem := m\<rparr>) xs"
  using assms seg_cong [of xs m "mem l" None None] by (simp add: list_at_def)

lemma list_at_call_free:
  assumes "frees_item fr" "list_at l xs" "a \<notin> set xs"
  shows "list_at (call_free fr f (ArgItem a) l) xs"
proof (cases f)
  case (Some g)
  have "list_at (l\<lparr>mem := fr g (ArgItem a) (mem l)\<rparr>) xs"
    using assms(2)
  proof (rule list_at_mem)
    show "fr g (ArgItem a) (mem l) b = mem l b" if "b \<in> set xs" for b
      using assms(1,3) that unfolding frees_item_def by metis
  qed
  then show ?thesis by (simp add: Some call_free_def list_at_def)
qed (use assms in \<open>simp add: call_free_def\<close>)

lemma subseq_remove1: "subseq (remove1 a xs) xs"
  by (induction xs) auto

lemma subseq_mid:
  assumes "subseq xs ys" "subseq (zs @ ys) us"
  shows "subseq (zs @ xs) us"
proof -
  have "subseq (zs @ xs) (zs @ ys)" by (intro list_emb_append_mono subseq_order.order_refl assms(1))
  then show ?thesis using assms(2) by (rule subseq_order.order_trans)
qed

lemma signal_simps [simp]:
  "qlist (signal_more e q) = qlist q" "qlist (signal_less e q) = qlist q"
  "more_waiting (signal_less e q) = more_waiting q" "more_woken (signal_less e q) = more_woken q"
  "qlist (after_removal e q) = qlist q"
  "more_waiting (after_removal e q) = more_waiting q" "more_woken (after_removal e q) = more_woken q"
  by (simp_all add: signal_more_def signal_less_def after_removal_def)

lemma enqueue_ok:
  assumes "sys_ok s" "lock_ok e" "a \<notin> set (queued s)" "mem (qlist (que s)) a \<noteq> None"
    "queueEnqueue e a (que s) = Inr (r, q)"
  shows "sys_ok (s\<lparr>que := q, queued := queued s @ [a], put := put s @ [a]\<rparr>)"
proof -
  obtain l where "listInsertAfter (tail (qlist (que s))) a (qlist (que s)) = Inr l" "list_at l (queued s @ [a])"
    using ll.ins_ok [of "qlist (que s)" "queued s" a] assms(1,3,4) by (auto simp: sys_ok_def)
  moreover from this have q: "q = signal_more e ((que s)\<lparr>qlist := l\<rparr>)"
    using assms(2,5) by (simp add: queueEnqueue_def)
  moreover have "subseq (got s @ queued s @ [a]) (put s @ [a])"
    using assms(1) list_emb_append_mono [of "(=)" "got s @ queued s" "put s" "[a]" "[a]"] by (simp add: sys_ok_def)
  moreover have "more_waiting q = 0 \<or> length (queued s @ [a]) \<le> more_woken q"
    using assms(1) by (auto simp: q signal_more_def woken_by_def sys_ok_def)
  ultimately show ?thesis by (simp add: sys_ok_def)
qed

lemma dequeue_locked_ok:
  assumes "list_at (qlist q) xs" "dequeue_locked e q = Inr (r, q')"
  shows "(xs = [] \<and> r = Waits \<and> q' = q\<lparr>more_waiting := more_waiting q + 1\<rparr>) \<or>
    (xs = [] \<and> r = Returns None \<and> list_at (qlist q') [] \<and> more_waiting q' = more_waiting q \<and> more_woken q' = more_woken q) \<or>
    (\<exists>x ys. xs = x # ys \<and> r = Returns (Some x) \<and> list_at (qlist q') ys \<and>
      more_waiting q' = more_waiting q \<and> more_woken q' = more_woken q)"
proof (cases xs)
  case Nil
  then show ?thesis using assms list_at_head [OF assms(1)]
    by (auto simp: dequeue_locked_def listDelete_def split: if_splits)
next
  case (Cons x ys)
  obtain l where "listDelete (Some x) (qlist q) = Inr l" "list_at l ys"
    using ll.del_first [of "qlist q" x ys] assms(1) Cons by auto
  then show ?thesis using assms(2) list_at_head [OF assms(1)] Cons
    by (auto simp: dequeue_locked_def Let_def split: if_splits)
qed

lemma took_ok:
  assumes "list_at (qlist q0) (queued s)" "subseq (got s @ queued s) (put s)"
    "more_waiting q0 = 0 \<or> length (queued s) \<le> more_woken q0 + 1" "dequeue_locked e q0 = Inr (r, q)"
  shows "sys_ok (took r (s\<lparr>que := q\<rparr>))"
  using dequeue_locked_ok [OF assms(1,4)] assms(1-3) by (auto simp: sys_ok_def took_def)

lemma remove_fn_ok:
  assumes "frees_item fr" "list_at l xs" "a \<in> set xs"
  shows "\<exists>l'. queueRemoveFn fr a l = Inr (False, l') \<and> list_at l' (remove1 a xs)"
proof -
  obtain l1 where l1: "listDelete (Some a) l = Inr l1" "list_at l1 (remove1 a xs)" "same_payload l l1"
    using list_remove_ok [OF assms(2,3)] by auto
  obtain A B where "xs = A @ a # B" using assms(3) by (meson split_list)
  then have "mem l a \<noteq> None" using assms(2) by (auto simp: list_at_def split: option.splits)
  then have "payload l a \<noteq> None" by (simp add: payload_def)
  then have "payload l1 a \<noteq> None" using l1(3) by (simp add: same_payload_def)
  then obtain it where it: "mem l1 a = Some it" by (auto simp: payload_def)
  have "a \<notin> set (remove1 a xs)" using list_at_distinct [OF assms(2)] by simp
  then show ?thesis using list_at_call_free [OF assms(1) l1(2)] l1(1)
    by (simp add: queueRemoveFn_def item_at_def it)
qed

lemma remove_loop_ok:
  assumes "frees_item fr" "list_at l xs" "find_loop k (queueRemoveFn fr) (first_or xs None) l = Inr (r, l')"
  shows "list_at l' []"
  using assms(2,3)
proof (induction xs arbitrary: k l)
  case (Cons x xs)
  then obtain j where k: "k = Suc j" by (cases k) auto
  obtain it where it: "mem l x = Some it" "nxt it = first_or xs None"
    using Cons.prems(1) seg_item [of "mem l" None "[]" x xs None] by (auto simp: list_at_def)
  obtain l1 where l1: "queueRemoveFn fr x l = Inr (False, l1)" "list_at l1 xs"
    using remove_fn_ok [OF assms(1) Cons.prems(1), of x] by auto
  then show ?case using Cons.IH [OF l1(2)] Cons.prems(2) by (simp add: k item_at_def it)
qed auto

lemma remove_loop_returns:
  assumes "frees_item fr" "list_at l xs" "length xs \<le> k"
  shows "\<exists>l'. find_loop k (queueRemoveFn fr) (first_or xs None) l = Inr (None, l') \<and> list_at l' []"
  using assms(2,3)
proof (induction xs arbitrary: k l)
  case (Cons x xs)
  then obtain j where k: "k = Suc j" by (cases k) auto
  obtain it where it: "mem l x = Some it" "nxt it = first_or xs None"
    using Cons.prems(1) seg_item [of "mem l" None "[]" x xs None] by (auto simp: list_at_def)
  obtain l1 where l1: "queueRemoveFn fr x l = Inr (False, l1)" "list_at l1 xs"
    using remove_fn_ok [OF assms(1) Cons.prems(1), of x] by auto
  then show ?case using Cons.IH [OF l1(2), of j] Cons.prems(2) by (simp add: k item_at_def it)
qed auto

lemma find_loop_looks: "find_loop k (\<lambda>a l. Inr (P a l, l)) p l = Inr (r, l') \<Longrightarrow> l' = l"
proof (induction k arbitrary: p)
  case 0
  then show ?case by (cases p) auto
next
  case (Suc k)
  then show ?case by (cases p) (auto simp: andthen_def split: sum.splits if_splits)
qed

lemma sys_step_ok:
  assumes "frees_item fr" "sys_step fr s s'" "sys_ok s"
  shows "sys_ok s'"
  using assms(2,3)
proof (induction rule: sys_step.induct)
  case (enqueue e a s r q)
  then show ?case using enqueue_ok by blast
next
  case (dequeue e s r q)
  then show ?case
    using took_ok [of "que s" s e r q] by (auto simp: sys_ok_def queueDequeue_def took_def split: if_splits)
next
  case (resume s e r q)
  then show ?case
    by (intro took_ok [of "(que s)\<lparr>more_woken := more_woken (que s) - 1\<rparr>"])
      (auto simp: sys_ok_def resume_dequeue_def)
next
  case (remove e a s q)
  then obtain l where l: "queueRemoveFn fr a (qlist (que s)) = Inr (False, l)" "list_at l (remove1 a (queued s))"
    using remove_fn_ok [OF assms(1), of "qlist (que s)" "queued s" a] by (auto simp: sys_ok_def)
  have "subseq (got s @ remove1 a (queued s)) (put s)"
    by (rule subseq_mid [OF subseq_remove1]) (use remove.prems in \<open>simp add: sys_ok_def\<close>)
  moreover have "length (remove1 a (queued s)) \<le> length (queued s)" by (simp add: length_remove1)
  moreover have "q = after_removal e ((que s)\<lparr>qlist := l\<rparr>)"
    using remove l(1) by (simp add: queueRemove_def)
  ultimately show ?case using remove.prems l(2) by (auto simp: sys_ok_def)
next
  case (remove_all e k s q)
  then obtain r l where l: "listFind k (queueRemoveFn fr) (qlist (que s)) = Inr (r, l)"
    "q = signal_less e ((que s)\<lparr>qlist := l\<rparr>)"
    by (cases "listFind k (queueRemoveFn fr) (qlist (que s))") (auto simp: queueRemoveAll_def)
  have "list_at l []"
    using remove_all.prems l(1) list_at_head remove_loop_ok [OF assms(1)]
    unfolding listFind_def sys_ok_def by metis
  moreover have "subseq (got s) (put s)"
    using remove_all.prems subseq_mid [of "[]" "queued s"] by (simp add: sys_ok_def)
  ultimately show ?case by (simp add: sys_ok_def l(2))
next
  case (walk k P e s r q)
  then have "q = que s \<or> q = after_removal e (que s)"
    by (auto simp: queueWalk_def listFind_def andthen_def dest: find_loop_looks split: sum.splits if_splits)
  then show ?case using walk.prems by (auto simp: sys_ok_def)
next
  case (client s m)
  then show ?case using list_at_mem [of "qlist (que s)" "queued s" m] by (simp add: sys_ok_def)
qed (auto simp: sys_ok_def queueWaitEmpty_def resume_wait_empty_def wait_empty_locked_def split: if_splits)

lemma sys_reach_ok:
  assumes "frees_item fr" "(sys_step fr)\<^sup>*\<^sup>* sys_init s"
  shows "sys_ok s"
  using assms(2)
proof (induction rule: rtranclp_induct)
  case base
  then show ?case by (simp add: sys_ok_def sys_init_def list_at_def)
next
  case (step s s')
  then show ?case using sys_step_ok [OF assms(1)] by blast
qed

text \<open>No call of a thread that keeps its obligations ends in a fault.\<close>

lemma sys_calls_return:
  assumes "frees_item fr" "sys_ok s"
  shows "a \<notin> set (queued s) \<Longrightarrow> mem (qlist (que s)) a \<noteq> None \<Longrightarrow> \<exists>r. queueEnqueue e a (que s) = Inr r"
    and "\<exists>r. queueDequeue e (que s) = Inr r" and "\<exists>r. resume_dequeue e (que s) = Inr r"
    and "a \<in> set (queued s) \<Longrightarrow> \<exists>q. queueRemove fr e a (que s) = Inr q"
    and "length (queued s) \<le> k \<Longrightarrow> \<exists>q. queueRemoveAll k fr e (que s) = Inr q"
proof -
  have l: "list_at (qlist (que s)) (queued s)" using assms(2) by (simp add: sys_ok_def)
  show "\<exists>r. queueEnqueue e a (que s) = Inr r" if "a \<notin> set (queued s)" "mem (qlist (que s)) a \<noteq> None"
    using ll.ins_ok [OF l, of a] that by (auto simp: queueEnqueue_def)
  have locked: "\<exists>r. dequeue_locked e q = Inr r" if "list_at (qlist q) xs" for q :: "('a, 'b) queue" and xs
  proof (cases xs)
    case Nil
    then show ?thesis using list_at_head [OF that] by (simp add: dequeue_locked_def listDelete_def)
  next
    case (Cons x ys)
    then show ?thesis using ll.del_first [of "qlist q" x ys] that list_at_head [OF that]
      by (auto simp: dequeue_locked_def Let_def)
  qed
  show "\<exists>r. queueDequeue e (que s) = Inr r" using locked [OF l] by (simp add: queueDequeue_def)
  show "\<exists>r. resume_dequeue e (que s) = Inr r"
    using locked [of "(que s)\<lparr>more_woken := more_woken (que s) - 1\<rparr>"] l by (simp add: resume_dequeue_def)
  show "\<exists>q. queueRemove fr e a (que s) = Inr q" if "a \<in> set (queued s)"
    using remove_fn_ok [OF assms(1) l that] by (auto simp: queueRemove_def)
  show "\<exists>q. queueRemoveAll k fr e (que s) = Inr q" if "length (queued s) \<le> k"
    using remove_loop_returns [OF assms(1) l that] list_at_head [OF l]
    by (auto simp: queueRemoveAll_def listFind_def)
qed

section \<open>Properties\<close>

text \<open>C23: In every state that threads reach by any interleaving of the queue's critical sections, the
  links of the list hold exactly the items put in and not taken out, those returned so far followed by
  those queued are in the order in which they were put in, and while a thread waits for an item at least
  as many threads are woken as there are items.\<close>

theorem queue_invariant:
  assumes "frees_item fr" "(sys_step fr)\<^sup>*\<^sup>* sys_init s"
  shows "list_at (qlist (que s)) (queued s) \<and> subseq (got s @ queued s) (put s) \<and>
    (more_waiting (que s) = 0 \<or> length (queued s) \<le> more_woken (que s))"
  using sys_reach_ok [OF assms] by (simp add: sys_ok_def)

text \<open>Two threads wait for an item and one is put in.\<close>

definition keep_mem :: "nat \<Rightarrow> int free_arg \<Rightarrow> (addr \<rightharpoonup> (nat, int) item) \<Rightarrow> (addr \<rightharpoonup> (nat, int) item)" where
  "keep_mem f arg h = h"

definition all_well :: env where
  "all_well = \<lparr>lock_ok = True, wait_ok = True, wakes = 1, signal_rc = 0\<rparr>"

definition one_item :: "addr \<rightharpoonup> (nat, int) item" where
  "one_item = [1 \<mapsto> \<lparr>free_fn = None, prev = None, nxt = None, data = 10\<rparr>]"

definition demo :: "(nat, int) sys" where
  "demo = \<lparr>que = \<lparr>qlist = \<lparr>len = 1, tail = Some 1, head = Some 1, mem = one_item, freed = []\<rparr>,
       more_waiting = 1, more_woken = 1, less_waiting = 0, less_woken = 0, live = [CvMore, CvLess, Mutex]\<rparr>,
     queued = [1], put = [1], got = []\<rparr>"

lemma demo_reached: "(sys_step keep_mem)\<^sup>*\<^sup>* sys_init demo"
proof -
  let ?w = "\<lambda>n. (sys_init :: (nat, int) sys)\<lparr>que := (que sys_init)\<lparr>qlist :=
      (qlist (que sys_init))\<lparr>mem := one_item\<rparr>, more_waiting := n\<rparr>\<rparr>"
  have "sys_step keep_mem sys_init (?w 0)"
    using sys_step.client [of sys_init one_item keep_mem] by (simp add: sys_init_def)
  moreover have "sys_step keep_mem (?w n) (?w (n + 1))" for n
    using sys_step.dequeue [of all_well "?w n" Waits "que (?w (n + 1))" keep_mem]
    by (simp add: sys_init_def took_def queueDequeue_def dequeue_locked_def all_well_def)
  then have "sys_step keep_mem (?w 0) (?w 1)" "sys_step keep_mem (?w 1) (?w 2)"
    by (metis add_0, metis one_add_one)
  moreover have "sys_step keep_mem (?w 2) demo"
    using sys_step.enqueue [of all_well 1 "?w 2" 0 "que demo" keep_mem]
    by (simp add: sys_init_def demo_def queueEnqueue_def listInsertAfter_def insert_only_def set_next_def
        set_prev_def signal_more_def woken_by_def all_well_def one_item_def)
  ultimately show ?thesis by (meson converse_rtranclp_into_rtranclp rtranclp.rtrancl_refl)
qed

lemma frees_item_keep: "frees_item keep_mem"
  by (simp add: frees_item_def keep_mem_def)

theorem queue_invariant_witness:
  "list_at (qlist (que demo)) [1] \<and> subseq (got demo @ [1]) (put demo) \<and> 1 \<le> more_woken (que demo)"
  using queue_invariant [OF frees_item_keep demo_reached] by (simp add: demo_def)

text \<open>C24: No wakeup for an item is lost: in every reachable state in which an item is queued while a
  thread waits for one, some thread has been woken, and when it runs \<open>queueDequeue\<close> returns the item
  at the front.\<close>

theorem queue_no_lost_wakeup:
  assumes "frees_item fr" "(sys_step fr)\<^sup>*\<^sup>* sys_init s" "0 < more_waiting (que s)" "queued s = a # as"
  shows "0 < more_woken (que s) \<and>
    (\<exists>q. resume_dequeue e (que s) = Inr (Returns (Some a), q) \<and> list_at (qlist q) as)"
proof -
  note ok = sys_reach_ok [OF assms(1,2), unfolded sys_ok_def]
  then have l: "list_at (qlist (que s)) (a # as)" using assms(4) by simp
  obtain l' where "listDelete (Some a) (qlist (que s)) = Inr l'" "list_at l' as"
    using ll.del_first [OF l] by auto
  then show ?thesis using ok assms(3,4) list_at_head [OF l]
    by (auto simp: resume_dequeue_def dequeue_locked_def Let_def)
qed

theorem queue_no_lost_wakeup_witness:
  "0 < more_woken (que demo) \<and>
   (\<exists>q. resume_dequeue all_well (que demo) = Inr (Returns (Some 1), q) \<and> list_at (qlist q) [])"
  using queue_no_lost_wakeup [OF frees_item_keep demo_reached, of 1 "[]" all_well] by (simp add: demo_def)

text \<open>C26: \<open>queueRemoveAll\<close> on a well-linked list ends, with one step for every item, and leaves an empty
  list, although each item may be freed as soon as it is unlinked.\<close>

theorem queueRemoveAll_empties:
  assumes "frees_item fr" "list_at (qlist q) xs" "length xs \<le> k" "lock_ok e"
  shows "\<exists>q'. queueRemoveAll k fr e q = Inr q' \<and> list_at (qlist q') [] \<and> queueIsEmpty e q'"
proof -
  obtain l where "find_loop k (queueRemoveFn fr) (first_or xs None) (qlist q) = Inr (None, l)" "list_at l []"
    using remove_loop_returns [OF assms(1-3)] by auto
  then show ?thesis using assms(4) list_at_head [OF assms(2)]
    by (simp add: queueRemoveAll_def listFind_def queueIsEmpty_def queueLength_def list_at_def)
qed

definition free_it :: "nat \<Rightarrow> int free_arg \<Rightarrow> (addr \<rightharpoonup> (nat, int) item) \<Rightarrow> (addr \<rightharpoonup> (nat, int) item)" where
  "free_it f arg h = (case arg of ArgItem a \<Rightarrow> h(a := None) | ArgData d \<Rightarrow> h)"

theorem queueRemoveAll_empties_witness:
  "\<exists>q'. queueRemoveAll 3 free_it all_well
      \<lparr>qlist = l3, more_waiting = 0, more_woken = 0, less_waiting = 2, less_woken = 0, live = []\<rparr> = Inr q' \<and>
    list_at (qlist q') [] \<and> queueIsEmpty all_well q'"
  using queueRemoveAll_empties [of free_it
      "\<lparr>qlist = l3, more_waiting = 0, more_woken = 0, less_waiting = 2, less_woken = 0, live = []\<rparr>"
      "[5, 6, 7]" 3 all_well] l3_list
  by (simp add: frees_item_def free_it_def all_well_def)

text \<open>C27: \<open>queueInit\<close> succeeds exactly when both condition variables and the mutex are created, and
  when it fails nothing it created remains; the list is empty either way.\<close>

theorem queueInit_all_or_nothing:
  "queueInit c1 c2 m q = (if c1 \<and> c2 \<and> m then 0 else -1,
     q\<lparr>qlist := listInit (qlist q), live := (if c1 \<and> c2 \<and> m then [Mutex, CvLess, CvMore] else []) @ live q\<rparr>) \<and>
   list_at (qlist (snd (queueInit c1 c2 m q))) []"
  by (simp add: queueInit_def listInit_def list_at_def Let_def)

text \<open>With two threads in \<open>queueWaitEmpty\<close> a dequeue that empties the queue signals one of them; the
  other stays blocked although the queue is empty, and nothing is left that will wake it.\<close>

theorem queueWaitEmpty_misses_wakeup:
  "dequeue_locked all_well (que demo\<lparr>less_waiting := 2\<rparr>) =
     Inr (Returns (Some 1), que demo\<lparr>qlist := (qlist (que demo))\<lparr>len := 0, tail := None, head := None\<rparr>,
       less_waiting := 1, less_woken := 1\<rparr>)"
  by (simp add: demo_def dequeue_locked_def listDelete_def item_at_def set_next_def set_prev_def one_item_def
      signal_less_def woken_by_def all_well_def)

end
