(* ===== verification/Base64.thy ===== *)
theory Base64
  imports CPrelude
begin

text \<open>
  \<^verbatim>\<open>util/b64.c\<close>: the Base64 decoder and encoder, two state machines over one record. \<open>decodeSet\<close> is
  the table that \<open>b64Init\<close> fills. Octets and the results of the decoder are C \<open>int\<close> values; buffers
  are lists, and a store outside one is a fault.
\<close>

datatype b64_state =
    START | DECODE_A | DECODE_B | DECODE_C | DECODE_D | DECODE_PAD3 | DECODE_PAD2 | DECODE_PAD1
  | ENCODE_A | ENCODE_B | ENCODE_C | STATE_EOF

record b64 =
  hold :: int
  st :: b64_state

definition BASE64_EOF :: int where
  "BASE64_EOF = -1"

definition BASE64_NEXT :: int where
  "BASE64_NEXT = -2"

definition BASE64_ERROR :: int where
  "BASE64_ERROR = -3"

lemmas b64_codes = BASE64_EOF_def BASE64_NEXT_def BASE64_ERROR_def

definition PAD :: char where
  "PAD = CHR ''=''"

definition encodeSet :: string where
  "encodeSet = ''ABCDEFGHIJKLMNOPQRSTUVWXYZabcdefghijklmnopqrstuvwxyz0123456789+/''"

text \<open>The loop of \<open>b64Init\<close> runs over \<open>sizeof (encodeSet)\<close>, which counts the null as well.\<close>

definition b64Init :: "int list \<Rightarrow> int list" where
  "b64Init table =
     (if table ! 47 \<noteq> 63
      then foldl (\<lambda>t i. t[ord ((encodeSet @ [NUL]) ! i) := int i]) (replicate 256 BASE64_NEXT) [0..<65]
      else table)"

definition decodeSet :: "int list" where
  "decodeSet = b64Init (replicate 256 0)"

definition b64Reset :: "b64 \<Rightarrow> b64" where
  "b64Reset b = b\<lparr>st := START\<rparr>"

section \<open>Decoding\<close>

definition uchar :: "int \<Rightarrow> int" where
  "uchar x = x mod 256"

definition decode_value :: "int \<Rightarrow> b64 \<Rightarrow> int \<times> b64" where
  "decode_value v b =
     (case st b of
        START \<Rightarrow> if v = 64 then (BASE64_NEXT, b\<lparr>st := DECODE_PAD3\<rparr>)
                 else (BASE64_NEXT, \<lparr>hold = v, st = DECODE_B\<rparr>)
      | DECODE_A \<Rightarrow> if v = 64 then (BASE64_NEXT, b\<lparr>st := DECODE_PAD3\<rparr>)
                    else (BASE64_NEXT, \<lparr>hold = v, st = DECODE_B\<rparr>)
      | DECODE_B \<Rightarrow> if v = 64 then (BASE64_ERROR, b)
                    else (uchar (push_bit 2 (hold b) OR drop_bit 4 v), \<lparr>hold = v, st = DECODE_C\<rparr>)
      | DECODE_C \<Rightarrow> if v = 64 then (BASE64_NEXT, b\<lparr>st := DECODE_PAD1\<rparr>)
                    else (uchar (push_bit 4 (hold b) OR drop_bit 2 v), \<lparr>hold = v, st = DECODE_D\<rparr>)
      | DECODE_D \<Rightarrow> if v = 64 then (BASE64_EOF, b\<lparr>st := STATE_EOF\<rparr>)
                    else (uchar (push_bit 6 (hold b) OR v), b\<lparr>st := DECODE_A\<rparr>)
      | DECODE_PAD3 \<Rightarrow> if v = 64 then (BASE64_NEXT, b\<lparr>st := DECODE_PAD2\<rparr>) else (BASE64_ERROR, b)
      | DECODE_PAD2 \<Rightarrow> if v = 64 then (BASE64_NEXT, b\<lparr>st := DECODE_PAD1\<rparr>) else (BASE64_ERROR, b)
      | DECODE_PAD1 \<Rightarrow> if v = 64 then (BASE64_EOF, b\<lparr>st := STATE_EOF\<rparr>) else (BASE64_ERROR, b)
      | STATE_EOF \<Rightarrow> (BASE64_EOF, b)
      | _ \<Rightarrow> (BASE64_ERROR, b))"

definition b64Decode :: "int \<Rightarrow> b64 \<Rightarrow> int \<times> b64" where
  "b64Decode x b =
     (let x = (if x < 0 then int (ord PAD) else x)
      in if 256 \<le> x then (BASE64_ERROR, b)
         else if x = int (ord PAD) then decode_value 64 b
         else if decodeSet ! nat x = BASE64_NEXT then (BASE64_NEXT, b)
         else decode_value (decodeSet ! nat x) b)"

text \<open>The loop of \<open>b64DecodeBuffer\<close>; \<open>limit\<close> is the decremented \<open>out_size\<close>. The result says whether
  the loop ended with an error.\<close>

fun decode_loop :: "string \<Rightarrow> nat \<Rightarrow> b64 \<Rightarrow> int list \<Rightarrow> nat \<Rightarrow> fault + bool \<times> b64 \<times> int list \<times> nat" where
  "decode_loop [] limit b out olen = Inr (False, b, out, olen)"
| "decode_loop (c # cs) limit b out olen =
     (if limit \<le> olen then Inr (False, b, out, olen)
      else
        let (octet, b) = b64Decode (schar c) b
        in if octet = BASE64_NEXT then decode_loop cs limit b out olen
           else if octet = BASE64_ERROR then Inr (True, b, out, olen)
           else if octet = BASE64_EOF then Inr (False, b, out, olen)
           else andthen (store out olen (uchar octet)) (\<lambda>out. decode_loop cs limit b out (olen + 1)))"

text \<open>A null \<open>b64\<close> or \<open>output\<close> is \<open>None\<close>; \<open>out_size\<close> need not be the real size of the buffer.\<close>

definition b64DecodeBuffer :: "b64 option \<Rightarrow> string option \<Rightarrow> int list option \<Rightarrow> nat \<Rightarrow> nat option
    \<Rightarrow> fault + int \<times> b64 option \<times> int list option \<times> nat option" where
  "b64DecodeBuffer b64 input output out_size out_length =
     (case (b64, output) of
        (Some b, Some out) \<Rightarrow>
          if out_size = 0 then Inr (BASE64_ERROR, b64, output, out_length)
          else
            let inp = (case input of None \<Rightarrow> [] | Some s \<Rightarrow> s);
                olen = (case out_length of None \<Rightarrow> 0 | Some n \<Rightarrow> n)
            in andthen (decode_loop inp (out_size - 1) b out olen) (\<lambda>(failed, b, out, olen).
               if failed then Inr (BASE64_ERROR, Some b, Some out, out_length)
               else andthen (store out olen 0) (\<lambda>out.
                 Inr (if st b = DECODE_A \<or> st b = STATE_EOF then 0 else BASE64_NEXT,
                      Some b, Some out, map_option (\<lambda>_. olen) out_length)))
      | _ \<Rightarrow> Inr (BASE64_ERROR, b64, output, out_length))"

section \<open>Encoding\<close>

definition b64EncodeGetOutputSize :: "nat \<Rightarrow> nat" where
  "b64EncodeGetOutputSize n = (n + 3) div 3 * 4 + 1"

definition enc :: "int \<Rightarrow> char" where
  "enc v = encodeSet ! nat v"

text \<open>\<open>_b64Encode\<close>, with the quantum at \<open>out + q\<close>. The result says whether it returns the quantum or
  null.\<close>

definition encode_step :: "int \<Rightarrow> b64 \<Rightarrow> string \<Rightarrow> nat \<Rightarrow> fault + bool \<times> b64 \<times> string" where
  "encode_step x b out q =
     (case st b of
        ENCODE_B \<Rightarrow>
          if x < 0 then
            andthen (store out (q + 1) (enc (hold b))) (\<lambda>out.
            andthen (store out (q + 2) PAD) (\<lambda>out.
            andthen (store out (q + 3) PAD) (\<lambda>out. Inr (True, b, out))))
          else
            andthen (store out (q + 1) (enc (hold b OR (drop_bit 4 x AND 0xf)))) (\<lambda>out.
            Inr (False, \<lparr>hold = push_bit 2 x AND 0x3c, st = ENCODE_C\<rparr>, out))
      | ENCODE_C \<Rightarrow>
          if x < 0 then
            andthen (store out (q + 2) (enc (hold b))) (\<lambda>out.
            andthen (store out (q + 3) PAD) (\<lambda>out. Inr (True, b, out)))
          else
            andthen (store out (q + 2) (enc (hold b OR (drop_bit 6 x AND 0x3)))) (\<lambda>out.
            andthen (store out (q + 3) (enc (x AND 0x3f))) (\<lambda>out.
            Inr (True, b\<lparr>st := ENCODE_A\<rparr>, out)))
      | _ \<Rightarrow>
          if st b = START \<or> st b = ENCODE_A then
            if x < -1 then
              andthen (store out q PAD) (\<lambda>out.
              andthen (store out (q + 1) PAD) (\<lambda>out.
              andthen (store out (q + 2) PAD) (\<lambda>out.
              andthen (store out (q + 3) PAD) (\<lambda>out. Inr (True, b, out)))))
            else if x < 0 then andthen (store out q NUL) (\<lambda>out. Inr (True, b, out))
            else
              andthen (store out q (enc (drop_bit 2 x AND 0x3f))) (\<lambda>out.
              Inr (False, \<lparr>hold = push_bit 4 x AND 0x30, st = ENCODE_B\<rparr>, out))
          else Inr (False, b, out))"

text \<open>\<open>b64Encode\<close> uses the five characters of the record's own quantum.\<close>

definition b64Encode :: "int \<Rightarrow> b64 \<Rightarrow> string \<Rightarrow> fault + string option \<times> b64 \<times> string" where
  "b64Encode x b quantum =
     andthen (encode_step x b quantum 0) (\<lambda>(full, b, quantum).
     Inr (if full then Some quantum else None, b, quantum))"

fun encode_loop :: "int list \<Rightarrow> b64 \<Rightarrow> string \<Rightarrow> nat \<Rightarrow> fault + b64 \<times> string \<times> nat" where
  "encode_loop [] b out olen = Inr (b, out, olen)"
| "encode_loop (x # xs) b out olen =
     andthen (encode_step x b out olen) (\<lambda>(full, b, out).
     encode_loop xs b out (if full then olen + 4 else olen))"

definition b64EncodeBuffer :: "b64 option \<Rightarrow> int list option \<Rightarrow> string option \<Rightarrow> nat \<Rightarrow> nat option
    \<Rightarrow> fault + int \<times> b64 option \<times> string option \<times> nat option" where
  "b64EncodeBuffer b64 input output out_size out_length =
     (case (b64, output) of
        (Some b, Some out) \<Rightarrow>
          if out_size = 0 then Inr (BASE64_ERROR, b64, output, out_length)
          else
            let inp = (case input of None \<Rightarrow> [] | Some s \<Rightarrow> s);
                olen = (case out_length of None \<Rightarrow> 0 | Some n \<Rightarrow> n - n mod 4)
            in andthen (encode_loop inp b out olen) (\<lambda>(b, out, olen).
               let olen = olen + (case st b of ENCODE_C \<Rightarrow> 2 | ENCODE_B \<Rightarrow> 1 | _ \<Rightarrow> 0)
               in andthen (store out olen NUL) (\<lambda>out.
                  Inr (if st b = START \<or> st b = ENCODE_A then 0 else BASE64_NEXT,
                       Some b, Some out, map_option (\<lambda>_. olen) out_length)))
      | _ \<Rightarrow> Inr (BASE64_ERROR, b64, output, out_length))"

fun store_all :: "'a list \<Rightarrow> nat \<Rightarrow> 'a list \<Rightarrow> fault + 'a list" where
  "store_all out i [] = Inr out"
| "store_all out i (x # xs) = andthen (store out i x) (\<lambda>out. store_all out (i + 1) xs)"

definition b64EncodeFinish :: "b64 option \<Rightarrow> string option \<Rightarrow> nat \<Rightarrow> nat option \<Rightarrow> bool
    \<Rightarrow> fault + int \<times> b64 option \<times> string option \<times> nat option" where
  "b64EncodeFinish b64 output out_size out_length mark_end =
     (case (b64, output) of
        (Some b, Some out) \<Rightarrow>
          if out_size = 0 then Inr (BASE64_ERROR, b64, output, out_length)
          else
            let olen = (case out_length of None \<Rightarrow> 0 | Some n \<Rightarrow> n);
                start = (st b = START \<or> st b = ENCODE_A);
                rest = (if start then (if mark_end then [PAD, PAD, PAD, PAD] else [])
                        else if st b = ENCODE_B then [enc (hold b), PAD, PAD]
                        else if st b = ENCODE_C then [enc (hold b), PAD]
                        else [])
            in if start \<and> out_size < olen + 5 \<or> (st b = ENCODE_B \<or> st b = ENCODE_C) \<and> out_size < olen + 3
               then Inr (BASE64_ERROR, b64, output, out_length)
               else andthen (store_all out olen (rest @ [NUL])) (\<lambda>out.
                    Inr (0, Some (b\<lparr>st := ENCODE_A\<rparr>), Some out, map_option (\<lambda>_. olen + length rest) out_length))
      | _ \<Rightarrow> Inr (BASE64_ERROR, b64, output, out_length))"

section \<open>The reference encoding\<close>

text \<open>Groups of three octets as four digits of six bits each, the last group padded.\<close>

fun b64_text :: "int list \<Rightarrow> string" where
  "b64_text [] = []"
| "b64_text [x] = [enc (x div 4), enc (x mod 4 * 16), PAD, PAD]"
| "b64_text [x, y] = [enc (x div 4), enc (x mod 4 * 16 + y div 16), enc (y mod 16 * 4), PAD]"
| "b64_text (x # y # z # r) =
     [enc (x div 4), enc (x mod 4 * 16 + y div 16), enc (y mod 16 * 4 + z div 64), enc (z mod 64)]
     @ b64_text r"

definition octet :: "int \<Rightarrow> bool" where
  "octet x \<longleftrightarrow> 0 \<le> x \<and> x < 256"

section \<open>Bits\<close>

lemma shift2: "drop_bit 2 x AND 0x3f = x div 4 mod 64" for x :: int
proof -
  have "drop_bit 2 x AND 0x3f = take_bit 6 (drop_bit 2 x)" by (simp add: take_bit_eq_mask mask_eq_exp_minus_1)
  then show ?thesis by (simp add: take_bit_eq_mod drop_bit_eq_div)
qed

lemma low4: "drop_bit 4 x AND 0xf = x div 16 mod 16" for x :: int
proof -
  have "drop_bit 4 x AND 0xf = take_bit 4 (drop_bit 4 x)" by (simp add: take_bit_eq_mask mask_eq_exp_minus_1)
  then show ?thesis by (simp add: take_bit_eq_mod drop_bit_eq_div)
qed

lemma low2: "drop_bit 6 x AND 0x3 = x div 64 mod 4" for x :: int
proof -
  have "drop_bit 6 x AND 0x3 = take_bit 2 (drop_bit 6 x)" by (simp add: take_bit_eq_mask mask_eq_exp_minus_1)
  then show ?thesis by (simp add: take_bit_eq_mod drop_bit_eq_div)
qed

lemma low6: "x AND 0x3f = x mod 64" for x :: int
proof -
  have "x AND 0x3f = take_bit 6 x" by (simp add: take_bit_eq_mask mask_eq_exp_minus_1)
  then show ?thesis by (simp add: take_bit_eq_mod)
qed

lemma hold4: "push_bit 4 x AND 0x30 = x mod 4 * 16" for x :: int
proof -
  have "push_bit 4 x AND 0x30 = push_bit 4 (take_bit 2 x)"
    by (simp add: take_bit_eq_mask mask_eq_exp_minus_1 push_bit_and)
  then show ?thesis by (simp add: take_bit_eq_mod push_bit_eq_mult)
qed

lemma hold2: "push_bit 2 x AND 0x3c = x mod 16 * 4" for x :: int
proof -
  have "push_bit 2 x AND 0x3c = push_bit 2 (take_bit 4 x)"
    by (simp add: take_bit_eq_mask mask_eq_exp_minus_1 push_bit_and)
  then show ?thesis by (simp add: take_bit_eq_mod push_bit_eq_mult)
qed

lemma or_add:
  fixes x y :: int
  assumes "0 \<le> y" "y < 2 ^ n"
  shows "x * 2 ^ n OR y = x * 2 ^ n + y"
proof -
  have y: "take_bit n y = y" using assms by (simp add: take_bit_int_eq_self)
  have "push_bit n x AND take_bit n y = 0"
    by (rule bit_eqI) (auto simp: bit_simps)
  then have "push_bit n x OR take_bit n y = push_bit n x + take_bit n y" by (simp add: disjunctive_add_eq_or)
  then show ?thesis by (simp add: y push_bit_eq_mult)
qed

section \<open>The encoder\<close>

lemma digit_bounds [simp]:
  "octet x \<Longrightarrow> x div 4 mod 64 = x div 4"
  "octet x \<Longrightarrow> x div 16 mod 16 = x div 16"
  "octet x \<Longrightarrow> x div 64 mod 4 = x div 64"
  by (auto simp: octet_def)

lemma digits_or:
  assumes "octet x"
  shows "y mod 4 * 16 OR x div 16 = y mod 4 * 16 + x div 16" "y mod 16 * 4 OR x div 64 = y mod 16 * 4 + x div 64"
proof -
  have "0 \<le> x div 16" "x div 16 < 16" "0 \<le> x div 64" "x div 64 < 4" using assms by (auto simp: octet_def)
  then show "y mod 4 * 16 OR x div 16 = y mod 4 * 16 + x div 16" "y mod 16 * 4 OR x div 64 = y mod 16 * 4 + x div 64"
    using or_add [of "x div 16" 4 "y mod 4"] or_add [of "x div 64" 2 "y mod 16"] by simp_all
qed

lemma and_masks: "x AND 15 = x mod 16" "x AND 3 = x mod 4" for x :: int
proof -
  have "x AND 15 = take_bit 4 x" "x AND 3 = take_bit 2 x" by (simp_all add: take_bit_eq_mask mask_eq_exp_minus_1)
  then show "x AND 15 = x mod 16" "x AND 3 = x mod 4" by (simp_all add: take_bit_eq_mod)
qed

lemmas encode_bits = and_masks drop_bit_eq_div low2 low6 hold4 hold2 digits_or

lemma octet_not_neg [simp]: "octet x \<Longrightarrow> \<not> x < 0" "octet x \<Longrightarrow> \<not> x < -1"
  by (simp_all add: octet_def)

lemma first4:
  assumes "4 \<le> length xs"
  shows "\<exists>a b c d ys. xs = a # b # c # d # ys"
  using assms by (auto simp: numeral_eq_Suc Suc_le_length_iff)

lemma encode_triple:
  assumes "st b = START \<or> st b = ENCODE_A" "octet x" "octet y" "octet z" "4 \<le> length junk"
  shows "\<exists>h. encode_loop (x # y # z # r) b (pre @ junk) (length pre) =
    encode_loop r \<lparr>hold = h, st = ENCODE_A\<rparr> ((pre @ b64_text [x, y, z]) @ drop 4 junk) (length pre + 4)"
proof -
  obtain a b' c d js where "junk = a # b' # c # d # js" using first4 [OF assms(5)] by blast
  then show ?thesis using assms(1-4)
    by (auto simp: encode_step_def encode_bits list_update_append)
qed

lemma fold_table:
  assumes "inj_on f {..<n}" "k < n" "\<And>i. i < n \<Longrightarrow> f i < length t"
  shows "foldl (\<lambda>t i. t[f i := int i]) t [0..<n] ! f k = int k"
  using assms
proof (induction n)
  case (Suc n)
  have ne: "f n \<noteq> f k" if "k \<noteq> n" using Suc.prems(1,2) that by (auto simp: inj_on_def)
  have len: "length (foldl (\<lambda>t i. t[f i := int i]) t [0..<m]) = length t" for m by (induction m) auto
  have "inj_on f {..<n}" using Suc.prems(1) by (rule inj_on_subset) auto
  then show ?case
    using Suc len [of n] by (cases "k = n") (auto simp: inj_on_def nth_list_update_neq [OF ne])
qed simp

lemma digits_distinct: "distinct (encodeSet @ [NUL])"
  by (simp add: encodeSet_def)

lemma digits_plain: "list_all (\<lambda>c. ord c < 128 \<and> c \<noteq> PAD) encodeSet"
  by (simp add: encodeSet_def PAD_def ord_def)

lemma length_encodeSet: "length encodeSet = 64"
  by (simp add: encodeSet_def)

lemma decodeSet_digit:
  assumes "k < 64"
  shows "decodeSet ! ord (encodeSet ! k) = int k"
proof -
  let ?f = "\<lambda>i. ord ((encodeSet @ [NUL]) ! i)"
  have "inj_on ?f {..<65}"
    using digits_distinct length_encodeSet by (auto simp: inj_on_def nth_eq_iff_index_eq)
  then have "foldl (\<lambda>t i. t[?f i := int i]) (replicate 256 BASE64_NEXT) [0..<65] ! ?f k = int k"
    using assms by (intro fold_table) auto
  then show ?thesis using assms length_encodeSet by (simp add: decodeSet_def b64Init_def nth_append)
qed

lemma schar_plain: "ord c < 128 \<Longrightarrow> schar c = int (ord c)"
  by (simp add: schar_def)

lemma b64Decode_digit:
  assumes "0 \<le> v" "v < 64"
  shows "b64Decode (schar (enc v)) b = decode_value v b"
proof -
  have k: "nat v < 64" using assms by simp
  then have "ord (enc v) < 128" "enc v \<noteq> PAD"
    using digits_plain length_encodeSet by (simp_all add: enc_def list_all_length)
  then show ?thesis using decodeSet_digit [OF k] assms
    by (simp add: b64Decode_def schar_plain BASE64_NEXT_def enc_def)
qed

lemma b64Decode_pad: "b64Decode (schar PAD) b = decode_value 64 b"
  by (simp add: b64Decode_def schar_def PAD_def ord_def)

lemma decode_join_ab:
  assumes "octet x" "octet y"
  shows "uchar (push_bit 2 (x div 4) OR drop_bit 4 (x mod 4 * 16 + y div 16)) = x"
proof -
  have y: "0 \<le> y div 16" "y div 16 < 16" using assms(2) by (auto simp: octet_def)
  then have "drop_bit 4 (x mod 4 * 16 + y div 16) = x mod 4" by (simp add: drop_bit_eq_div)
  moreover have "x div 4 * 4 OR x mod 4 = x div 4 * 4 + x mod 4" using or_add [of "x mod 4" 2 "x div 4"] by simp
  ultimately show ?thesis using assms(1) by (simp add: push_bit_eq_mult uchar_def octet_def)
qed

lemma decode_join_bc:
  assumes "octet y" "octet z"
  shows "uchar (push_bit 4 (x mod 4 * 16 + y div 16) OR drop_bit 2 (y mod 16 * 4 + z div 64)) = y"
proof -
  have "0 \<le> z div 64" "z div 64 < 4" "0 \<le> y div 16" "y div 16 < 16" using assms by (auto simp: octet_def)
  then have "drop_bit 2 (y mod 16 * 4 + z div 64) = y mod 16" by (simp add: drop_bit_eq_div)
  moreover have "(x mod 4 * 16 + y div 16) * 16 OR y mod 16 = (x mod 4 * 16 + y div 16) * 16 + y mod 16"
    using or_add [of "y mod 16" 4 "x mod 4 * 16 + y div 16"] by simp
  moreover have "((x mod 4 * 16 + y div 16) * 16 + y mod 16) = x mod 4 * 256 + y" by simp
  ultimately show ?thesis using assms(1) by (simp add: push_bit_eq_mult uchar_def octet_def)
qed

lemma decode_join_cd:
  assumes "octet z"
  shows "uchar (push_bit 6 (y mod 16 * 4 + z div 64) OR z mod 64) = z"
proof -
  have "(y mod 16 * 4 + z div 64) * 64 OR z mod 64 = (y mod 16 * 4 + z div 64) * 64 + z mod 64"
    using or_add [of "z mod 64" 6 "y mod 16 * 4 + z div 64"] by simp
  also have "\<dots> = y mod 16 * 256 + z" by simp
  finally show ?thesis using assms by (simp add: push_bit_eq_mult uchar_def octet_def)
qed

lemma store_all_ok:
  "length xs \<le> length junk \<Longrightarrow> store_all (pre @ junk) (length pre) xs = Inr (pre @ xs @ drop (length xs) junk)"
proof (induction xs arbitrary: pre junk)
  case (Cons x xs)
  then obtain j js where j: "junk = j # js" by (cases junk) auto
  show ?case using Cons.IH [of js "pre @ [x]"] Cons.prems by (simp add: j list_update_append)
qed simp

definition closing :: "b64 \<Rightarrow> string" where
  "closing b = (case st b of ENCODE_B \<Rightarrow> [enc (hold b), PAD, PAD] | ENCODE_C \<Rightarrow> [enc (hold b), PAD] | _ \<Rightarrow> [])"

definition partial :: "b64 \<Rightarrow> nat" where
  "partial b = (case st b of ENCODE_C \<Rightarrow> 2 | ENCODE_B \<Rightarrow> 1 | _ \<Rightarrow> 0)"

definition encoding :: "b64 \<Rightarrow> bool" where
  "encoding b \<longleftrightarrow> st b = START \<or> st b = ENCODE_A \<or> st b = ENCODE_B \<or> st b = ENCODE_C"

lemma plus4: "n + 4 = Suc (Suc (Suc (Suc n)))"
  by simp

lemma encode_loop_text:
  assumes "list_all octet bs" "st b = START \<or> st b = ENCODE_A" "length (b64_text bs) \<le> length junk"
  shows "\<exists>b' body n. encode_loop bs b (pre @ junk) (length pre) = Inr (b', (pre @ body) @ drop (length body) junk, n) \<and>
    n + partial b' = length (pre @ body) \<and> body @ closing b' = b64_text bs \<and> encoding b' \<and>
    (closing b' = [] \<longrightarrow> length bs mod 3 = 0)"
  using assms
proof (induction bs arbitrary: b pre junk rule: b64_text.induct)
  case 1
  then show ?case by (auto simp: partial_def closing_def encoding_def)
next
  case (2 x)
  obtain c0 c1 c2 c3 js where j: "junk = c0 # c1 # c2 # c3 # js" using first4 [of junk] 2 by auto
  have "encode_loop [x] b (pre @ junk) (length pre) =
      Inr (\<lparr>hold = x mod 4 * 16, st = ENCODE_B\<rparr>, pre @ [enc (x div 4)] @ drop 1 junk, length pre)"
    using 2 by (auto simp: j encode_step_def encode_bits list_update_append)
  then show ?case
    by (intro exI [of _ "\<lparr>hold = x mod 4 * 16, st = ENCODE_B\<rparr>"] exI [of _ "[enc (x div 4)]"] exI [of _ "length pre"])
      (simp add: partial_def closing_def encoding_def)
next
  case (3 x y)
  obtain c0 c1 c2 c3 js where j: "junk = c0 # c1 # c2 # c3 # js" using first4 [of junk] 3 by auto
  let ?body = "[enc (x div 4), enc (x mod 4 * 16 + y div 16)]"
  have "encode_loop [x, y] b (pre @ junk) (length pre) =
      Inr (\<lparr>hold = y mod 16 * 4, st = ENCODE_C\<rparr>, pre @ ?body @ drop 2 junk, length pre)"
    using 3 by (auto simp: j encode_step_def encode_bits list_update_append)
  then show ?case
    by (intro exI [of _ "\<lparr>hold = y mod 16 * 4, st = ENCODE_C\<rparr>"] exI [of _ ?body] exI [of _ "length pre"])
      (simp add: partial_def closing_def encoding_def numeral_2_eq_2)
next
  case (4 x y z r)
  let ?q = "b64_text [x, y, z]"
  have len: "length (pre @ ?q) = length pre + 4" by simp
  have "octet x" "octet y" "octet z" "4 \<le> length junk" using 4(2,4) by simp_all
  from encode_triple [OF 4(3) this, of r pre] obtain h where
    step: "encode_loop (x # y # z # r) b (pre @ junk) (length pre) =
      encode_loop r \<lparr>hold = h, st = ENCODE_A\<rparr> ((pre @ ?q) @ drop 4 junk) (length (pre @ ?q))"
    unfolding len by blast
  obtain b' body n where "encode_loop r \<lparr>hold = h, st = ENCODE_A\<rparr> ((pre @ ?q) @ drop 4 junk) (length (pre @ ?q)) =
      Inr (b', ((pre @ ?q) @ body) @ drop (length body) (drop 4 junk), n)"
      "n + partial b' = length ((pre @ ?q) @ body)" "body @ closing b' = b64_text r" "encoding b'"
      "closing b' = [] \<longrightarrow> length r mod 3 = 0"
  proof -
    have "list_all octet r" "st \<lparr>hold = h, st = ENCODE_A\<rparr> = START \<or> st \<lparr>hold = h, st = ENCODE_A\<rparr> = ENCODE_A"
      "length (b64_text r) \<le> length (drop 4 junk)" using 4(2,4) by simp_all
    from 4(1) [OF this, of "pre @ ?q"] show thesis by (elim exE conjE) (rule that)
  qed
  then show ?case unfolding step
    by (intro exI [of _ b'] exI [of _ "?q @ body"] exI [of _ n]) (auto simp: add.commute plus4)
qed

lemma length_b64_text: "length (b64_text bs) = (length bs + 2) div 3 * 4"
proof (induction bs rule: b64_text.induct)
  case (4 x y z r)
  have "(length (x # y # z # r) + 2) div 3 = Suc ((length r + 2) div 3)" by simp
  then show ?case using 4 by simp
qed simp_all

section \<open>The decoder\<close>

lemma digit_ranges [simp]:
  assumes "octet x"
  shows "0 \<le> x div 4" "x div 4 < 64" "0 \<le> x div 16" "x div 16 < 16" "0 \<le> x div 64" "x div 64 < 4"
    "x \<noteq> BASE64_NEXT" "x \<noteq> BASE64_ERROR" "x \<noteq> BASE64_EOF" "uchar x = x"
  using assms by (auto simp: octet_def b64_codes uchar_def)

lemma decode_digit_1:
  assumes "octet x" "st b = START \<or> st b = DECODE_A"
  shows "b64Decode (schar (enc (x div 4))) b = (BASE64_NEXT, \<lparr>hold = x div 4, st = DECODE_B\<rparr>)"
proof -
  have "x div 4 \<noteq> 64" using digit_ranges(2) [OF assms(1)] by linarith
  then show ?thesis using assms by (auto simp: b64Decode_digit decode_value_def)
qed

lemma digit_sum_2:
  assumes "octet y"
  shows "0 \<le> x mod 4 * 16 + y div 16" "x mod 4 * 16 + y div 16 < 64"
proof -
  have "0 \<le> x mod 4" "x mod 4 < 4" by simp_all
  then show "0 \<le> x mod 4 * 16 + y div 16" "x mod 4 * 16 + y div 16 < 64"
    using digit_ranges(3,4) [OF assms] by linarith+
qed

lemma digit_sum_3:
  assumes "octet z"
  shows "0 \<le> y mod 16 * 4 + z div 64" "y mod 16 * 4 + z div 64 < 64"
proof -
  have "0 \<le> y mod 16" "y mod 16 < 16" by simp_all
  then show "0 \<le> y mod 16 * 4 + z div 64" "y mod 16 * 4 + z div 64 < 64"
    using digit_ranges(5,6) [OF assms] by linarith+
qed

lemma decode_digit_2:
  assumes "octet x" "octet y" 
  shows "b64Decode (schar (enc (x mod 4 * 16 + y div 16))) \<lparr>hold = x div 4, st = DECODE_B\<rparr> =
    (x, \<lparr>hold = x mod 4 * 16 + y div 16, st = DECODE_C\<rparr>)"
  using digit_sum_2 [OF assms(2), of x] decode_join_ab [OF assms] by (simp add: b64Decode_digit decode_value_def)

lemma decode_digit_3:
  assumes "octet y" "octet z" 
  shows "b64Decode (schar (enc (y mod 16 * 4 + z div 64))) \<lparr>hold = x mod 4 * 16 + y div 16, st = DECODE_C\<rparr> =
    (y, \<lparr>hold = y mod 16 * 4 + z div 64, st = DECODE_D\<rparr>)"
  using digit_sum_3 [OF assms(2), of y] decode_join_bc [OF assms, of x] by (simp add: b64Decode_digit decode_value_def)

lemma decode_digit_4:
  assumes "octet z" 
  shows "b64Decode (schar (enc (z mod 64))) \<lparr>hold = y mod 16 * 4 + z div 64, st = DECODE_D\<rparr> =
    (z, \<lparr>hold = y mod 16 * 4 + z div 64, st = DECODE_A\<rparr>)"
  using decode_join_cd [OF assms, of y] by (simp add: b64Decode_digit decode_value_def)

lemmas decode_digits = decode_digit_1 decode_digit_2 decode_digit_3 decode_digit_4

lemma octet_0: "octet 0"
  by (simp add: octet_def)

lemma decode_loop_text:
  assumes "list_all octet bs" "st b = START \<or> st b = DECODE_A" "length bs \<le> length junk"
    "length pre + length bs < limit"
  shows "\<exists>b'. decode_loop (b64_text bs) limit b (pre @ junk) (length pre) =
      Inr (False, b', (pre @ bs) @ drop (length bs) junk, length (pre @ bs)) \<and>
    (st b' = DECODE_A \<or> st b' = STATE_EOF \<or> bs = [] \<and> b' = b)"
  using assms
proof (induction bs arbitrary: b pre junk rule: b64_text.induct)
  case 1
  then show ?case by auto
next
  case (2 x)
  obtain j js where j: "junk = j # js" using 2 by (cases junk) auto
  have "b64Decode (schar (enc (x mod 4 * 16))) \<lparr>hold = x div 4, st = DECODE_B\<rparr> =
      (x, \<lparr>hold = x mod 4 * 16, st = DECODE_C\<rparr>)" using decode_digit_2 [of x 0] 2 octet_0 by simp
  then show ?case using 2
    by (simp add: decode_digit_1 j b64Decode_pad decode_value_def list_update_append b64_codes octet_def uchar_def)
next
  case (3 x y)
  obtain j k js where j: "junk = j # k # js" using 3 by (auto simp: numeral_eq_Suc Suc_le_length_iff)
  have "b64Decode (schar (enc (y mod 16 * 4))) \<lparr>hold = x mod 4 * 16 + y div 16, st = DECODE_C\<rparr> =
      (y, \<lparr>hold = y mod 16 * 4, st = DECODE_D\<rparr>)" using decode_digit_3 [of y 0 x] 3 octet_0 by simp
  then show ?case using 3
    by (simp add: decode_digit_1 decode_digit_2 j b64Decode_pad decode_value_def list_update_append b64_codes octet_def uchar_def)
next
  case (4 x y z r)
  obtain j k l js where j: "junk = j # k # l # js" using 4(4) by (auto simp: numeral_eq_Suc Suc_le_length_iff)
  have "decode_loop (b64_text (x # y # z # r)) limit b (pre @ junk) (length pre) =
      decode_loop (b64_text r) limit \<lparr>hold = y mod 16 * 4 + z div 64, st = DECODE_A\<rparr> ((pre @ [x, y, z]) @ js)
        (length (pre @ [x, y, z]))"
    using 4(2-) by (simp add: decode_digits j list_update_append BASE64_NEXT_def octet_def uchar_def BASE64_EOF_def BASE64_ERROR_def)
  moreover have "\<exists>b'. decode_loop (b64_text r) limit \<lparr>hold = y mod 16 * 4 + z div 64, st = DECODE_A\<rparr>
      ((pre @ [x, y, z]) @ js) (length (pre @ [x, y, z])) =
      Inr (False, b', ((pre @ [x, y, z]) @ r) @ drop (length r) js, length ((pre @ [x, y, z]) @ r)) \<and>
      (st b' = DECODE_A \<or> st b' = STATE_EOF \<or> r = [] \<and> b' = \<lparr>hold = y mod 16 * 4 + z div 64, st = DECODE_A\<rparr>)"
    using 4(2-) j by (intro 4(1)) auto
  ultimately show ?case by (auto simp: j)
qed

section \<open>Properties\<close>

text \<open>C30: The encoder writes the reference encoding: for every sequence of octets and an output buffer of
  the sz that \<open>b64EncodeGetOutputSize\<close> gives, \<open>b64EncodeBuffer\<close> followed by \<open>b64EncodeFinish\<close> stay
  within the buffer, return no error and leave the four-digit groups with their padding and a null; the
  length reported is that of the text.\<close>

theorem b64Encode_text:
  assumes "list_all octet bs" "length out = b64EncodeGetOutputSize (length bs)" "sz = length out"
  shows "\<exists>rc b1 out1 n1 b2 out2.
    b64EncodeBuffer (Some (b64Reset b)) (Some bs) (Some out) sz (Some 0) = Inr (rc, Some b1, Some out1, Some n1) \<and>
    b64EncodeFinish (Some b1) (Some out1) sz (Some n1) False =
      Inr (0, Some b2, Some out2, Some (length (b64_text bs))) \<and>
    take (length (b64_text bs) + 1) out2 = b64_text bs @ [NUL]"
proof -
  have room: "length (b64_text bs) < length out"
    using length_b64_text [of bs] assms(2) by (simp add: b64EncodeGetOutputSize_def) presburger
  obtain b1 body n where e: "encode_loop bs (b64Reset b) out 0 = Inr (b1, body @ drop (length body) out, n)"
      "n + partial b1 = length body" "body @ closing b1 = b64_text bs" "encoding b1"
      "closing b1 = [] \<longrightarrow> length bs mod 3 = 0"
    using encode_loop_text [OF assms(1), of "b64Reset b" out "[]"] room by (auto simp: b64Reset_def)
  have split: "length (b64_text bs) = length body + length (closing b1)" unfolding e(3) [symmetric] by simp
  define junk where "junk = drop (length body) out"
  have junk: "length (closing b1 @ [NUL]) \<le> length junk" using split room by (simp add: junk_def)
  define out1 where "out1 = body @ NUL # tl junk"
  have s1: "store (body @ junk) (length body) NUL = Inr out1"
    using junk by (cases junk) (simp_all add: out1_def list_update_append)
  have s2: "store_all out1 (length body) (closing b1 @ [NUL]) =
      Inr (body @ (closing b1 @ [NUL]) @ drop (length (closing b1 @ [NUL])) (NUL # tl junk))"
    unfolding out1_def using junk by (intro store_all_ok) (cases junk; simp)
  have big: "length body + 5 \<le> length out" if "closing b1 = []"
  proof -
    have "length bs mod 3 = 0" using e(5) that by simp
    then obtain q where q: "length bs = 3 * q" by auto
    have "(3 * q + 2) div 3 = q" "(3 * q + 3) div 3 = q + 1" by simp_all
    then show ?thesis
      using split that length_b64_text [of bs] assms(2) by (simp add: b64EncodeGetOutputSize_def q)
  qed
  have "b64EncodeBuffer (Some (b64Reset b)) (Some bs) (Some out) sz (Some 0) =
      Inr (if st b1 = START \<or> st b1 = ENCODE_A then 0 else BASE64_NEXT, Some b1, Some out1, Some (length body))"
    using e s1 assms(2,3) by (auto simp: b64EncodeBuffer_def b64EncodeGetOutputSize_def junk_def partial_def)
  moreover have "b64EncodeFinish (Some b1) (Some out1) sz (Some (length body)) False =
      Inr (0, Some (b1\<lparr>st := ENCODE_A\<rparr>), Some (body @ (closing b1 @ [NUL]) @ drop (length (closing b1 @ [NUL])) (NUL # tl junk)),
        Some (length (b64_text bs)))"
    using s2 big e(4) split room assms(3) by (auto simp: b64EncodeFinish_def closing_def encoding_def)
  ultimately show ?thesis unfolding e(3) [symmetric] by auto
qed

definition b64_0 :: b64 where
  "b64_0 = \<lparr>hold = 0, st = START\<rparr>"

lemma demo_text: "b64_text [72, 105, 33, 255] = ''SGkh/w==''"
  by (simp add: enc_def encodeSet_def PAD_def)

theorem b64Encode_text_witness:
  "\<exists>rc b1 out1 n1 b2 out2.
    b64EncodeBuffer (Some (b64Reset b64_0)) (Some [72, 105, 33, 255]) (Some (replicate 9 NUL)) 9 (Some 0)
      = Inr (rc, Some b1, Some out1, Some n1) \<and>
    b64EncodeFinish (Some b1) (Some out1) 9 (Some n1) False = Inr (0, Some b2, Some out2, Some (length ''SGkh/w=='')) \<and>
    take (length ''SGkh/w=='' + 1) out2 = ''SGkh/w=='' @ [NUL]"
  using b64Encode_text [of "[72, 105, 33, 255]" "replicate 9 NUL" 9 b64_0, unfolded demo_text]
  by (simp add: octet_def b64EncodeGetOutputSize_def)

text \<open>C29: The decoder reads the reference encoding back: for every non-empty sequence of octets and an
  output buffer with room for one more than the octets and their null, \<open>b64DecodeBuffer\<close> returns 0,
  the octets followed by a null, and their number.\<close>

theorem b64_roundtrip:
  assumes "list_all octet bs" "bs \<noteq> []" "length bs + 1 < sz" "sz \<le> length out"
  shows "\<exists>b' out'. b64DecodeBuffer (Some (b64Reset b)) (Some (b64_text bs)) (Some out) sz (Some 0) =
      Inr (0, Some b', Some out', Some (length bs)) \<and> take (length bs + 1) out' = bs @ [0]"
proof -
  have "length bs < sz - 1" using assms(3) by linarith
  then obtain b' where d: "decode_loop (b64_text bs) (sz - 1) (b64Reset b) out 0 =
      Inr (False, b', bs @ drop (length bs) out, length bs)" "st b' = DECODE_A \<or> st b' = STATE_EOF"
    using decode_loop_text [OF assms(1), of "b64Reset b" out "[]" "sz - 1"] assms(2-4) by (auto simp: b64Reset_def)
  obtain j js where "drop (length bs) out = j # js" using assms(3,4) by (cases "drop (length bs) out") auto
  then show ?thesis using d assms(3) by (auto simp: b64DecodeBuffer_def list_update_append)
qed

theorem b64_roundtrip_witness:
  "\<exists>b' out'. b64DecodeBuffer (Some (b64Reset b64_0)) (Some ''SGkh/w=='') (Some (replicate 8 7)) 8 (Some 0) =
      Inr (0, Some b', Some out', Some 4) \<and> take 5 out' = [72, 105, 33, 255, 0]"
  using b64_roundtrip [of "[72, 105, 33, 255]" 8 "replicate 8 7" b64_0, unfolded demo_text]
  by (simp add: octet_def numeral_eq_Suc)

lemma decode_loop_bounded:
  assumes "limit < length out" "olen \<le> limit"
  shows "\<exists>failed b' out' olen'. decode_loop cs limit b out olen = Inr (failed, b', out', olen') \<and>
    length out' = length out \<and> olen \<le> olen' \<and> olen' \<le> limit \<and> take olen out' = take olen out"
  using assms
proof (induction cs arbitrary: b out olen)
  case (Cons c cs)
  obtain x b1 where x: "b64Decode (schar c) b = (x, b1)" by fastforce
  show ?case
  proof (cases "olen < limit \<and> x \<noteq> BASE64_NEXT \<and> x \<noteq> BASE64_ERROR \<and> x \<noteq> BASE64_EOF")
    case True
    then have "decode_loop (c # cs) limit b out olen = decode_loop cs limit b1 (out[olen := uchar x]) (olen + 1)"
      using Cons.prems x by simp
    moreover obtain failed b' out' olen' where
      "decode_loop cs limit b1 (out[olen := uchar x]) (olen + 1) = Inr (failed, b', out', olen')"
      "length out' = length out" "olen + 1 \<le> olen'" "olen' \<le> limit"
      "take (olen + 1) out' = take (olen + 1) (out[olen := uchar x])"
      using Cons.IH [of "out[olen := uchar x]" "olen + 1" b1] True Cons.prems by auto
    moreover from this(5) have "take olen out' = take olen out"
      by (metis min.absorb1 le_add1 take_take take_update_cancel order_refl)
    ultimately show ?thesis by auto
  next
    case False
    then show ?thesis using Cons.IH [of out olen b1] Cons.prems x by auto
  qed
qed auto

text \<open>C31: Whatever the input, \<open>b64DecodeBuffer\<close> stays within an output buffer of \<open>out_size\<close> octets when
  the length passed in leaves room for a null: it keeps the octets already there and reports a length below
  \<open>out_size\<close>. Unless it returns the error it puts the null at that length; with the error it reports the
  length it was given and writes no null.\<close>

theorem b64DecodeBuffer_bounded:
  assumes "n < sz" "sz \<le> length out"
  shows "\<exists>rc b' out' n'. b64DecodeBuffer (Some b) input (Some out) sz (Some n) = Inr (rc, Some b', Some out', Some n') \<and>
    length out' = length out \<and> take n out' = take n out \<and> n \<le> n' \<and> n' < sz \<and>
    (if rc = BASE64_ERROR then n' = n else out' ! n' = 0)"
proof -
  let ?inp = "case input of None \<Rightarrow> [] | Some s \<Rightarrow> s"
  have "sz - 1 < length out" "n \<le> sz - 1" using assms by auto
  from decode_loop_bounded [OF this, of ?inp b] obtain failed b' out' n' where
    d: "decode_loop ?inp (sz - 1) b out n = Inr (failed, b', out', n')" "length out' = length out"
      "n \<le> n'" "n' \<le> sz - 1" "take n out' = take n out" by blast
  have "n' < length out'" using d(2,4) assms by linarith
  then show ?thesis using d assms
    by (cases failed) (auto simp: b64DecodeBuffer_def BASE64_ERROR_def BASE64_NEXT_def)
qed

theorem b64DecodeBuffer_bounded_witness:
  "\<exists>rc b' out' n'. b64DecodeBuffer (Some b64_0) (Some ''SGkh/w=='') (Some [1, 2, 3]) 3 (Some 1) =
      Inr (rc, Some b', Some out', Some n') \<and>
    length out' = 3 \<and> take 1 out' = [1] \<and> 1 \<le> n' \<and> n' < 3 \<and>
    (if rc = BASE64_ERROR then n' = 1 else out' ! n' = 0)"
  using b64DecodeBuffer_bounded [of 1 3 "[1, 2, 3]" b64_0 "Some ''SGkh/w==''"]
  by (simp add: numeral_3_eq_3)

text \<open>A padding character after the first digit of a quantum is an error, and the buffer is left without a null.\<close>

lemma b64DecodeBuffer_error_unterminated:
  "b64DecodeBuffer (Some (b64_0\<lparr>st := DECODE_B\<rparr>)) (Some [PAD]) (Some [1, 2, 3]) 3 (Some 0) =
   Inr (BASE64_ERROR, Some (b64_0\<lparr>st := DECODE_B\<rparr>), Some [1, 2, 3], Some 0)"
  by (simp add: b64DecodeBuffer_def b64Decode_def b64_0_def PAD_def schar_def ord_def b64_codes decode_value_def)

text \<open>Two of the checks of the encoder are too weak: \<open>b64EncodeBuffer\<close> does not look at \<open>out_size\<close> at
  all, and \<open>b64EncodeFinish\<close> with two digits missing writes four characters after testing for three.\<close>

theorem b64EncodeBuffer_overrun:
  "b64EncodeBuffer (Some b64_0) (Some [1, 2, 3]) (Some ''abcd'') 4 (Some 0) = Inl OutOfBounds"
  by (simp add: b64EncodeBuffer_def b64_0_def encode_step_def store_def)

theorem b64EncodeFinish_overrun:
  "b64EncodeFinish (Some \<lparr>hold = 0, st = ENCODE_B\<rparr>) (Some ''Abcd'') 4 (Some 1) False = Inl OutOfBounds"
  by (simp add: b64EncodeFinish_def store_def)

text \<open>The null octet is decoded as padding.\<close>

theorem b64Decode_null_is_padding: "b64Decode 0 b = b64Decode (int (ord PAD)) b"
proof -
  let ?f = "\<lambda>i. ord ((encodeSet @ [NUL]) ! i)"
  have "inj_on ?f {..<65}"
    using digits_distinct length_encodeSet by (auto simp: inj_on_def nth_eq_iff_index_eq)
  then have "foldl (\<lambda>t i. t[?f i := int i]) (replicate 256 BASE64_NEXT) [0..<65] ! ?f 64 = int 64"
    by (intro fold_table) auto
  then have "decodeSet ! 0 = 64" by (simp add: decodeSet_def b64Init_def nth_append length_encodeSet)
  then show ?thesis by (simp add: b64Decode_def PAD_def ord_def BASE64_NEXT_def)
qed

end
