(* ===== verification/ByteBuffers.thy ===== *)
theory ByteBuffers
  imports TextOps
begin

text \<open>
  The two growing byte buffers of the library: \<^verbatim>\<open>util/Buf.c\<close>, whose record is \<open>buf\<close>, and
  \<^verbatim>\<open>util/buffer.c\<close>, whose record is \<open>buffer\<close>. Bytes are characters. Every operation that may
  allocate takes the answer of the allocator: no memory, or the indeterminate content of the new bytes
  by index. \<open>mem\<close> has that role below. Operations that follow the pointer without a test take the
  record itself, the others an optional one.
\<close>

type_synonym memory = "(nat \<Rightarrow> char) option"

definition chars_from :: "(nat \<Rightarrow> char) \<Rightarrow> nat \<Rightarrow> nat \<Rightarrow> string" where
  "chars_from f i j = map f [i..<j]"

lemma length_chars_from [simp]: "length (chars_from f i j) = j - i"
  by (simp add: chars_from_def)

definition as_int :: "int \<Rightarrow> int" where
  "as_int x = (x + 2 ^ 31) mod 2 ^ 32 - 2 ^ 31"

text \<open>\<open>memcpy\<close> from another object into the array.\<close>

definition copy_in :: "string \<Rightarrow> nat \<Rightarrow> string \<Rightarrow> fault + string" where
  "copy_in dst i src =
     (if i + length src \<le> length dst then Inr (take i dst @ src @ drop (i + length src) dst) else Inl OutOfBounds)"

definition copy_out :: "string \<Rightarrow> nat \<Rightarrow> nat \<Rightarrow> fault + string" where
  "copy_out src i n = (if i + n \<le> length src then Inr (take n (drop i src)) else Inl OutOfBounds)"

text \<open>The C standard fixes only the sign of \<open>memcmp\<close>.\<close>

fun memcmp :: "string \<Rightarrow> string \<Rightarrow> int" where
  "memcmp (x # xs) (y # ys) =
     (if x = y then memcmp xs ys else if ord x < ord y then -1 else 1)"
| "memcmp _ _ = 0"

section \<open>Buf\<close>

datatype free_fn = FreeNone | FreeFini | FreeBuf

record buf =
  free :: free_fn
  bsize :: nat
  blength :: nat
  boffset :: nat
  bytes :: string

definition BUF_GROWTH :: nat where
  "BUF_GROWTH = 512"

definition bounds :: "buf \<Rightarrow> nat \<Rightarrow> nat \<Rightarrow> nat \<times> nat" where
  "bounds a offs n =
     (let offs = (if blength a < offs then blength a else offs);
          n = (if blength a < offs + n then blength a - offs else n)
      in (offs, n))"

definition BufBytes :: "buf \<Rightarrow> string" where
  "BufBytes a = bytes a"

definition BufSize :: "buf \<Rightarrow> nat" where
  "BufSize a = bsize a"

definition BufLength :: "buf \<Rightarrow> nat" where
  "BufLength a = blength a"

definition BufOffset :: "buf \<Rightarrow> nat" where
  "BufOffset a = boffset a"

definition BufSetOffset :: "buf \<Rightarrow> nat \<Rightarrow> buf" where
  "BufSetOffset a offs = a\<lparr>boffset := offs\<rparr>"

definition set_size :: "memory \<Rightarrow> nat \<Rightarrow> buf \<Rightarrow> int \<times> buf" where
  "set_size mem n a =
     (if bsize a < n then
        let capacity = (n div BUF_GROWTH + 1) * BUF_GROWTH
        in case mem of
             None \<Rightarrow> (-1, a)
           | Some new \<Rightarrow>
               (0, a\<lparr>bsize := capacity, bytes := bytes a @ chars_from new (bsize a) capacity\<rparr>)
      else (0, a))"

definition BufSetSize :: "memory \<Rightarrow> buf option \<Rightarrow> nat \<Rightarrow> int \<times> buf option" where
  "BufSetSize mem a n =
     (case a of None \<Rightarrow> (-1, None) | Some a \<Rightarrow> (let (rc, a) = set_size mem n a in (rc, Some a)))"

definition BufFini :: "buf option \<Rightarrow> buf option" where
  "BufFini a = map_option (\<lambda>a. a\<lparr>bytes := []\<rparr>) a"

definition BufInit :: "memory \<Rightarrow> buf option \<Rightarrow> nat \<Rightarrow> int \<times> buf option" where
  "BufInit mem a n =
     (case (a, mem) of
        (Some a, Some new) \<Rightarrow>
          (0, Some \<lparr>free = FreeFini, bsize = n, blength = 0, boffset = 0, bytes = chars_from new 0 n\<rparr>)
      | _ \<Rightarrow> (-1, a))"

text \<open>The structure itself is freed (\<open>None\<close>) only when \<open>BufCreate\<close> made it.\<close>

definition BufFree :: "buf option \<Rightarrow> buf option" where
  "BufFree a =
     (case BufFini a of None \<Rightarrow> None | Some a \<Rightarrow> if free a = FreeBuf then None else Some a)"

definition BufCreate :: "memory \<Rightarrow> memory \<Rightarrow> nat \<Rightarrow> buf option" where
  "BufCreate mem_struct mem n =
     (case mem_struct of
        None \<Rightarrow> None
      | Some _ \<Rightarrow>
          (case BufInit mem (Some \<lparr>free = FreeNone, bsize = 0, blength = 0, boffset = 0, bytes = []\<rparr>) n of
             (rc, Some a) \<Rightarrow> if rc \<noteq> 0 then None else Some (a\<lparr>free := FreeBuf\<rparr>)
           | (rc, None) \<Rightarrow> None))"

definition BufAsBytes :: "buf \<Rightarrow> string" where
  "BufAsBytes a = bytes a"

definition BufSetLength :: "memory \<Rightarrow> buf option \<Rightarrow> nat \<Rightarrow> fault + int \<times> buf option" where
  "BufSetLength mem a n =
     (case BufSetSize mem a (n + 1) of
        (rc, Some a) \<Rightarrow>
          if rc \<noteq> 0 then Inr (-1, Some a)
          else andthen (store (bytes a) n NUL) (\<lambda>b. Inr (0, Some (a\<lparr>bytes := b, blength := n\<rparr>)))
      | (rc, None) \<Rightarrow> Inr (-1, None))"

definition BufCompareBuf :: "buf option \<Rightarrow> nat \<Rightarrow> buf option \<Rightarrow> nat \<Rightarrow> nat \<Rightarrow> fault + int" where
  "BufCompareBuf aa ax bb bx n =
     (if n = 0 then Inr 0
      else case (aa, bb) of
        (None, None) \<Rightarrow> Inr 0
      | (None, Some _) \<Rightarrow> Inr (-1)
      | (Some _, None) \<Rightarrow> Inr 1
      | (Some a, Some b) \<Rightarrow>
          let ax = (if blength a < ax then blength a else ax);
              bx = (if blength b < bx then blength b else bx)
          in if blength a < ax + n \<and> bx + n \<le> blength b then Inr (-1)
             else if ax + n \<le> blength a \<and> blength b < bx + n then Inr 1
             else andthen (copy_out (bytes a) ax n) (\<lambda>x.
                  andthen (copy_out (bytes b) bx n) (\<lambda>y. Inr (memcmp x y))))"

definition BufCompare :: "buf \<Rightarrow> buf \<Rightarrow> fault + int" where
  "BufCompare aa bb =
     (if blength aa \<noteq> blength bb then Inr (as_int (int (blength aa) - int (blength bb)))
      else BufCompareBuf (Some aa) 0 (Some bb) 0 (blength aa))"

definition BufReverse :: "buf \<Rightarrow> nat \<Rightarrow> nat \<Rightarrow> buf" where
  "BufReverse a offs n =
     (let (offs, n) = bounds a offs n in a\<lparr>bytes := swap_loop offs (offs + n) (bytes a)\<rparr>)"

definition map_range :: "(char \<Rightarrow> char) \<Rightarrow> nat \<Rightarrow> nat \<Rightarrow> string \<Rightarrow> string" where
  "map_range f i n s = take i s @ map f (take n (drop i s)) @ drop (i + n) s"

definition BufToLower :: "buf \<Rightarrow> nat \<Rightarrow> nat \<Rightarrow> buf" where
  "BufToLower a offs n =
     (let (offs, n) = bounds a offs n
      in a\<lparr>bytes := map_range (\<lambda>c. if isupper c then tolower c else c) offs n (bytes a)\<rparr>)"

definition BufToUpper :: "buf \<Rightarrow> nat \<Rightarrow> nat \<Rightarrow> buf" where
  "BufToUpper a offs n =
     (let (offs, n) = bounds a offs n
      in a\<lparr>bytes := map_range (\<lambda>c. if islower c then toupper c else c) offs n (bytes a)\<rparr>)"

definition BufGetByte :: "buf \<Rightarrow> nat \<Rightarrow> int" where
  "BufGetByte a offs = (if blength a \<le> offs then -1 else int (ord (bytes a ! offs)))"

definition BufGetBytes :: "memory \<Rightarrow> buf \<Rightarrow> nat \<Rightarrow> nat \<Rightarrow> fault + string" where
  "BufGetBytes mem a offs n =
     (let (offs, n) = bounds a offs n
      in if mem = None then Inl OutOfBounds else copy_out (bytes a) offs n)"

definition BufToString :: "memory \<Rightarrow> buf \<Rightarrow> fault + string option" where
  "BufToString mem a =
     (if mem = None then Inr None
      else andthen (copy_out (bytes a) 0 (blength a)) (\<lambda>s. Inr (Some (s @ [NUL]))))"

definition uchar_of :: "int \<Rightarrow> char" where
  "uchar_of x = chr (nat (x mod 256))"

definition BufAddByte :: "memory \<Rightarrow> buf option \<Rightarrow> int \<Rightarrow> fault + int \<times> buf option" where
  "BufAddByte mem a byte =
     (case a of
        None \<Rightarrow> Inl OutOfBounds
      | Some a \<Rightarrow>
          (let (rc, a) = set_size mem (blength a + 2) a
           in if rc < 0 then Inr (-1, Some a)
              else andthen (store (bytes a) (blength a) (uchar_of byte)) (\<lambda>b.
                   andthen (store b (blength a + 1) NUL) (\<lambda>b.
                   Inr (0, Some (a\<lparr>bytes := b, blength := blength a + 1\<rparr>))))))"

definition add_bytes :: "memory \<Rightarrow> string \<Rightarrow> buf \<Rightarrow> fault + int \<times> buf" where
  "add_bytes mem src a =
     (if src = [] then Inr (0, a)
      else let (rc, a) = set_size mem (blength a + length src + 1) a
      in if rc < 0 then Inr (-1, a)
         else andthen (copy_in (bytes a) (blength a) src) (\<lambda>b.
              andthen (store b (blength a + length src) NUL) (\<lambda>b.
              Inr (0, a\<lparr>bytes := b, blength := blength a + length src\<rparr>))))"

definition BufAddBytes :: "memory \<Rightarrow> buf \<Rightarrow> string \<Rightarrow> nat \<Rightarrow> fault + int \<times> buf" where
  "BufAddBytes mem a src n = andthen (copy_out src 0 n) (\<lambda>s. add_bytes mem s a)"

definition BufAddString :: "memory \<Rightarrow> buf \<Rightarrow> string option \<Rightarrow> fault + int \<times> buf" where
  "BufAddString mem a s = (case s of None \<Rightarrow> Inr (0, a) | Some s \<Rightarrow> BufAddBytes mem a s (length s))"

definition BufAddBuf :: "memory \<Rightarrow> buf \<Rightarrow> buf \<Rightarrow> nat \<Rightarrow> nat \<Rightarrow> fault + int \<times> buf" where
  "BufAddBuf mem a b offs n =
     (let (offs, n) = bounds b offs n in BufAddBytes mem a (drop offs (bytes b)) n)"

definition BufSetByte :: "memory \<Rightarrow> buf \<Rightarrow> nat \<Rightarrow> int \<Rightarrow> fault + buf" where
  "BufSetByte mem a offs byte =
     (if blength a \<le> offs
      then andthen (BufAddByte mem (Some a) byte) (\<lambda>(rc, r). Inr (case r of None \<Rightarrow> a | Some a \<Rightarrow> a))
      else andthen (store (bytes a) offs (uchar_of byte)) (\<lambda>b. Inr (a\<lparr>bytes := b\<rparr>)))"

definition BufSetBytes :: "buf \<Rightarrow> nat \<Rightarrow> string \<Rightarrow> nat \<Rightarrow> nat \<Rightarrow> fault + buf" where
  "BufSetBytes a ax b bx n =
     (let (ax, n) = bounds a ax n
      in andthen (copy_out b bx n) (\<lambda>s.
         andthen (copy_in (bytes a) ax s) (\<lambda>r. Inr (a\<lparr>bytes := r\<rparr>))))"

definition BufInsertBytes :: "memory \<Rightarrow> buf \<Rightarrow> nat \<Rightarrow> string \<Rightarrow> nat \<Rightarrow> nat \<Rightarrow> fault + int \<times> buf" where
  "BufInsertBytes mem a target src source n =
     (if n = 0 then Inr (0, a)
      else let (rc, a) = set_size mem (blength a + n + 1) a
      in if rc < 0 then Inr (-1, a)
         else andthen (buf_memmove (bytes a) (int target + int n) (int target) (int (blength a) - int target)) (\<lambda>b.
              andthen (copy_out src source n) (\<lambda>s.
              andthen (copy_in b target s) (\<lambda>b.
              andthen (store b (blength a + n) NUL) (\<lambda>b.
              Inr (0, a\<lparr>bytes := b, blength := blength a + n\<rparr>))))))"

text \<open>The test of the base, \<open>base < 2 && 36 < base\<close>, never holds; the base is then converted to
  \<open>unsigned long\<close>.\<close>

definition buf_digits :: string where
  "buf_digits = ''0123456789ABCDEFGHIJKLMNOPQRSTUVWXYZ'' @ [NUL]"

function add_unsigned :: "memory \<Rightarrow> nat \<Rightarrow> nat \<Rightarrow> buf \<Rightarrow> fault + int \<times> buf" where
  "add_unsigned mem base value a =
     (if base = 0 then Inl DivByZero
      else
        let digit = value div base;
            last = (\<lambda>a. if value mod base < length buf_digits
                        then andthen (BufAddByte mem (Some a) (schar (buf_digits ! (value mod base)))) (\<lambda>(rc, r).
                             Inr (rc, case r of None \<Rightarrow> a | Some a \<Rightarrow> a))
                        else Inl OutOfBounds)
        in if 0 < digit then
             if digit < value then
               andthen (add_unsigned mem base digit a) (\<lambda>(rc, a). if rc \<noteq> 0 then Inr (-1, a) else last a)
             else Inl NoReturn
           else last a)"
  by pat_completeness auto
termination
  by (relation "measure (\<lambda>(mem, base, value, a). value)") auto

declare add_unsigned.simps [simp del]

definition BufAddUnsigned :: "memory \<Rightarrow> buf \<Rightarrow> nat \<Rightarrow> int \<Rightarrow> fault + int \<times> buf" where
  "BufAddUnsigned mem a value base =
     (if base < 2 \<and> 36 < base then Inr (-1, a) else add_unsigned mem (nat (base mod 2 ^ 64)) value a)"

definition BufAddSigned :: "memory \<Rightarrow> buf \<Rightarrow> int \<Rightarrow> int \<Rightarrow> fault + int \<times> buf" where
  "BufAddSigned mem a value base =
     (if base = 10 \<and> value < 0
      then andthen (BufAddByte mem (Some a) (schar CHR ''-'')) (\<lambda>(rc, r).
           BufAddUnsigned mem (case r of None \<Rightarrow> a | Some a \<Rightarrow> a) (nat (- value mod 2 ^ 64)) base)
      else BufAddUnsigned mem a (nat (value mod 2 ^ 64)) base)"

text \<open>\<open>BufTrim\<close> reads the byte before the first one when only white space is left.\<close>

fun trim_loop :: "string \<Rightarrow> nat \<Rightarrow> fault + nat" where
  "trim_loop s 0 = Inl OutOfBounds"
| "trim_loop s (Suc n) = (if isspace (s ! n) then trim_loop s n else Inr (Suc n))"

definition BufTrim :: "buf \<Rightarrow> fault + buf" where
  "BufTrim a =
     andthen (trim_loop (bytes a) (blength a)) (\<lambda>n.
     andthen (store (bytes a) n NUL) (\<lambda>b. Inr (a\<lparr>bytes := b, blength := n\<rparr>)))"

text \<open>The stream is the list of the bytes left to read; the result is what is left after it.\<close>

fun input_loop :: "memory \<Rightarrow> nat \<Rightarrow> nat \<Rightarrow> string \<Rightarrow> buf \<Rightarrow> fault + bool \<times> string \<times> buf" where
  "input_loop mem start limit [] a = Inr (blength a - start < limit \<and> start = blength a, [], a)"
| "input_loop mem start limit (c # fp) a =
     (if blength a - start < limit then
        andthen (BufAddByte mem (Some a) (int (ord c))) (\<lambda>(rc, r).
          let a = (case r of None \<Rightarrow> a | Some a \<Rightarrow> a)
          in if ord c = 10 then Inr (False, fp, a) else input_loop mem start limit fp a)
      else Inr (False, c # fp, a))"

definition BufAddInputLine :: "memory \<Rightarrow> buf \<Rightarrow> string \<Rightarrow> int \<Rightarrow> fault + int \<times> string \<times> buf" where
  "BufAddInputLine mem a fp limit =
     (let start = blength a; limit = (if limit < 0 then LONG_MAX else limit)
      in andthen (input_loop mem start (nat limit) fp a) (\<lambda>(eof, fp, a).
         if eof then Inr (-1, fp, a)
         else andthen (store (bytes a) (blength a) NUL) (\<lambda>b.
              Inr (as_int (int (blength a) - int start), fp, a\<lparr>bytes := b\<rparr>))))"

section \<open>Buffer\<close>

record buffer =
  fsize :: nat
  flength :: nat
  fdata :: string

definition BUFFER_GROWTH :: nat where
  "BUFFER_GROWTH = 128"

definition buffer_create :: "memory \<Rightarrow> memory \<Rightarrow> nat \<Rightarrow> fault + buffer option" where
  "buffer_create mem_struct mem n =
     (case (mem_struct, mem) of
        (Some _, Some new) \<Rightarrow>
          andthen (store (chars_from new 0 n) 0 NUL) (\<lambda>d.
          Inr (Some \<lparr>fsize = n, flength = 0, fdata = d\<rparr>))
      | _ \<Rightarrow> Inr None)"

definition buffer_free :: "buffer option \<Rightarrow> buffer option" where
  "buffer_free b = None"

definition buffer_grow :: "memory \<Rightarrow> buffer option \<Rightarrow> nat \<Rightarrow> int \<times> buffer option" where
  "buffer_grow mem b request =
     (case b of
        None \<Rightarrow> (-1, None)
      | Some b \<Rightarrow>
          if fsize b \<le> flength b + request + 1 then
            case mem of
              None \<Rightarrow> (-1, Some b)
            | Some new \<Rightarrow>
                let n = fsize b + request + BUFFER_GROWTH
                in (0, Some (b\<lparr>fsize := n, fdata := fdata b @ chars_from new (fsize b) n\<rparr>))
          else (0, Some b))"

text \<open>\<open>grown\<close> is the common start of the writers: the test of the source and the growth.\<close>

definition grown :: "memory \<Rightarrow> buffer option \<Rightarrow> string option \<Rightarrow> nat
    \<Rightarrow> (buffer \<Rightarrow> string \<Rightarrow> fault + int \<times> buffer option) \<Rightarrow> fault + int \<times> buffer option" where
  "grown mem b s n f =
     (case s of
        None \<Rightarrow> Inr (-1, b)
      | Some s \<Rightarrow>
          (case buffer_grow mem b n of
             (rc, Some b) \<Rightarrow> if rc \<noteq> 0 then Inr (-1, Some b) else andthen (copy_out s 0 n) (f b)
           | (rc, None) \<Rightarrow> Inr (-1, None)))"

definition buffer_append :: "memory \<Rightarrow> buffer option \<Rightarrow> string option \<Rightarrow> nat \<Rightarrow> fault + int \<times> buffer option" where
  "buffer_append mem b s n =
     grown mem b s n (\<lambda>b s.
       andthen (copy_in (fdata b) (flength b) s) (\<lambda>d.
       andthen (store d (flength b + n) NUL) (\<lambda>d.
       Inr (0, Some (b\<lparr>fdata := d, flength := flength b + n\<rparr>)))))"

definition buffer_insert ::
    "memory \<Rightarrow> buffer option \<Rightarrow> string option \<Rightarrow> nat \<Rightarrow> nat \<Rightarrow> fault + int \<times> buffer option" where
  "buffer_insert mem b s n offs =
     grown mem b s n (\<lambda>b s.
       andthen (buf_memmove (fdata b) (int offs + int n) (int offs) (int (flength b) - int offs)) (\<lambda>d.
       andthen (copy_in d offs s) (\<lambda>d.
       andthen (store d (flength b + n) NUL) (\<lambda>d.
       Inr (0, Some (b\<lparr>fdata := d, flength := flength b + n\<rparr>))))))"

definition buffer_delete :: "buffer option \<Rightarrow> nat \<Rightarrow> nat \<Rightarrow> fault + int \<times> buffer option" where
  "buffer_delete b offs n =
     (case b of
        None \<Rightarrow> Inr (-1, None)
      | Some b \<Rightarrow>
          andthen (if flength b \<le> offs + n then Inr (fdata b, 0)
                   else andthen (buf_memmove (fdata b) (int offs) (int offs + int n)
                                   (int (flength b) - int offs - int n)) (\<lambda>d.
                        Inr (d, flength b - n))) (\<lambda>(d, m).
          andthen (store d m NUL) (\<lambda>d. Inr (0, Some (b\<lparr>fdata := d, flength := m\<rparr>)))))"

text \<open>\<open>str\<close> is the text that \<open>vsnprintf\<close> formats; the model leaves its failure out.\<close>

definition buffer_vprintf :: "memory \<Rightarrow> buffer option \<Rightarrow> string \<Rightarrow> fault + int \<times> buffer option" where
  "buffer_vprintf mem b str =
     (case b of
        None \<Rightarrow> Inr (-1, None)
      | Some b \<Rightarrow>
          let n = length str;
              print = (\<lambda>b. b\<lparr>fdata := snprintf_at (fdata b) (flength b) (fsize b - flength b) str\<rparr>);
              b1 = print b
          in if fsize b1 \<le> flength b1 + n then
               (case buffer_grow mem (Some b1) n of
                  (rc, Some b2) \<Rightarrow>
                    if rc \<noteq> 0 then Inr (-1, Some b2)
                    else let b3 = print b2 in Inr (0, Some (b3\<lparr>flength := flength b3 + n\<rparr>))
                | (rc, None) \<Rightarrow> Inr (-1, None))
             else Inr (0, Some (b1\<lparr>flength := flength b1 + n\<rparr>)))"

definition buffer_printf :: "memory \<Rightarrow> buffer option \<Rightarrow> string \<Rightarrow> fault + int \<times> buffer option" where
  "buffer_printf mem b str = buffer_vprintf mem b str"

section \<open>Invariants\<close>

definition buf_ok :: "buf \<Rightarrow> bool" where
  "buf_ok a \<longleftrightarrow> length (bytes a) = bsize a \<and> blength a \<le> bsize a"

definition buf_data :: "buf \<Rightarrow> string" where
  "buf_data a = take (blength a) (bytes a)"

text \<open>The data is followed by a null.\<close>

definition buf_cstr :: "buf \<Rightarrow> bool" where
  "buf_cstr a \<longleftrightarrow> blength a < bsize a \<and> bytes a ! blength a = NUL"

definition buffer_ok :: "buffer \<Rightarrow> bool" where
  "buffer_ok b \<longleftrightarrow> length (fdata b) = fsize b \<and> flength b < fsize b \<and> fdata b ! flength b = NUL"

definition buffer_data :: "buffer \<Rightarrow> string" where
  "buffer_data b = take (flength b) (fdata b)"

text \<open>The bytes as the data and the rest.\<close>

lemma buf_rep: "buf_ok a \<and> buf_data a = d \<longleftrightarrow>
  (\<exists>junk. bytes a = d @ junk \<and> blength a = length d \<and> bsize a = length d + length junk)"
proof
  assume a: "buf_ok a \<and> buf_data a = d"
  then have "bytes a = d @ drop (blength a) (bytes a)" "length d = blength a"
    by (auto simp: buf_ok_def buf_data_def)
  then show "\<exists>junk. bytes a = d @ junk \<and> blength a = length d \<and> bsize a = length d + length junk"
    using a by (intro exI [of _ "drop (blength a) (bytes a)"]) (auto simp: buf_ok_def)
qed (auto simp: buf_ok_def buf_data_def)

lemma buf_repE:
  assumes "buf_ok a" "blength a + n \<le> bsize a"
  obtains junk where "bytes a = buf_data a @ junk" "n \<le> length junk" "blength a = length (buf_data a)"
    "bsize a = length (buf_data a) + length junk"
  using buf_rep [of a "buf_data a"] assms by auto

lemma buf_repI:
  "bytes a = d @ NUL # junk \<Longrightarrow> blength a = length d \<Longrightarrow> bsize a = length d + length junk + 1 \<Longrightarrow>
   buf_ok a \<and> buf_cstr a \<and> buf_data a = d"
  by (auto simp: buf_ok_def buf_cstr_def buf_data_def)

lemma set_size_ok:
  assumes "buf_ok a"
  shows "\<exists>a'. set_size (Some new) n a = (0, a') \<and> buf_ok a' \<and> n \<le> bsize a' \<and> blength a' = blength a \<and>
    buf_data a' = buf_data a"
proof (cases "bsize a < n")
  case True
  define cap where "cap = (n div BUF_GROWTH + 1) * BUF_GROWTH"
  have "n \<le> cap"
    using dividend_less_div_times [of BUF_GROWTH n] by (simp add: cap_def BUF_GROWTH_def)
  moreover have "set_size (Some new) n a = (0, a\<lparr>bsize := cap, bytes := bytes a @ chars_from new (bsize a) cap\<rparr>)"
    using True by (simp add: set_size_def cap_def Let_def)
  ultimately show ?thesis using assms True by (simp add: buf_ok_def buf_data_def)
next
  case False
  then show ?thesis using assms by (simp add: set_size_def)
qed

text \<open>Room for \<open>n\<close> more bytes and a null.\<close>

lemma set_size_room:
  assumes "buf_ok a"
  obtains a1 j1 y j2 where "set_size (Some new) (blength a + n + 1) a = (0, a1)"
    "bytes a1 = buf_data a @ j1 @ y # j2" "length j1 = n" "blength a1 = length (buf_data a)"
    "bsize a1 = length (buf_data a) + n + 1 + length j2" "blength a = length (buf_data a)"
proof -
  obtain a1 where a1: "set_size (Some new) (blength a + n + 1) a = (0, a1)" "buf_ok a1"
      "blength a + n + 1 \<le> bsize a1" "blength a1 = blength a" "buf_data a1 = buf_data a"
    using set_size_ok [OF assms] by blast
  have "blength a1 + (n + 1) \<le> bsize a1" using a1(3,4) by linarith
  from buf_repE [OF a1(2) this] obtain junk where j: "bytes a1 = buf_data a1 @ junk" "n + 1 \<le> length junk"
    "blength a1 = length (buf_data a1)" "bsize a1 = length (buf_data a1) + length junk" .
  define j1 where "j1 = take n junk"
  obtain y j2 where "drop n junk = y # j2" using j(2) by (cases "drop n junk") auto
  then have "junk = j1 @ y # j2" "length j1 = n" using j(2) unfolding j1_def by (metis append_take_drop_id, simp)
  then show ?thesis using that [OF a1(1), of j1 y j2] a1 j by simp
qed

lemma copy_in_append: "length j1 = length src \<Longrightarrow> copy_in (d @ j1 @ r) (length d) src = Inr (d @ src @ r)"
  by (simp add: copy_in_def)

lemma store_mid: "n = length d \<Longrightarrow> store (d @ y # r) n x = Inr (d @ x # r)"
  by (simp add: list_update_append)

lemma add_bytes_ok:
  assumes "buf_ok a" "src \<noteq> []"
  shows "\<exists>a'. add_bytes (Some new) src a = Inr (0, a') \<and> buf_ok a' \<and> buf_cstr a' \<and> buf_data a' = buf_data a @ src"
proof -
  from set_size_room [OF assms(1), of new "length src"] obtain a1 j1 y j2 where
    a1: "set_size (Some new) (blength a + length src + 1) a = (0, a1)"
    "bytes a1 = buf_data a @ j1 @ y # j2" "length j1 = length src" "blength a1 = length (buf_data a)"
    "bsize a1 = length (buf_data a) + length src + 1 + length j2" "blength a = length (buf_data a)" .
  have "add_bytes (Some new) src a =
      Inr (0, a1\<lparr>bytes := (buf_data a @ src) @ NUL # j2, blength := blength a1 + length src\<rparr>)"
    using a1 assms(2) copy_in_append [OF a1(3), of "buf_data a" "y # j2"]
      store_mid [of "length (buf_data a) + length src" "buf_data a @ src" y j2 NUL]
    by (simp add: add_bytes_def)
  moreover have "buf_ok a' \<and> buf_cstr a' \<and> buf_data a' = buf_data a @ src"
    if "a' = a1\<lparr>bytes := (buf_data a @ src) @ NUL # j2, blength := blength a1 + length src\<rparr>" for a'
    using a1(4,5) unfolding that by (intro buf_repI) simp_all
  ultimately show ?thesis by blast
qed

lemma add_byte_ok:
  assumes "buf_ok a"
  shows "\<exists>a'. BufAddByte (Some new) (Some a) x = Inr (0, Some a') \<and> buf_ok a' \<and> buf_cstr a' \<and>
    buf_data a' = buf_data a @ [uchar_of x]"
proof -
  from set_size_room [OF assms, of new 1] obtain a1 j1 y j2 where
    a1: "set_size (Some new) (blength a + 1 + 1) a = (0, a1)"
    "bytes a1 = buf_data a @ j1 @ y # j2" "length j1 = 1" "blength a1 = length (buf_data a)"
    "bsize a1 = length (buf_data a) + 1 + 1 + length j2" "blength a = length (buf_data a)" .
  obtain z where z: "j1 = [z]" using a1(3) by (cases j1) auto
  have "BufAddByte (Some new) (Some a) x =
      Inr (0, Some (a1\<lparr>bytes := (buf_data a @ [uchar_of x]) @ NUL # j2, blength := blength a1 + 1\<rparr>))"
    using a1 z by (simp add: BufAddByte_def list_update_append)
  moreover have "buf_ok a' \<and> buf_cstr a' \<and> buf_data a' = buf_data a @ [uchar_of x]"
    if "a' = a1\<lparr>bytes := (buf_data a @ [uchar_of x]) @ NUL # j2, blength := blength a1 + 1\<rparr>" for a'
    using a1(4,5) unfolding that by (intro buf_repI) simp_all
  ultimately show ?thesis by blast
qed

text \<open>\<open>memmove\<close> opens a gap.\<close>

lemma memmove_gap:
  assumes "length g = n" "i = int (length d1)" "k = int (length d2)"
  shows "\<exists>h. buf_memmove (d1 @ d2 @ g @ r) (i + int n) i k = Inr (d1 @ h @ d2 @ r) \<and> length h = n"
  using assms
  by (intro exI [of _ "take n (d2 @ g)"]) (auto simp: buf_memmove_def nat_add_distrib drop_append take_append)

lemma insert_bytes_ok:
  assumes "buf_ok a" "src \<noteq> []" "i \<le> blength a" 
  shows "\<exists>a'. BufInsertBytes (Some new) a i src 0 (length src) = Inr (0, a') \<and> buf_ok a' \<and> buf_cstr a' \<and>
    buf_data a' = take i (buf_data a) @ src @ drop i (buf_data a)"
proof -
  from set_size_room [OF assms(1), of new "length src"] obtain a1 j1 y j2 where
    a1: "set_size (Some new) (blength a + length src + 1) a = (0, a1)"
    "bytes a1 = buf_data a @ j1 @ y # j2" "length j1 = length src" "blength a1 = length (buf_data a)"
    "bsize a1 = length (buf_data a) + length src + 1 + length j2" "blength a = length (buf_data a)" .
  define d1 d2 where d: "d1 = take i (buf_data a)" "d2 = drop i (buf_data a)"
  have i: "int i = int (length d1)" "length (buf_data a) = length d1 + length d2"
    "buf_data a = d1 @ d2" using assms(3) a1(6) by (auto simp: d)
  obtain h where h: "buf_memmove (d1 @ d2 @ j1 @ y # j2) (int i + int (length src)) (int i) (int (length d2)) =
      Inr (d1 @ h @ d2 @ y # j2)" "length h = length src"
    using memmove_gap [OF a1(3) i(1) refl, of d2 "y # j2"] by blast
  have "BufInsertBytes (Some new) a i src 0 (length src) =
      Inr (0, a1\<lparr>bytes := (d1 @ src @ d2) @ NUL # j2, blength := blength a1 + length src\<rparr>)"
    using a1 assms(2) h i copy_in_append [OF h(2), of d1 "d2 @ y # j2"]
      store_mid [of "length d1 + length d2 + length src" "d1 @ src @ d2" y j2 NUL]
    by (simp add: BufInsertBytes_def copy_out_def)
  moreover have "buf_ok a' \<and> buf_cstr a' \<and> buf_data a' = d1 @ src @ d2"
    if "a' = a1\<lparr>bytes := (d1 @ src @ d2) @ NUL # j2, blength := blength a1 + length src\<rparr>" for a'
    using a1(4,5) i unfolding that by (intro buf_repI) simp_all
  ultimately show ?thesis unfolding d by blast
qed

lemma buffer_rep: "buffer_ok b \<and> buffer_data b = d \<longleftrightarrow>
  (\<exists>r. fdata b = d @ NUL # r \<and> flength b = length d \<and> fsize b = length d + 1 + length r)"
proof
  assume a: "buffer_ok b \<and> buffer_data b = d"
  then have "fdata b = d @ drop (flength b) (fdata b)" "length d = flength b"
    by (auto simp: buffer_ok_def buffer_data_def)
  moreover have "drop (flength b) (fdata b) = NUL # drop (flength b + 1) (fdata b)"
    using a by (simp add: buffer_ok_def Cons_nth_drop_Suc [symmetric])
  ultimately show "\<exists>r. fdata b = d @ NUL # r \<and> flength b = length d \<and> fsize b = length d + 1 + length r"
    using a by (intro exI [of _ "drop (flength b + 1) (fdata b)"]) (auto simp: buffer_ok_def)
qed (auto simp: buffer_ok_def buffer_data_def)

lemma buffer_repI:
  "fdata b = d @ NUL # r \<Longrightarrow> flength b = length d \<Longrightarrow> fsize b = length d + length r + 1 \<Longrightarrow>
   buffer_ok b \<and> buffer_data b = d"
  unfolding buffer_rep by auto

lemma buffer_grow_room:
  assumes "buffer_ok b"
  obtains b1 j1 y j2 where "buffer_grow (Some new) (Some b) n = (0, Some b1)"
    "fdata b1 = buffer_data b @ j1 @ y # j2" "length j1 = n" "flength b1 = length (buffer_data b)"
    "fsize b1 = length (buffer_data b) + n + 1 + length j2" "flength b = length (buffer_data b)"
proof -
  obtain r where r: "fdata b = buffer_data b @ NUL # r" "flength b = length (buffer_data b)"
    "fsize b = length (buffer_data b) + 1 + length r" using buffer_rep [of b "buffer_data b"] assms by auto
  obtain b1 junk where b1: "buffer_grow (Some new) (Some b) n = (0, Some b1)" "fdata b1 = buffer_data b @ junk"
    "n + 1 \<le> length junk" "flength b1 = flength b" "fsize b1 = length (buffer_data b) + length junk"
  proof (cases "fsize b \<le> flength b + n + 1")
    case True
    let ?k = "fsize b + n + BUFFER_GROWTH"
    show ?thesis
      using True r by (intro that [of "b\<lparr>fsize := ?k, fdata := fdata b @ chars_from new (fsize b) ?k\<rparr>"
        "NUL # r @ chars_from new (fsize b) ?k"]) (simp_all add: buffer_grow_def Let_def BUFFER_GROWTH_def)
  next
    case False
    then show ?thesis using r by (intro that [of b "NUL # r"]) (simp_all add: buffer_grow_def)
  qed
  define j1 where "j1 = take n junk"
  obtain y j2 where "drop n junk = y # j2" using b1(3) by (cases "drop n junk") auto
  then have "junk = j1 @ y # j2" "length j1 = n" using b1(3) unfolding j1_def by (metis append_take_drop_id, simp)
  then show ?thesis using that [OF b1(1), of j1 y j2] b1 r by simp
qed

lemma grown_ok: "buffer_grow mem b (length s) = (0, Some b1) \<Longrightarrow> grown mem b (Some s) (length s) f = f b1 s"
  by (simp add: grown_def copy_out_def)

lemma buffer_append_ok:
  assumes "buffer_ok b"
  shows "\<exists>b'. buffer_append (Some new) (Some b) (Some s) (length s) = Inr (0, Some b') \<and> buffer_ok b' \<and>
    buffer_data b' = buffer_data b @ s"
proof -
  from buffer_grow_room [OF assms, of new "length s"] obtain b1 j1 y j2 where
    b1: "buffer_grow (Some new) (Some b) (length s) = (0, Some b1)"
    "fdata b1 = buffer_data b @ j1 @ y # j2" "length j1 = length s" "flength b1 = length (buffer_data b)"
    "fsize b1 = length (buffer_data b) + length s + 1 + length j2" "flength b = length (buffer_data b)" .
  have "buffer_append (Some new) (Some b) (Some s) (length s) =
      Inr (0, Some (b1\<lparr>fdata := (buffer_data b @ s) @ NUL # j2, flength := flength b1 + length s\<rparr>))"
    using b1 copy_in_append [OF b1(3), of "buffer_data b" "y # j2"]
      store_mid [of "length (buffer_data b) + length s" "buffer_data b @ s" y j2 NUL]
    by (simp add: buffer_append_def grown_ok)
  moreover have "buffer_ok b' \<and> buffer_data b' = buffer_data b @ s"
    if "b' = b1\<lparr>fdata := (buffer_data b @ s) @ NUL # j2, flength := flength b1 + length s\<rparr>" for b'
    using b1(4,5) unfolding that by (intro buffer_repI) simp_all
  ultimately show ?thesis by blast
qed

lemma buffer_insert_ok:
  assumes "buffer_ok b" "i \<le> flength b"
  shows "\<exists>b'. buffer_insert (Some new) (Some b) (Some s) (length s) i = Inr (0, Some b') \<and> buffer_ok b' \<and>
    buffer_data b' = take i (buffer_data b) @ s @ drop i (buffer_data b)"
proof -
  from buffer_grow_room [OF assms(1), of new "length s"] obtain b1 j1 y j2 where
    b1: "buffer_grow (Some new) (Some b) (length s) = (0, Some b1)"
    "fdata b1 = buffer_data b @ j1 @ y # j2" "length j1 = length s" "flength b1 = length (buffer_data b)"
    "fsize b1 = length (buffer_data b) + length s + 1 + length j2" "flength b = length (buffer_data b)" .
  define d1 d2 where d: "d1 = take i (buffer_data b)" "d2 = drop i (buffer_data b)"
  have i: "int i = int (length d1)" "length (buffer_data b) = length d1 + length d2"
    "buffer_data b = d1 @ d2" using assms(2) b1(6) by (auto simp: d)
  obtain h where h: "buf_memmove (d1 @ d2 @ j1 @ y # j2) (int i + int (length s)) (int i) (int (length d2)) =
      Inr (d1 @ h @ d2 @ y # j2)" "length h = length s"
    using memmove_gap [OF b1(3) i(1) refl, of d2 "y # j2"] by blast
  have "buffer_insert (Some new) (Some b) (Some s) (length s) i =
      Inr (0, Some (b1\<lparr>fdata := (d1 @ s @ d2) @ NUL # j2, flength := flength b1 + length s\<rparr>))"
    using b1 h i copy_in_append [OF h(2), of d1 "d2 @ y # j2"]
      store_mid [of "length d1 + length d2 + length s" "d1 @ s @ d2" y j2 NUL]
    by (simp add: buffer_insert_def grown_ok)
  moreover have "buffer_ok b' \<and> buffer_data b' = d1 @ s @ d2"
    if "b' = b1\<lparr>fdata := (d1 @ s @ d2) @ NUL # j2, flength := flength b1 + length s\<rparr>" for b'
    using b1(4,5) i unfolding that by (intro buffer_repI) simp_all
  ultimately show ?thesis unfolding d by blast
qed

section \<open>The interface of a growing buffer\<close>

locale byte_buffer =
  fixes ok :: "'b \<Rightarrow> bool"
    and dat :: "'b \<Rightarrow> string"
    and app :: "'b \<Rightarrow> string \<Rightarrow> 'b option"
    and ins :: "'b \<Rightarrow> nat \<Rightarrow> string \<Rightarrow> 'b option"
  assumes app_ok: "ok b \<Longrightarrow> s \<noteq> [] \<Longrightarrow> \<exists>b'. app b s = Some b' \<and> ok b' \<and> dat b' = dat b @ s"
    and ins_ok: "ok b \<Longrightarrow> s \<noteq> [] \<Longrightarrow> i \<le> length (dat b) \<Longrightarrow>
      \<exists>b'. ins b i s = Some b' \<and> ok b' \<and> dat b' = take i (dat b) @ s @ drop i (dat b)"
begin

fun app_all :: "'b \<Rightarrow> string list \<Rightarrow> 'b option" where
  "app_all b [] = Some b"
| "app_all b (s # ss) = (case app b s of None \<Rightarrow> None | Some b \<Rightarrow> app_all b ss)"

lemma app_all_ok:
  "ok b \<Longrightarrow> list_all (\<lambda>s. s \<noteq> []) ss \<Longrightarrow> \<exists>b'. app_all b ss = Some b' \<and> ok b' \<and> dat b' = dat b @ concat ss"
proof (induction ss arbitrary: b)
  case (Cons s ss)
  obtain b1 where b1: "app b s = Some b1" "ok b1" "dat b1 = dat b @ s" using app_ok [of b s] Cons.prems by auto
  then show ?case using Cons.IH [of b1] Cons.prems by simp
qed simp

text \<open>Writing the pieces from the last to the first, each in front.\<close>

fun prepend_all :: "'b \<Rightarrow> string list \<Rightarrow> 'b option" where
  "prepend_all b [] = Some b"
| "prepend_all b (s # ss) = (case prepend_all b ss of None \<Rightarrow> None | Some b \<Rightarrow> ins b 0 s)"

lemma prepend_all_ok:
  "ok b \<Longrightarrow> list_all (\<lambda>s. s \<noteq> []) ss \<Longrightarrow> \<exists>b'. prepend_all b ss = Some b' \<and> ok b' \<and> dat b' = concat ss @ dat b"
proof (induction ss)
  case (Cons s ss)
  then obtain b1 where b1: "prepend_all b ss = Some b1" "ok b1" "dat b1 = concat ss @ dat b" by auto
  then show ?case using ins_ok [of b1 s 0] Cons.prems by auto
qed simp

lemma append_or_prepend:
  assumes "ok b" "list_all (\<lambda>s. s \<noteq> []) ss" "dat b = []"
  shows "map_option dat (app_all b ss) = map_option dat (prepend_all b ss)"
  using app_all_ok [OF assms(1,2)] prepend_all_ok [OF assms(1,2)] assms(3) by auto

end

definition buf_app :: "buf \<Rightarrow> string \<Rightarrow> buf option" where
  "buf_app a s =
     (case BufAddBytes (Some (\<lambda>_. NUL)) a s (length s) of Inr (rc, a) \<Rightarrow> if rc = 0 then Some a else None | Inl _ \<Rightarrow> None)"

definition buf_ins :: "buf \<Rightarrow> nat \<Rightarrow> string \<Rightarrow> buf option" where
  "buf_ins a i s =
     (case BufInsertBytes (Some (\<lambda>_. NUL)) a i s 0 (length s) of
        Inr (rc, a) \<Rightarrow> if rc = 0 then Some a else None | Inl _ \<Rightarrow> None)"

definition buffer_app :: "buffer \<Rightarrow> string \<Rightarrow> buffer option" where
  "buffer_app b s =
     (case buffer_append (Some (\<lambda>_. NUL)) (Some b) (Some s) (length s) of
        Inr (rc, b) \<Rightarrow> if rc = 0 then b else None | Inl _ \<Rightarrow> None)"

definition buffer_ins :: "buffer \<Rightarrow> nat \<Rightarrow> string \<Rightarrow> buffer option" where
  "buffer_ins b i s =
     (case buffer_insert (Some (\<lambda>_. NUL)) (Some b) (Some s) (length s) i of
        Inr (rc, b) \<Rightarrow> if rc = 0 then b else None | Inl _ \<Rightarrow> None)"

interpretation buf: byte_buffer buf_ok buf_data buf_app buf_ins
proof (unfold_locales, goal_cases)
  case (1 b s)
  then show ?case using add_bytes_ok [of b s "\<lambda>_. NUL"]
    by (auto simp: buf_app_def BufAddBytes_def copy_out_def)
next
  case (2 b s i)
  then have "i \<le> blength b" by (simp add: buf_data_def)
  then show ?case using insert_bytes_ok [of b s i "\<lambda>_. NUL"] 2 by (auto simp: buf_ins_def)
qed

interpretation buffer: byte_buffer buffer_ok buffer_data buffer_app buffer_ins
proof (unfold_locales, goal_cases)
  case (1 b s)
  then show ?case using buffer_append_ok [of b "\<lambda>_. NUL" s] by (auto simp: buffer_app_def)
next
  case (2 b s i)
  then have "i \<le> flength b" by (simp add: buffer_data_def)
  then show ?case using buffer_insert_ok [of b i "\<lambda>_. NUL" s] 2 by (auto simp: buffer_ins_def)
qed

section \<open>Numbers, comparison, trimming\<close>

lemma uchar_schar [simp]: "uchar_of (schar c) = c"
proof -
  have "(int (ord c) - 256) mod 256 = int (ord c)" if "\<not> ord c < 128"
    using that minus_mod_self2 [of "int (ord c)" 256] ord_less_256 [of c] by simp
  then show ?thesis using ord_less_256 [of c] by (auto simp: uchar_of_def schar_def)
qed

lemma buf_digit: "d < 36 \<Longrightarrow> digit_value (buf_digits ! d) = d \<and> d < length buf_digits"
proof -
  have "list_all (\<lambda>d. digit_value (buf_digits ! d) = d) [0..<36]"
    by (simp add: buf_digits_def digit_value_def isdigit_def isupper_def ord_def upt_rec [of _ "36"])
  then show "d < 36 \<Longrightarrow> digit_value (buf_digits ! d) = d \<and> d < length buf_digits"
    by (simp add: list_all_iff buf_digits_def)
qed

lemma digits_value_snoc: "digits_value b (ds @ [c]) = digits_value b ds * b + digit_value c"
  by (simp add: digits_value_def)

lemma add_unsigned_ok:
  assumes "buf_ok a" "2 \<le> b" "b \<le> 36"
  shows "\<exists>a' ds. add_unsigned (Some new) b v a = Inr (0, a') \<and> buf_ok a' \<and> buf_cstr a' \<and>
    buf_data a' = buf_data a @ ds \<and> digits_value b ds = v \<and> list_all (is_base_digit b) ds"
  using assms(1)
proof (induction v arbitrary: a rule: less_induct)
  case (less v)
  have d: "v mod b < 36" "v mod b < b" using assms(2,3) by (auto intro: less_le_trans [of _ b])
  note dig = buf_digit [OF d(1)]
  let ?c = "buf_digits ! (v mod b)"
  show ?case
  proof (cases "v div b = 0")
    case True
    obtain a' where "BufAddByte (Some new) (Some a) (schar ?c) = Inr (0, Some a')" "buf_ok a'" "buf_cstr a'"
      "buf_data a' = buf_data a @ [?c]" using add_byte_ok [OF less.prems, of new "schar ?c"] by auto
    then show ?thesis using assms(2,3) True dig d(2)
      by (subst add_unsigned.simps) (auto simp: digits_value_def is_base_digit_def div_eq_0_iff intro!: exI [of _ "[?c]"])
  next
    case False
    then have lt: "v div b < v" using assms(2) by (cases "v = 0") (simp_all add: div_less_dividend)
    obtain a1 ds where a1: "add_unsigned (Some new) b (v div b) a = Inr (0, a1)" "buf_ok a1"
      "buf_data a1 = buf_data a @ ds" "digits_value b ds = v div b" "list_all (is_base_digit b) ds"
      using less.IH [OF lt less.prems] by blast
    obtain a' where "BufAddByte (Some new) (Some a1) (schar ?c) = Inr (0, Some a')" "buf_ok a'" "buf_cstr a'"
      "buf_data a' = buf_data a1 @ [?c]" using add_byte_ok [OF a1(2), of new "schar ?c"] by auto
    then show ?thesis using assms(2,3) False lt a1 dig d(2)
      by (subst add_unsigned.simps)
        (auto simp: digits_value_snoc is_base_digit_def intro!: exI [of _ "ds @ [?c]"])
  qed
qed

lemma memcmp_zero: "length x = length y \<Longrightarrow> memcmp x y = 0 \<longleftrightarrow> x = y"
  by (induction x y rule: memcmp.induct) auto

lemma trim_loop_ok:
  "n \<le> length s \<Longrightarrow> \<not> list_all isspace (take n s) \<Longrightarrow>
   \<exists>m. trim_loop s n = Inr m \<and> m \<le> n \<and> 0 < m \<and> \<not> isspace (s ! (m - 1)) \<and> list_all isspace (take (n - m) (drop m s))"
proof (induction n)
  case (Suc n)
  show ?case
  proof (cases "isspace (s ! n)")
    case True
    then have "\<not> list_all isspace (take n s)" using Suc.prems by (simp add: take_Suc_conv_app_nth)
    with Suc obtain m where m: "trim_loop s n = Inr m" "m \<le> n" "0 < m" "\<not> isspace (s ! (m - 1))"
      "list_all isspace (take (n - m) (drop m s))" by auto
    have "take (Suc n - m) (drop m s) = take (n - m) (drop m s) @ [s ! n]"
      using m(2) Suc.prems(1) by (simp add: Suc_diff_le take_Suc_conv_app_nth)
    then show ?thesis using m True by (intro exI [of _ m]) simp
  next
    case False
    then show ?thesis by (intro exI [of _ "Suc n"]) simp
  qed
qed simp

lemma rev_dropWhile_rev:
  assumes "list_all P (drop m xs)" "0 < m" "m \<le> length xs" "\<not> P (xs ! (m - 1))"
  shows "rev (dropWhile P (rev xs)) = take m xs"
proof -
  obtain k where k: "m = Suc k" using assms(2) by (cases m) auto
  have "rev xs = rev (drop m xs) @ rev (take m xs)" by (metis append_take_drop_id rev_append)
  moreover have "rev (take m xs) = xs ! k # rev (take k xs)"
    using assms(3) k by (simp add: take_Suc_conv_app_nth)
  ultimately have "dropWhile P (rev xs) = xs ! k # rev (take k xs)"
    using assms(1,4) k by (simp add: dropWhile_append list_all_iff)
  then show ?thesis using assms(3) k by (simp add: take_Suc_conv_app_nth)
qed

section \<open>Properties\<close>

text \<open>C32: With memory available \<open>BufAddBytes\<close>, \<open>BufInsertBytes\<close> and \<open>BufAddByte\<close> append or insert the
  bytes given, at any index up to the length, growing the array when needed; the result is well formed
  and its data is followed by a null byte.\<close>

theorem Buf_append_insert:
  assumes "buf_ok a" "src \<noteq> []" "i \<le> blength a"
  shows "(\<exists>a'. BufAddBytes (Some new) a src (length src) = Inr (0, a') \<and> buf_ok a' \<and> buf_cstr a' \<and>
      buf_data a' = buf_data a @ src) \<and>
    (\<exists>a'. BufInsertBytes (Some new) a i src 0 (length src) = Inr (0, a') \<and> buf_ok a' \<and> buf_cstr a' \<and>
      buf_data a' = take i (buf_data a) @ src @ drop i (buf_data a)) \<and>
    (\<exists>a'. BufAddByte (Some new) (Some a) x = Inr (0, Some a') \<and> buf_ok a' \<and> buf_cstr a' \<and>
      buf_data a' = buf_data a @ [uchar_of x])"
  using add_bytes_ok [OF assms(1,2), of new] insert_bytes_ok [OF assms, of new] add_byte_ok [OF assms(1), of new x]
  by (simp add: BufAddBytes_def copy_out_def)

definition buf3 :: buf where
  "buf3 = \<lparr>free = FreeFini, bsize = 4, blength = 3, boffset = 0, bytes = ''abc'' @ [NUL]\<rparr>"

theorem Buf_append_insert_witness:
  "(\<exists>a'. BufAddBytes (Some (\<lambda>_. NUL)) buf3 ''xy'' 2 = Inr (0, a') \<and> buf_ok a' \<and> buf_cstr a' \<and>
      buf_data a' = ''abcxy'') \<and>
   (\<exists>a'. BufInsertBytes (Some (\<lambda>_. NUL)) buf3 1 ''xy'' 0 2 = Inr (0, a') \<and> buf_ok a' \<and> buf_cstr a' \<and>
      buf_data a' = ''axybc'') \<and>
   (\<exists>a'. BufAddByte (Some (\<lambda>_. NUL)) (Some buf3) (schar CHR ''A'') = Inr (0, Some a') \<and> buf_ok a' \<and> buf_cstr a' \<and>
      buf_data a' = ''abcA'')"
proof -
  have "buf_ok buf3" "''xy'' \<noteq> []" "1 \<le> blength buf3" and d: "buf_data buf3 = ''abc''"
    by (simp_all add: buf3_def buf_ok_def buf_data_def)
  from Buf_append_insert [OF this(1-3), of "\<lambda>_. NUL" "schar CHR ''A''", unfolded d uchar_schar]
  show ?thesis by (simp add: numeral_2_eq_2)
qed

text \<open>In every base from 2 to 36 \<open>BufAddUnsigned\<close> appends digits of that base whose value is the
  number; with the sign of \<open>BufAddSigned\<close> in base 10 a negative number becomes a minus and the digits
  of its magnitude.\<close>

lemma BufAddUnsigned_digits:
  assumes "buf_ok a" "2 \<le> b" "b \<le> 36" "0 < m" "m < 2 ^ 63"
  shows "(\<exists>a' ds. BufAddUnsigned (Some new) a v (int b) = Inr (0, a') \<and> buf_ok a' \<and> buf_cstr a' \<and>
      buf_data a' = buf_data a @ ds \<and> digits_value b ds = v \<and> list_all (is_base_digit b) ds) \<and>
    (\<exists>a' ds. BufAddSigned (Some new) a (- int m) 10 = Inr (0, a') \<and> buf_ok a' \<and> buf_cstr a' \<and>
      buf_data a' = buf_data a @ CHR ''-'' # ds \<and> digits_value 10 ds = m \<and> list_all (is_base_digit 10) ds)"
proof
  have "int b mod 2 ^ 64 = int b" using assms(3) by simp
  then show "\<exists>a' ds. BufAddUnsigned (Some new) a v (int b) = Inr (0, a') \<and> buf_ok a' \<and> buf_cstr a' \<and>
      buf_data a' = buf_data a @ ds \<and> digits_value b ds = v \<and> list_all (is_base_digit b) ds"
    using add_unsigned_ok [OF assms(1-3), of new v] assms(2,3) by (simp add: BufAddUnsigned_def)
  obtain a1 where a1: "BufAddByte (Some new) (Some a) (schar CHR ''-'') = Inr (0, Some a1)" "buf_ok a1"
    "buf_data a1 = buf_data a @ ''-''" using add_byte_ok [OF assms(1), of new "schar CHR ''-''"] by auto
  have "nat (int m mod 2 ^ 64) = m" using assms(5) by simp
  then show "\<exists>a' ds. BufAddSigned (Some new) a (- int m) 10 = Inr (0, a') \<and> buf_ok a' \<and> buf_cstr a' \<and>
      buf_data a' = buf_data a @ CHR ''-'' # ds \<and> digits_value 10 ds = m \<and> list_all (is_base_digit 10) ds"
    using add_unsigned_ok [OF a1(2), of 10 new m] a1 assms(4) by (simp add: BufAddSigned_def BufAddUnsigned_def)
qed

text \<open>The test meant to reject other bases never fires: base 1 recurs without end, base 0 divides by
  zero and base 40 reads past the digits.\<close>

theorem BufAddUnsigned_bad_base:
  "BufAddUnsigned (Some (\<lambda>_. NUL)) buf3 7 1 = Inl NoReturn"
  "BufAddUnsigned (Some (\<lambda>_. NUL)) buf3 7 0 = Inl DivByZero"
  "BufAddUnsigned (Some (\<lambda>_. NUL)) buf3 38 40 = Inl OutOfBounds"
  by (simp_all add: BufAddUnsigned_def add_unsigned.simps buf_digits_def)

text \<open>For regions within both buffers \<open>BufCompareBuf\<close> is 0 exactly when they are equal;
  \<open>BufReverse\<close> reverses exactly the range given, cut at the length; \<open>BufTrim\<close> on data with a character
  that is not white space removes exactly the white space at the end.\<close>

lemma Buf_compare_reverse_trim:
  assumes "buf_ok a" "buf_ok b" "ax + n \<le> blength a" "bx + n \<le> blength b" "i \<le> blength a"
    "buf_cstr a" "\<not> list_all isspace (buf_data a)"
  shows "(\<exists>r. BufCompareBuf (Some a) ax (Some b) bx n = Inr r \<and>
      (r = 0 \<longleftrightarrow> take n (drop ax (buf_data a)) = take n (drop bx (buf_data b)))) \<and>
    buf_data (BufReverse a i k) = take i (buf_data a) @ rev (take k (drop i (buf_data a))) @ drop (i + k) (buf_data a) \<and>
    (\<exists>a'. BufTrim a = Inr a' \<and> buf_cstr a' \<and> buf_data a' = rev (dropWhile isspace (rev (buf_data a))))"
proof (intro conjI)
  have t: "take n (drop ax (buf_data a)) = take n (drop ax (bytes a))"
    "take n (drop bx (buf_data b)) = take n (drop bx (bytes b))"
    using assms(3,4) by (simp_all add: buf_data_def drop_take min_absorb1)
  show "\<exists>r. BufCompareBuf (Some a) ax (Some b) bx n = Inr r \<and>
      (r = 0 \<longleftrightarrow> take n (drop ax (buf_data a)) = take n (drop bx (buf_data b)))"
    using assms(1-4) unfolding t
    by (cases "n = 0") (auto simp: BufCompareBuf_def copy_out_def buf_ok_def memcmp_zero)
  define k' where "k' = min k (blength a - i)"
  have "bounds a i k = (i, k')" using assms(5) by (auto simp: bounds_def k'_def)
  moreover have le: "i + k' \<le> length (bytes a)" using assms(1,5) by (auto simp: k'_def buf_ok_def)
  ultimately have "bytes (BufReverse a i k) = take i (bytes a) @ rev (take k' (drop i (bytes a))) @ drop (i + k') (bytes a)"
    "blength (BufReverse a i k) = blength a"
    using assms(1,5) swap_loop_eq [of i "i + k'" "bytes a"] le by (simp_all add: BufReverse_def)
  then show "buf_data (BufReverse a i k) = take i (buf_data a) @ rev (take k (drop i (buf_data a))) @ drop (i + k) (buf_data a)"
  proof (cases "k \<le> blength a - i")
    case True
    moreover have "min (bsize a - i) k = k" using True assms(1) by (intro min_absorb2) (auto simp: buf_ok_def)
    ultimately show ?thesis using assms(1,5) \<open>bytes _ = _\<close> \<open>blength _ = _\<close>
      by (simp add: buf_data_def buf_ok_def k'_def drop_take add.commute)
  next
    case False
    moreover have "min (bsize a - i) (blength a - i) = blength a - i"
      using assms(1) by (intro min_absorb2) (auto simp: buf_ok_def)
    ultimately show ?thesis using assms(1,5) \<open>bytes _ = _\<close> \<open>blength _ = _\<close>
      by (simp add: buf_data_def buf_ok_def k'_def drop_take)
  qed
  let ?n = "blength a"
  have "?n \<le> length (bytes a)" "\<not> list_all isspace (take ?n (bytes a))"
    using assms(1,7) by (simp_all add: buf_ok_def buf_data_def)
  from trim_loop_ok [OF this] obtain m where m: "trim_loop (bytes a) ?n = Inr m" "m \<le> ?n" "0 < m"
    "\<not> isspace (bytes a ! (m - 1))" "list_all isspace (take (?n - m) (drop m (bytes a)))" by blast
  have "rev (dropWhile isspace (rev (buf_data a))) = take m (buf_data a)"
    using m assms(1) by (intro rev_dropWhile_rev) (simp_all add: buf_data_def drop_take buf_ok_def)
  moreover have "BufTrim a = Inr (a\<lparr>bytes := (bytes a)[m := NUL], blength := m\<rparr>)"
    using m(1,2) assms(1,6) by (simp add: BufTrim_def buf_ok_def buf_cstr_def)
  ultimately show "\<exists>a'. BufTrim a = Inr a' \<and> buf_cstr a' \<and> buf_data a' = rev (dropWhile isspace (rev (buf_data a)))"
    using m(2) assms(1,6) by (simp add: buf_data_def buf_cstr_def buf_ok_def min_absorb1)
qed

definition buf_sp :: buf where
  "buf_sp = \<lparr>free = FreeFini, bsize = 6, blength = 5, boffset = 0, bytes = ''abc  '' @ [NUL]\<rparr>"

text \<open>C33: \<open>buffer_append\<close> and \<open>buffer_insert\<close> append and insert within the buffer they grow, and
  \<open>buffer_delete\<close> takes a range inside the data out; a range that reaches the end of the data empties
  the whole buffer. Data stays terminated by a null.\<close>

theorem buffer_append_insert_delete:
  assumes "buffer_ok b" "i \<le> flength b" 
  shows "(\<exists>b'. buffer_append (Some new) (Some b) (Some s) (length s) = Inr (0, Some b') \<and> buffer_ok b' \<and>
      buffer_data b' = buffer_data b @ s) \<and>
    (\<exists>b'. buffer_insert (Some new) (Some b) (Some s) (length s) i = Inr (0, Some b') \<and> buffer_ok b' \<and>
      buffer_data b' = take i (buffer_data b) @ s @ drop i (buffer_data b)) \<and>
    (\<exists>b'. buffer_delete (Some b) i n = Inr (0, Some b') \<and> buffer_ok b' \<and>
      buffer_data b' = (if i + n < flength b then take i (buffer_data b) @ drop (i + n) (buffer_data b) else []))"
proof (intro conjI)
  show "\<exists>b'. buffer_append (Some new) (Some b) (Some s) (length s) = Inr (0, Some b') \<and> buffer_ok b' \<and>
      buffer_data b' = buffer_data b @ s" using buffer_append_ok [OF assms(1)] .
  show "\<exists>b'. buffer_insert (Some new) (Some b) (Some s) (length s) i = Inr (0, Some b') \<and> buffer_ok b' \<and>
      buffer_data b' = take i (buffer_data b) @ s @ drop i (buffer_data b)" using buffer_insert_ok [OF assms] .
  obtain r where r: "fdata b = buffer_data b @ NUL # r" "flength b = length (buffer_data b)"
    "fsize b = length (buffer_data b) + 1 + length r" using buffer_rep [of b "buffer_data b"] assms(1) by auto
  show "\<exists>b'. buffer_delete (Some b) i n = Inr (0, Some b') \<and> buffer_ok b' \<and>
      buffer_data b' = (if i + n < flength b then take i (buffer_data b) @ drop (i + n) (buffer_data b) else [])"
  proof (cases "i + n < flength b")
    case False
    then show ?thesis using assms(1) by (auto simp: buffer_delete_def buffer_ok_def buffer_data_def)
  next
    case True
    define d1 d2 d3 where dd: "d1 = take i (buffer_data b)" "d2 = take n (drop i (buffer_data b))"
      "d3 = drop (i + n) (buffer_data b)"
    then have d: "buffer_data b = d1 @ d2 @ d3" "length d1 = i" "length d2 = n" "d3 \<noteq> []"
      using True r(2) append_take_drop_id [of i "buffer_data b"] append_take_drop_id [of n "drop i (buffer_data b)"]
      by (simp_all add: add.commute)
    obtain y j where y: "drop (i + length d3) (fdata b) = y # j" "length (fdata b) = i + length d3 + Suc (length j)"
      using d r(1) by (cases "drop (i + length d3) (fdata b)") (auto dest: arg_cong [of _ _ length])
    have "buf_memmove (fdata b) (int i) (int i + int n) (int (flength b) - int i - int n) = Inr (d1 @ d3 @ y # j)"
      using d r y by (simp add: buf_memmove_def nat_add_distrib of_nat_diff)
    then have "buffer_delete (Some b) i n = Inr (0, Some (b\<lparr>fdata := (d1 @ d3) @ NUL # j, flength := flength b - n\<rparr>))"
      using True d r(2) store_mid [of "length d1 + length d3" "d1 @ d3" y j NUL] by (simp add: buffer_delete_def)
    moreover have "buffer_ok b' \<and> buffer_data b' = d1 @ d3"
      if "b' = b\<lparr>fdata := (d1 @ d3) @ NUL # j, flength := flength b - n\<rparr>" for b'
    proof (rule buffer_repI)
      have "length (fdata b) = fsize b" using assms(1) by (simp add: buffer_ok_def)
      then show "fsize b' = length (d1 @ d3) + length j + 1" using y(2) d(2) unfolding that by simp
      show "flength b' = length (d1 @ d3)" using r(2) d(1-3) unfolding that by simp
    qed (simp add: that)
    ultimately show ?thesis unfolding if_P [OF True] dd(1,3) [symmetric] by blast
  qed
qed

definition buffer3 :: buffer where
  "buffer3 = \<lparr>fsize = 4, flength = 3, fdata = ''abc'' @ [NUL]\<rparr>"

theorem buffer_append_insert_delete_witness:
  "(\<exists>b'. buffer_append (Some (\<lambda>_. NUL)) (Some buffer3) (Some ''xy'') 2 = Inr (0, Some b') \<and> buffer_ok b' \<and>
      buffer_data b' = ''abcxy'') \<and>
   (\<exists>b'. buffer_insert (Some (\<lambda>_. NUL)) (Some buffer3) (Some ''xy'') 2 1 = Inr (0, Some b') \<and> buffer_ok b' \<and>
      buffer_data b' = ''axybc'') \<and>
   (\<exists>b'. buffer_delete (Some buffer3) 1 2 = Inr (0, Some b') \<and> buffer_ok b' \<and> buffer_data b' = [])"
proof -
  have "buffer_ok buffer3" "1 \<le> flength buffer3" and d: "buffer_data buffer3 = ''abc''" "flength buffer3 = 3"
    by (simp_all add: buffer3_def buffer_ok_def buffer_data_def)
  from buffer_append_insert_delete [OF this(1,2), of "\<lambda>_. NUL" "''xy''" 2, unfolded d]
  show ?thesis by (simp add: numeral_2_eq_2)
qed

end
