(* ===== verification/GlobMatch.thy ===== *)
theory GlobMatch
  imports CPrelude
begin

text \<open>
  \<^verbatim>\<open>util/TextFind.c\<close> and \<^verbatim>\<open>util/TextMatch.c\<close>: matching a text against a pattern of literals, \<open>?\<close>, \<open>*\<close>,
  white space and character classes. The loop of \<open>TextFind\<close> is \<open>find_go\<close>, whose arguments are the
  suffixes of text and pattern still to match, what is left of \<open>hay_size\<close>, the offset found so far and
  the distance from the start; \<open>find_star\<close> is the inner loop after an asterisk. A read past the null
  that ends the pattern is a fault. The reference is a list of pattern items with the set of texts it
  stands for.
\<close>

definition BSL :: char where
  "BSL = CHR 0x5C"

section \<open>Character classes\<close>

text \<open>The scan of the class, from index \<open>i\<close> of the pattern \<open>s\<close> that starts with the opening bracket;
  the result is where it stops.\<close>

function class_loop :: "bool \<Rightarrow> char \<Rightarrow> string \<Rightarrow> nat \<Rightarrow> fault + nat" where
  "class_loop caseless h s i =
     (if length s < i then Inl OutOfBounds
      else
        let c = char_at s i; prior = char_at s (i - 1); after = char_at s (i + 1)
        in if c = CHR '']'' then Inr i
           else if c = BSL \<and> h = after then Inr (i + 1)
           else if c = CHR ''-'' then
             if caseless \<and> schar (tolower prior) < schar (tolower h) \<and> schar (tolower h) \<le> schar (tolower after)
             then Inr i
             else if \<not> caseless \<and> schar prior < schar h \<and> schar h \<le> schar after then Inr i
             else class_loop caseless h s (i + 2)
           else if caseless \<and> tolower h = tolower c then Inr i
           else if \<not> caseless \<and> h = c then Inr i
           else class_loop caseless h s (i + 1))"
  by pat_completeness auto
termination
  by (relation "measure (\<lambda>(caseless, h, s, i). length s + 1 - i)") auto

declare class_loop.simps [simp del]

definition bracket_from :: "string \<Rightarrow> nat \<Rightarrow> nat option" where
  "bracket_from s i = (if CHR '']'' \<in> set (drop i s) then Some (i + length (takeWhile (\<lambda>c. c \<noteq> CHR '']'') (drop i s))) else None)"

text \<open>The result \<open>None\<close> is the null pointer, otherwise the suffix from the closing bracket.\<close>

definition textClass :: "char \<Rightarrow> string \<Rightarrow> bool \<Rightarrow> fault + string option" where
  "textClass h s caseless =
     (let negate = (char_at s 1 = CHR ''^'' \<or> char_at s 1 = CHR ''!'');
          start = (if negate then 2 else 1);
          first = bracket_from s 1;
          close = (if first = Some start then bracket_from s (start + 1) else first)
      in case close of
           None \<Rightarrow> Inr None
         | Some p \<Rightarrow>
             let result = (\<lambda>negate. Inr (if negate then None else Some (drop p s)))
             in if char_at s start = CHR '']'' \<and> h = CHR '']'' then result negate
                else
                  let i = (if char_at s start = CHR '']'' then start + 1 else start)
                  in if char_at s i = CHR ''-'' \<and> h = CHR ''-'' then result negate
                     else
                       let i = (if char_at s i = CHR ''-'' then i + 1 else i)
                       in andthen (class_loop caseless h s i) (\<lambda>stop.
                            result (if stop = p then \<not> negate else negate)))"

section \<open>The search\<close>

text \<open>\<open>match_one\<close> is one pass of the loop over an item that is not an asterisk: the rest of the pattern
  after it, or a mismatch.\<close>

definition match_one :: "bool \<Rightarrow> char \<Rightarrow> string \<Rightarrow> fault + string option" where
  "match_one caseless h pin =
     (if hd pin = BSL then
        Inr (if h \<noteq> deref (tl pin) then None else Some (tl (tl pin)))
      else if hd pin = CHR ''?'' then Inr (Some (tl pin))
      else if hd pin = CHR ''['' then
        andthen (textClass h pin caseless) (\<lambda>r. Inr (case r of None \<Rightarrow> None | Some p \<Rightarrow> Some (tl p)))
      else if hd pin = CHR '' '' \<and> isspace h then Inr (Some (tl pin))
      else if caseless \<and> tolower h \<noteq> tolower (hd pin) then Inr None
      else if \<not> caseless \<and> h \<noteq> hd pin then Inr None
      else Inr (Some (tl pin)))"

lemma bracket_from_pos: "bracket_from s i = Some p \<Longrightarrow> i \<le> p"
  by (auto simp: bracket_from_def split: if_splits)

lemma textClass_suffix:
  assumes "textClass h s caseless = Inr (Some r)"
  shows "\<exists>p \<ge> 1. r = drop p s"
proof -
  define start where "start = (if char_at s 1 = CHR ''^'' \<or> char_at s 1 = CHR ''!'' then 2 else 1 :: nat)"
  define close where "close = (if bracket_from s 1 = Some start then bracket_from s (start + 1) else bracket_from s 1)"
  obtain p where p: "close = Some p" "r = drop p s"
    using assms unfolding textClass_def Let_def start_def [symmetric] close_def [symmetric]
    by (auto simp: andthen_Inr split: option.splits if_splits)
  moreover have "1 \<le> p" using p(1) bracket_from_pos [of s 1 p] bracket_from_pos [of s "start + 1" p]
    by (auto simp: close_def split: if_splits)
  ultimately show ?thesis by blast
qed

lemma match_one_shorter:
  assumes "match_one caseless h (p # ps) = Inr (Some r)"
  shows "length r < Suc (length ps)"
proof (cases "p = CHR ''[''")
  case True
  then obtain q where q: "textClass h (p # ps) caseless = Inr (Some q)" "r = tl q"
    using assms by (auto simp: match_one_def BSL_def andthen_Inr split: option.splits)
  then show ?thesis using textClass_suffix [OF q(1)] by auto
next
  case False
  then show ?thesis using assms by (auto simp: match_one_def split: if_splits)
qed

definition stars_skipped :: "string \<Rightarrow> string" where
  "stars_skipped pin = dropWhile (\<lambda>c. c = CHR ''*'') pin"

function (sequential) find_go :: "bool \<Rightarrow> string \<Rightarrow> string \<Rightarrow> int \<Rightarrow> int \<Rightarrow> int \<Rightarrow> fault + int"
  and find_star :: "bool \<Rightarrow> string \<Rightarrow> string \<Rightarrow> int \<Rightarrow> int \<Rightarrow> int \<Rightarrow> fault + int" where
  "find_go caseless hay [] n offs pos = Inr (if n = 0 \<or> hay = [] then 0 else -1)"
| "find_go caseless hay (p # ps) n offs pos =
     (if p = CHR ''*'' then
        if stars_skipped ps = [] then Inr (if offs < 0 then pos else offs)
        else find_star caseless hay (stars_skipped ps) n offs pos
      else if n \<le> 0 \<or> hay = [] then Inr (-1)
      else andthen (match_one caseless (hd hay) (p # ps)) (\<lambda>r.
           case r of
             None \<Rightarrow> Inr (-1)
           | Some pin \<Rightarrow>
               find_go caseless (tl hay) pin (n - 1) (if offs < 0 then pos else offs) (pos + 1)))"
| "find_star caseless hay pin n offs pos =
     (if 0 < n \<and> hay \<noteq> [] then
        andthen (find_go caseless hay pin n (-1) 0) (\<lambda>r.
          if r = 0 then Inr (if offs < 0 then pos else offs)
          else find_star caseless (tl hay) pin (n - 1) offs (pos + 1))
      else Inr (-1))"
  by pat_completeness auto
termination
proof (relation "measures
    [\<lambda>x. case x of Inl (c, hay, pin, r) \<Rightarrow> length pin | Inr (c, hay, pin, r) \<Rightarrow> length pin,
     \<lambda>x. case x of Inl (c, hay, pin, r) \<Rightarrow> length hay | Inr (c, hay, pin, r) \<Rightarrow> length hay,
     \<lambda>x. case x of Inl _ \<Rightarrow> 0 | Inr _ \<Rightarrow> 1]", goal_cases)
  case (2 caseless hay p ps n offs pos)
  then show ?case using length_dropWhile_le [of "\<lambda>c. c = CHR ''*''" ps] by (simp add: stars_skipped_def)
next
  case (3 caseless hay p ps n offs pos y pin)
  then show ?case using match_one_shorter [of caseless "hd hay" p ps] by (auto split: option.splits)
qed auto

declare find_go.simps [simp del] find_star.simps [simp del]

definition TextFind :: "string option \<Rightarrow> string option \<Rightarrow> int \<Rightarrow> bool \<Rightarrow> fault + int" where
  "TextFind hay pin n caseless =
     (case (hay, pin) of
        (Some h, Some p) \<Rightarrow> find_go caseless h p (if n < 0 then LONG_MAX else n) (-1) 0
      | _ \<Rightarrow> Inr (-1))"

definition TextMatch :: "string option \<Rightarrow> string option \<Rightarrow> int \<Rightarrow> bool \<Rightarrow> fault + bool" where
  "TextMatch hay pin n caseless = andthen (TextFind hay pin n caseless) (\<lambda>r. Inr (0 \<le> r))"

text \<open>\<open>TextFindQuote\<close>: \<open>k\<close> is the number of characters written; \<open>sz\<close> is decremented once a pass
  although a pass may write two.\<close>

fun quote_loop :: "string \<Rightarrow> nat \<Rightarrow> string \<Rightarrow> nat \<Rightarrow> fault + nat \<times> string" where
  "quote_loop [] sz buf k = Inr (k, buf)"
| "quote_loop (c # cs) sz buf k =
     (if sz = 0 then Inr (k, buf)
      else if c = CHR ''*'' \<or> c = CHR ''?'' \<or> c = CHR ''['' \<or> c = BSL then
        andthen (store buf k BSL) (\<lambda>buf.
          if sz - 1 = 0 then Inr (k + 1, buf)
          else andthen (store buf (k + 1) c) (\<lambda>buf. quote_loop cs (sz - 1) buf (k + 2)))
      else andthen (store buf k c) (\<lambda>buf. quote_loop cs (sz - 1) buf (k + 1)))"

definition TextFindQuote :: "string \<Rightarrow> string \<Rightarrow> nat \<Rightarrow> fault + nat \<times> string" where
  "TextFindQuote s buf sz = quote_loop s sz buf 0"

section \<open>The reference\<close>

datatype glob = Lit char | AnyChar | Blank | Star

definition special :: "char \<Rightarrow> bool" where
  "special c \<longleftrightarrow> c = CHR ''*'' \<or> c = CHR ''?'' \<or> c = CHR ''['' \<or> c = BSL \<or> c = CHR '' ''"

fun render_item :: "glob \<Rightarrow> string" where
  "render_item (Lit c) = (if special c then [BSL, c] else [c])"
| "render_item AnyChar = ''?''"
| "render_item Blank = '' ''"
| "render_item Star = ''*''"

definition render :: "glob list \<Rightarrow> string" where
  "render ps = concat (map render_item ps)"

fun one :: "bool \<Rightarrow> glob \<Rightarrow> char \<Rightarrow> bool" where
  "one caseless (Lit c) h = (if caseless then tolower h = tolower c else h = c)"
| "one caseless AnyChar h = True"
| "one caseless Blank h = isspace h"
| "one caseless Star h = False"

fun gmatch :: "bool \<Rightarrow> glob list \<Rightarrow> string \<Rightarrow> bool" where
  "gmatch caseless [] h = (h = [])"
| "gmatch caseless (Star # ps) h = list_ex (\<lambda>k. gmatch caseless ps (drop k h)) [0..<length h + 1]"
| "gmatch caseless (p # ps) [] = False"
| "gmatch caseless (p # ps) (c # h) = (one caseless p c \<and> gmatch caseless ps h)"

section \<open>The matcher decides the reference\<close>

lemma render_simps [simp]: "render [] = []" "render (p # ps) = render_item p @ render ps"
  by (simp_all add: render_def)

lemma ord_special: "special c \<Longrightarrow> ord c < 64 \<or> ord c = 91 \<or> ord c = 92"
  by (auto simp: special_def BSL_def ord_def)

lemma tolower_special: "special c \<Longrightarrow> tolower h = tolower c \<longleftrightarrow> h = c"
proof -
  assume "special c"
  from ord_special [OF this] have "ord (tolower h) = ord (tolower c) \<longleftrightarrow> ord h = ord c"
    by (auto simp: ord_tolower isupper_def)
  then show ?thesis by simp
qed

lemma match_one_item:
  assumes "p \<noteq> Star" "h \<noteq> NUL"
  shows "match_one caseless h (render_item p @ r) = Inr (if one caseless p h then Some r else None)"
proof (cases p)
  case (Lit c)
  show ?thesis
  proof (cases "special c")
    case True
    then show ?thesis using tolower_special [OF True, of h] by (simp add: Lit match_one_def deref_def)
  next
    case False
    then show ?thesis by (auto simp: Lit match_one_def special_def)
  qed
next
  case Blank
  have "isspace CHR '' ''" "special CHR '' ''" by (simp_all add: isspace_def special_def ord_def)
  then show ?thesis using Blank assms tolower_special [of "CHR '' ''" h] by (auto simp: match_one_def BSL_def)
qed (use assms in \<open>auto simp: match_one_def BSL_def\<close>)

lemma gmatch_Star:
  "gmatch caseless (Star # ps) h \<longleftrightarrow> gmatch caseless ps h \<or> h \<noteq> [] \<and> gmatch caseless (Star # ps) (tl h)"
proof (cases h)
  case (Cons c cs)
  have "[0..<length h + 1] = 0 # map Suc [0..<length cs + 1]"
    by (simp add: Cons map_Suc_upt upt_conv_Cons del: upt_Suc)
  then have "gmatch caseless (Star # ps) h = list_ex (\<lambda>k. gmatch caseless ps (drop k h)) (0 # map Suc [0..<length cs + 1])"
    by (simp only: gmatch.simps(2))
  moreover have "list_ex P (map Suc xs) = list_ex (\<lambda>k. P (Suc k)) xs" for P xs
    by (simp add: list_ex_iff)
  ultimately show ?thesis by (simp add: Cons del: upt_Suc)
qed (simp add: list_ex_iff)

lemma gmatch_one: "p \<noteq> Star \<Longrightarrow> gmatch caseless (p # ps) h \<longleftrightarrow> h \<noteq> [] \<and> one caseless p (hd h) \<and> gmatch caseless ps (tl h)"
  by (cases p; cases h) simp_all

lemma gmatch_stars: "gmatch caseless (Star # Star # ps) h = gmatch caseless (Star # ps) h"
proof (induction h)
  case (Cons c h)
  then show ?case using gmatch_Star [of caseless "Star # ps" "c # h"] gmatch_Star [of caseless ps "c # h"] by auto
qed (simp add: list_ex_iff)

lemma render_Nil [simp]: "render ps = [] \<longleftrightarrow> ps = []"
proof (cases ps)
  case (Cons p qs)
  then show ?thesis by (cases p) auto
qed simp

lemma render_item_neq_Star: "p \<noteq> Star \<Longrightarrow> \<exists>c r. render_item p = c # r \<and> c \<noteq> CHR ''*''"
  by (cases p) (auto simp: special_def BSL_def)

lemma stars_skipped_render:
  "stars_skipped (render ps) = render (dropWhile (\<lambda>p. p = Star) ps)"
proof (induction ps)
  case (Cons p ps)
  then show ?case using render_item_neq_Star [of p] by (cases "p = Star") (auto simp: stars_skipped_def)
qed (simp add: stars_skipped_def)

lemma gmatch_drop_stars: "gmatch caseless (Star # ps) h = gmatch caseless (Star # dropWhile (\<lambda>p. p = Star) ps) h"
  by (induction ps) (auto simp: gmatch_stars simp del: gmatch.simps(2))

lemma gmatch_Star_end: "gmatch caseless [Star] h"
  by (auto simp: list_ex_iff intro!: bexI [of _ "length h"])

text \<open>After the first character has matched at offset 0, or before any has at position 0.\<close>

definition from_start :: "glob list \<Rightarrow> int \<Rightarrow> int \<Rightarrow> bool" where
  "from_start ps offs pos \<longleftrightarrow> 0 \<le> pos \<and> (offs = 0 \<or> offs = -1 \<and> pos = 0 \<and> ps \<noteq> [])"

lemma find_star_ok:
  assumes "\<And>h m. int (length h) \<le> m \<Longrightarrow> NUL \<notin> set h \<Longrightarrow> 
      find_go caseless h pin m (-1) 0 = Inr (if gmatch caseless ps h then 0 else -1)"
    and "\<not> gmatch caseless ps []" "int (length hay) \<le> n" "NUL \<notin> set hay" "0 \<le> pos"
  shows "\<exists>r. find_star caseless hay pin n offs pos = Inr r \<and>
    (if gmatch caseless (Star # ps) hay then r = (if offs < 0 then r else offs) \<and> 0 \<le> r else r = -1)"
  using assms(3-5)
proof (induction hay arbitrary: n pos)
  case Nil
  then show ?case using assms(2) gmatch_Star [of caseless ps "[]"] by (subst find_star.simps) simp
next
  case (Cons c hay)
  have go: "find_go caseless (c # hay) pin n (-1) 0 = Inr (if gmatch caseless ps (c # hay) then 0 else -1)"
    using Cons.prems by (intro assms(1)) auto
  show ?case
  proof (cases "gmatch caseless ps (c # hay)")
    case True
    then show ?thesis using go Cons.prems gmatch_Star [of caseless ps "c # hay"]
      by (subst find_star.simps) (simp del: gmatch.simps(2))
  next
    case False
    then have "find_star caseless (c # hay) pin n offs pos = find_star caseless hay pin (n - 1) offs (pos + 1)"
      using go Cons.prems by (subst find_star.simps) simp
    moreover have "gmatch caseless (Star # ps) (c # hay) = gmatch caseless (Star # ps) hay"
      using False gmatch_Star [of caseless ps "c # hay"] by simp
    ultimately show ?thesis using Cons.IH [of "n - 1" "pos + 1"] Cons.prems by (simp del: gmatch.simps(2))
  qed
qed

lemma find_go_ok:
  assumes "int (length hay) \<le> n" "NUL \<notin> set hay" "0 \<le> pos"
    and "offs = 0 \<or> offs = -1 \<and> pos = 0 \<and> ps \<noteq> [] \<and> hd ps \<noteq> Star"
  shows "find_go caseless hay (render ps) n offs pos = Inr (if gmatch caseless ps hay then 0 else -1)"
  using assms
proof (induction "length ps" arbitrary: ps hay n offs pos rule: less_induct)
  case less
  consider "ps = []" | qs where "ps = Star # qs" | p qs where "ps = p # qs" "p \<noteq> Star" by (cases ps) auto
  then show ?case
  proof cases
    case 1
    then show ?thesis using less.prems by (auto simp: find_go.simps)
  next
    case (2 qs)
    then have offs: "offs = 0" using less.prems(4) by simp
    define rs where "rs = dropWhile (\<lambda>p. p = Star) qs"
    have g: "gmatch caseless ps hay = gmatch caseless (Star # rs) hay"
      unfolding 2 rs_def by (rule gmatch_drop_stars)
    have "length rs \<le> length qs" unfolding rs_def by (rule length_dropWhile_le)
    then have lt: "length rs < length ps" by (simp add: 2)
    show ?thesis
    proof (cases "rs = []")
      case True
      then have "gmatch caseless ps hay" using g gmatch_Star_end by (simp only: True)
      then show ?thesis using True offs 
        by (simp add: 2 find_go.simps stars_skipped_render rs_def del: gmatch.simps(2))
    next
      case False
      then have hd: "hd rs \<noteq> Star" unfolding rs_def using hd_dropWhile by blast
      then have "\<not> gmatch caseless rs []" using False gmatch_one [of "hd rs" caseless "tl rs" "[]"] by (cases rs) auto
      from find_star_ok [OF _ this less.prems(1-3), of "render rs" offs] obtain r where
        r: "find_star caseless hay (render rs) n offs pos = Inr r"
        "r = (if gmatch caseless (Star # rs) hay then 0 else -1)"
        using less.hyps [OF lt] False hd offs by (auto simp del: gmatch.simps(2) split: if_splits)
      then show ?thesis using g False by (auto simp: 2 find_go.simps stars_skipped_render rs_def simp del: gmatch.simps(2))
    qed
  next
    case (3 p qs)
    obtain c0 r0 where c0: "render_item p = c0 # r0" "c0 \<noteq> CHR ''*''" using render_item_neq_Star [OF 3(2)] by auto
    show ?thesis
    proof (cases hay)
      case Nil
      then show ?thesis using gmatch_one [OF 3(2), of caseless qs hay] c0 by (simp add: 3(1) find_go.simps)
    next
      case (Cons c cs)
      have m: "match_one caseless c (c0 # r0 @ render qs) = Inr (if one caseless p c then Some (render qs) else None)"
        using match_one_item [OF 3(2), of c caseless "render qs"] less.prems(2) by (auto simp: c0 Cons)
      have "find_go caseless cs (render qs) (n - 1) 0 (pos + 1) = Inr (if gmatch caseless qs cs then 0 else -1)"
        using less.prems by (intro less.hyps) (auto simp: 3(1) Cons)
      moreover have "(if offs < 0 then pos else offs) = 0" using less.prems(4) by auto
      ultimately show ?thesis using m c0 less.prems(1) gmatch_one [OF 3(2), of caseless qs hay]
        by (simp add: 3(1) Cons find_go.simps)
    qed
  qed
qed

lemma TextFind_render:
  assumes "NUL \<notin> set hay" "int (length hay) \<le> LONG_MAX"
  shows "\<exists>r. TextFind (Some hay) (Some (render ps)) (-1) caseless = Inr r \<and> (0 \<le> r) = gmatch caseless ps hay"
proof (cases "ps = [] \<or> hd ps = Star")
  case False
  then show ?thesis using find_go_ok [of hay LONG_MAX 0 "-1" ps caseless] assms by (auto simp: TextFind_def)
next
  case True
  then consider "ps = []" | qs where "ps = Star # qs" by (cases ps) auto
  then show ?thesis
  proof cases
    case 1
    then show ?thesis using assms by (auto simp: TextFind_def find_go.simps LONG_MAX_def)
  next
    case (2 qs)
    define rs where "rs = dropWhile (\<lambda>p. p = Star) qs"
    have g: "gmatch caseless ps hay = gmatch caseless (Star # rs) hay"
      unfolding 2 rs_def by (rule gmatch_drop_stars)
    show ?thesis
    proof (cases "rs = []")
      case True
      then have "gmatch caseless ps hay" using g gmatch_Star_end by (simp only: True)
      then show ?thesis using True 
        by (simp add: 2 TextFind_def find_go.simps stars_skipped_render rs_def del: gmatch.simps(2))
    next
      case False
      then have hd: "hd rs \<noteq> Star" unfolding rs_def using hd_dropWhile by blast
      then have "\<not> gmatch caseless rs []" using False gmatch_one [of "hd rs" caseless "tl rs" "[]"] by (cases rs) auto
      from find_star_ok [OF _ this assms(2,1), of "render rs" 0 "-1"] obtain r where
        r: "find_star caseless hay (render rs) LONG_MAX (-1) 0 = Inr r"
        "if gmatch caseless (Star # rs) hay then 0 \<le> r else r = -1"
        using find_go_ok [of _ _ 0 "-1" rs caseless] False hd by (auto simp del: gmatch.simps(2) split: if_splits)
      then show ?thesis using g False
        by (auto simp: 2 TextFind_def find_go.simps stars_skipped_render rs_def simp del: gmatch.simps(2) split: if_splits)
    qed
  qed
qed

section \<open>Quoting\<close>

definition quoted :: "string \<Rightarrow> string" where
  "quoted s = concat (map (\<lambda>c. if c = CHR ''*'' \<or> c = CHR ''?'' \<or> c = CHR ''['' \<or> c = BSL then [BSL, c] else [c]) s)"

lemma quoted_simps [simp]: "quoted [] = []"
  "quoted (c # s) = (if c = CHR ''*'' \<or> c = CHR ''?'' \<or> c = CHR ''['' \<or> c = BSL then [BSL, c] else [c]) @ quoted s"
  by (simp_all add: quoted_def)

lemma quoted_render: "quoted s = render (map (\<lambda>c. if c = CHR '' '' then Blank else Lit c) s)"
  by (induction s) (auto simp: special_def BSL_def)

lemma length_quoted: "length s \<le> length (quoted s)"
  by (induction s) auto

lemma quote_loop_ok:
  assumes "length (quoted s) \<le> length junk" "length (quoted s) \<le> sz"
  shows "quote_loop s sz (out @ junk) (length out) =
    Inr (length (out @ quoted s), (out @ quoted s) @ drop (length (quoted s)) junk)"
  using assms
proof (induction s arbitrary: out junk sz)
  case (Cons c s)
  obtain j js where j: "junk = j # js" using Cons.prems(1) by (cases junk) (auto split: if_splits)
  obtain m where m: "sz = Suc m" using Cons.prems(2) by (cases sz) (auto split: if_splits)
  show ?case
  proof (cases "c = CHR ''*'' \<or> c = CHR ''?'' \<or> c = CHR ''['' \<or> c = BSL")
    case True
    obtain k ks where k: "js = k # ks" using Cons.prems(1) True j by (cases js) auto
    have "m \<noteq> 0" using Cons.prems(2) True m by auto
    then have "quote_loop (c # s) sz (out @ junk) (length out) =
        quote_loop s m ((out @ [BSL, c]) @ ks) (length (out @ [BSL, c]))"
      using True by (simp add: m j k list_update_append)
    then show ?thesis using Cons.IH [of ks m "out @ [BSL, c]"] Cons.prems True by (simp add: m j k)
  next
    case False
    then have "quote_loop (c # s) sz (out @ junk) (length out) = quote_loop s m ((out @ [c]) @ js) (length (out @ [c]))"
      by (simp add: m j list_update_append)
    then show ?thesis using Cons.IH [of js m "out @ [c]"] Cons.prems False by (simp add: m j)
  qed
qed simp

section \<open>Properties\<close>

text \<open>C38: \<open>TextMatch\<close> decides the pattern language: for every list of pattern items (literals, \<open>?\<close>, blank
  and \<open>*\<close>), written out with backslashes before the special characters, and every text without nulls,
  the whole text is accepted exactly when it is a concatenation of what the items stand for, with or
  without case.\<close>

theorem TextMatch_glob:
  assumes "NUL \<notin> set hay" "int (length hay) \<le> LONG_MAX"
  shows "TextMatch (Some hay) (Some (render ps)) (-1) caseless = Inr (gmatch caseless ps hay)"
  using TextFind_render [OF assms, of ps caseless] by (auto simp: TextMatch_def)

theorem TextMatch_glob_witness:
  "TextMatch (Some ''spam.example.COM'') (Some ''*.EX?mple.com'') (-1) True = Inr True"
proof -
  let ?ps = "[Star, Lit CHR ''.'', Lit CHR ''E'', Lit CHR ''X'', AnyChar, Lit CHR ''m'', Lit CHR ''p'', Lit CHR ''l'',
    Lit CHR ''e'', Lit CHR ''.'', Lit CHR ''c'', Lit CHR ''o'', Lit CHR ''m'']"
  have "gmatch True ?ps ''spam.example.COM''" by code_simp
  moreover have "render ?ps = ''*.EX?mple.com''" by (simp add: special_def BSL_def)
  ultimately show ?thesis
    using TextMatch_glob [of "''spam.example.COM''" ?ps True] by (simp add: LONG_MAX_def del: gmatch.simps)
qed

text \<open>\<open>TextFindQuote\<close> into a buffer with room for the result makes a pattern that accepts exactly the
  original text, when that has no white space.\<close>

lemma TextFindQuote_literal:
  assumes "NUL \<notin> set s" "int (length s) \<le> LONG_MAX" "NUL \<notin> set hay" "int (length hay) \<le> LONG_MAX"
    "CHR '' '' \<notin> set s" "length (quoted s) \<le> length buf"
  shows "TextFindQuote s buf (length buf) =
      Inr (length (quoted s), quoted s @ drop (length (quoted s)) buf) \<and>
    TextMatch (Some hay) (Some (quoted s)) (-1) False = Inr (hay = s)"
proof
  show "TextFindQuote s buf (length buf) =
      Inr (length (quoted s), quoted s @ drop (length (quoted s)) buf)"
    using quote_loop_ok [of s buf "length buf" "[]"] assms(6) by (simp add: TextFindQuote_def)
  have "map (\<lambda>c. if c = CHR '' '' then Blank else Lit c) s = map Lit s" using assms(5) by auto
  then have "quoted s = render (map Lit s)" by (simp only: quoted_render)
  moreover have "gmatch False (map Lit s) hay \<longleftrightarrow> hay = s"
  proof (induction s arbitrary: hay)
    case (Cons c s)
    then show ?case by (cases hay) auto
  qed simp
  ultimately show "TextMatch (Some hay) (Some (quoted s)) (-1) False = Inr (hay = s)"
    using TextMatch_glob [OF assms(3,4), of "map Lit s" False] by simp
qed

text \<open>A smaller buffer is overrun, because a pass that writes two characters counts as one; and a class
  that ends in a hyphen is scanned past the end of the pattern.\<close>

theorem TextFindQuote_overrun: "TextFindQuote ''***'' ''abc'' 3 = Inl OutOfBounds"
  by (simp add: TextFindQuote_def store_def)

theorem TextFind_class_overrun: "TextFind (Some ''b'') (Some ''[a-]'') (-1) False = Inl OutOfBounds"
  by code_simp

text \<open>A blank is not quoted, and a blank of a pattern also accepts other white space.\<close>

lemma TextFindQuote_blank:
  "TextFindQuote ''a b'' ''......'' 6 = Inr (3, ''a b...'')"
  "TextMatch (Some [CHR ''a'', CHR 0x09, CHR ''b'']) (Some ''a b'') (-1) False = Inr True"
  by code_simp+

end
