(* ===== verification/Tokens.thy ===== *)
theory Tokens
  imports TextOps VectorObj ByteBuffers
begin

text \<open>
  Splitting and joining text: \<^verbatim>\<open>util/TokenNext.c\<close>, \<^verbatim>\<open>util/TokenCount.c\<close>, \<^verbatim>\<open>util/TokenQuote.c\<close>,
  \<^verbatim>\<open>util/TokenSplitA.c\<close>, \<^verbatim>\<open>util/TokenSplit.c\<close>, \<^verbatim>\<open>util/TextSplit.c\<close>, \<^verbatim>\<open>util/TextJoin.c\<close>, \<^verbatim>\<open>util/TextEscape.c\<close>, and
  \<^verbatim>\<open>util/setBitWord.c\<close>, which splits a list of flag names. The reference is \<open>words\<close>, the maximal runs of
  characters that are not delimiters.
\<close>

definition TOKEN_KEEP_EMPTY :: int where "TOKEN_KEEP_EMPTY = 0x0001"
definition TOKEN_KEEP_QUOTES :: int where "TOKEN_KEEP_QUOTES = 0x0002"
definition TOKEN_KEEP_BACKSLASH :: int where "TOKEN_KEEP_BACKSLASH = 0x0004"
definition TOKEN_KEEP_BRACKETS :: int where "TOKEN_KEEP_BRACKETS = 0x0008"
definition TOKEN_IGNORE_QUOTES :: int where "TOKEN_IGNORE_QUOTES = 0x0010"

definition tok_flag :: "int \<Rightarrow> int \<Rightarrow> bool" where
  "tok_flag flags x \<longleftrightarrow> flags AND x \<noteq> 0"

definition BACKSLASH :: char where
  "BACKSLASH = CHR 0x5C"

definition is_quote :: "char \<Rightarrow> bool" where
  "is_quote c \<longleftrightarrow> c = CHR 0x22 \<or> c = CHR 0x27"

definition open_delims :: string where
  "open_delims = ''<({[''"

definition close_delims :: string where
  "close_delims = ''>)}]''"

section \<open>TokenNext\<close>

text \<open>The pair of brackets that the token may start with, as \<open>int\<close> values with \<open>EOF\<close> for none. A
  bracket is compared with a \<open>char\<close>, so \<open>EOF\<close> equals the character 0xFF.\<close>

definition bracket_pair :: "int \<Rightarrow> string \<Rightarrow> string \<Rightarrow> int \<times> int" where
  "bracket_pair flags delims s =
     (if tok_flag flags TOKEN_KEEP_BRACKETS then
        case strchr open_delims (deref s) of
          None \<Rightarrow> (-1, -1)
        | Some t \<Rightarrow>
            if strchr delims (deref t) = None then (-1, -1)
            else let close = char_at close_delims (length open_delims - length t)
                 in if strchr delims close = None then (-1, -1) else (schar (deref t), schar close)
      else (-1, -1))"

text \<open>The scan for the end of the token: where it stops, and the quote, escape and bracket count it
  leaves for the copy that follows.\<close>

fun find_end :: "int \<Rightarrow> string \<Rightarrow> int \<Rightarrow> int \<Rightarrow> char \<Rightarrow> bool \<Rightarrow> int \<Rightarrow> string \<Rightarrow> string \<times> char \<times> bool \<times> int" where
  "find_end flags delims od cd quote esc bc [] = ([], quote, esc, bc)"
| "find_end flags delims od cd quote esc bc (c # cs) =
     (if esc then find_end flags delims od cd quote False bc cs
      else
        let quoting = is_quote c \<and> \<not> tok_flag flags TOKEN_IGNORE_QUOTES;
            q = (if quoting then if quote = NUL then c else if c = quote then NUL else quote else quote)
        in if quoting \<and> \<not> tok_flag flags TOKEN_KEEP_QUOTES then find_end flags delims od cd q False bc cs
           else if c = BACKSLASH then find_end flags delims od cd q True bc cs
           else if q = NUL then
             let bc = (if schar c = od then bc + 1 else if schar c = cd then bc - 1 else bc)
             in if bc = 0 \<and> c \<in> set delims
                then (if schar c = cd then cs else c # cs, q, False, bc)
                else find_end flags delims od cd q False bc cs
           else find_end flags delims od cd q False bc cs)"

text \<open>The copy: the characters written and the part of the token it did not reach.\<close>

fun copy_token :: "int \<Rightarrow> string \<Rightarrow> int \<Rightarrow> int \<Rightarrow> char \<Rightarrow> bool \<Rightarrow> int \<Rightarrow> string \<Rightarrow> string \<times> string" where
  "copy_token flags delims od cd quote esc bc [] = ([], [])"
| "copy_token flags delims od cd quote esc bc (c # cs) =
     (if esc then
        let (t, r) = copy_token flags delims od cd quote False bc cs in (TextBackslash c # t, r)
      else
        let quoting = is_quote c \<and> \<not> tok_flag flags TOKEN_IGNORE_QUOTES \<and> (quote = NUL \<or> c = quote);
            q = (if quoting then if quote = NUL then c else NUL else quote)
        in if quoting \<and> \<not> tok_flag flags TOKEN_KEEP_QUOTES then copy_token flags delims od cd q False bc cs
           else if c = BACKSLASH then
             let (t, r) = copy_token flags delims od cd q True bc cs
             in (if tok_flag flags TOKEN_KEEP_BACKSLASH then (c # t, r) else (t, r))
           else
             let bc = (if q = NUL then if schar c = od then bc + 1 else if schar c = cd then bc - 1 else bc else bc)
             in if q = NUL \<and> bc = 0 \<and> c \<in> set delims
                then (if schar c = cd then [c] else [], c # cs)
                else let (t, r) = copy_token flags delims od cd q False bc cs in (c # t, r))"

definition token_delims :: "string option \<Rightarrow> string" where
  "token_delims delims =
     (case delims of
        None \<Rightarrow> [CHR 0x20, CHR 0x09, CHR 0x0D, CHR 0x0A, CHR 0x0C]
      | Some d \<Rightarrow> if d = [BACKSLASH, CHR ''0''] then [] else d)"

text \<open>\<open>None\<close> when there is no token left, otherwise where it starts.\<close>

definition token_start :: "int \<Rightarrow> string \<Rightarrow> string \<Rightarrow> string option" where
  "token_start flags delims s =
     (if tok_flag flags TOKEN_KEEP_EMPTY then Some s
      else
        let span = strspn s delims;
            s' = drop span s;
            s' = (if tok_flag flags TOKEN_KEEP_BRACKETS \<and> 0 < span \<and> char_at s (span - 1) \<in> set open_delims
                  then drop (span - 1) s else s')
        in if s' = [] then None else Some s')"

text \<open>\<open>mem\<close> tells whether \<open>malloc\<close> succeeds; \<open>stop\<close> is the value of \<open>*stop\<close> before the call. The result
  is the token and \<open>*stop\<close> after it.\<close>

definition TokenNext :: "bool \<Rightarrow> string option \<Rightarrow> string option \<Rightarrow> string option \<Rightarrow> int
    \<Rightarrow> string option \<times> string option" where
  "TokenNext mem string stop delims flags =
     (case string of
        None \<Rightarrow> (None, None)
      | Some s \<Rightarrow>
          let delims = token_delims delims
          in case token_start flags delims s of
               None \<Rightarrow> (None, None)
             | Some s \<Rightarrow>
                 let (od, cd) = bracket_pair flags delims s;
                     (r, quote, esc, bc) = find_end flags delims od cd NUL False 0 s
                 in if \<not> mem then (None, stop)
                    else
                      let (token, left) = copy_token flags delims od cd quote esc bc (take (length s - length r) s);
                          s = left @ r
                      in (Some token,
                          if s = [] then None
                          else Some (if tok_flag flags TOKEN_KEEP_BRACKETS \<and> deref s \<in> set open_delims
                                       \<and> deref s \<in> set delims
                                     then s else tl s)))"

section \<open>TextSplit, TextJoin\<close>

text \<open>The loop adds tokens until there is none; it may not end, hence the fuel \<open>k\<close>. \<open>vmem\<close> is the
  answer of the allocator when the vector grows.\<close>

fun split_loop :: "nat \<Rightarrow> bool \<Rightarrow> string option list option \<Rightarrow> string option \<Rightarrow> string option \<Rightarrow> int
    \<Rightarrow> string vector option \<Rightarrow> fault + string vector option" where
  "split_loop 0 mem vmem string delims flags v = Inl NoReturn"
| "split_loop (Suc k) mem vmem string delims flags v =
     (case TokenNext mem string string delims flags of
        (None, _) \<Rightarrow> Inr v
      | (Some token, stop) \<Rightarrow>
          split_loop k mem vmem stop delims flags (snd (VectorAdd vmem v (Some token))))"

definition TextSplit :: "nat \<Rightarrow> bool \<Rightarrow> bool \<Rightarrow> string option list option \<Rightarrow> string option \<Rightarrow> string option \<Rightarrow> int
    \<Rightarrow> fault + string vector option" where
  "TextSplit k cmem mem vmem string delims flags =
     (case VectorCreate cmem 5 of
        None \<Rightarrow> Inr None
      | Some v \<Rightarrow> split_loop k mem vmem string delims flags (Some v))"

fun join_loop :: "memory \<Rightarrow> string \<Rightarrow> string option list \<Rightarrow> buf \<Rightarrow> fault + buf" where
  "join_loop mem delim [] a = Inr a"
| "join_loop mem delim (s # ss) a =
     andthen (BufAddString mem a s) (\<lambda>(_, a).
     andthen (BufAddString mem a (Some delim)) (\<lambda>(_, a). join_loop mem delim ss a))"

text \<open>The length without the last delimiter is computed in \<open>size_t\<close>: with no strings it wraps and the
  null is stored outside the buffer.\<close>

definition TextJoin :: "memory \<Rightarrow> string \<Rightarrow> string vector option \<Rightarrow> fault + string option" where
  "TextJoin mem delim strings =
     (case BufCreate mem mem 100 of
        None \<Rightarrow> Inl OutOfBounds
      | Some a \<Rightarrow>
          andthen (join_loop mem delim (take (VectorLength strings) (VectorBase strings)) a) (\<lambda>a.
          andthen (if BufLength a < length delim then Inl OutOfBounds
                   else BufSetLength mem (Some a) (BufLength a - length delim)) (\<lambda>(rc, r).
          BufToString mem (case r of None \<Rightarrow> a | Some a \<Rightarrow> a))))"

section \<open>TokenCount, TokenQuote, TokenSplitA, TokenSplit\<close>

definition default_delims :: "string option \<Rightarrow> string" where
  "default_delims delims = (case delims of None \<Rightarrow> [CHR 0x20, CHR 0x09, CHR 0x0D, CHR 0x0A] | Some d \<Rightarrow> d)"

function count_loop :: "string \<Rightarrow> char \<Rightarrow> bool \<Rightarrow> nat \<Rightarrow> string \<Rightarrow> nat" where
  "count_loop delims quote esc count [] = count"
| "count_loop delims quote esc count (c # cs) =
     (if esc then count_loop delims quote False count cs
      else if is_quote c then
        count_loop delims (if quote = NUL then c else if c = quote then NUL else quote) False count cs
      else if c = BACKSLASH then count_loop delims quote True count cs
      else if quote = NUL \<and> c \<in> set delims then
        let r = drop (strspn cs delims) cs
        in count_loop delims quote False (if r \<noteq> [] then count + 1 else count) r
      else count_loop delims quote False count cs)"
  by pat_completeness auto
termination
  by (relation "measure (\<lambda>(delims, quote, esc, count, s). length s)") auto

definition TokenCount :: "string option \<Rightarrow> string option \<Rightarrow> nat" where
  "TokenCount string delims =
     (case string of
        None \<Rightarrow> 0
      | Some s \<Rightarrow>
          let delims = default_delims delims; s = drop (strspn s delims) s
          in count_loop delims NUL False (if s \<noteq> [] then 1 else 0) s)"

definition TokenQuote :: "bool \<Rightarrow> string option \<Rightarrow> string option \<Rightarrow> string option" where
  "TokenQuote mem string delims =
     (case string of
        None \<Rightarrow> None
      | Some s \<Rightarrow>
          let delims = (case delims of None \<Rightarrow> [CHR 0x27, CHR 0x22] | Some d \<Rightarrow> d)
          in if mem then Some (concat (map (\<lambda>c. if c \<in> set delims then [BACKSLASH, c] else [c]) s)) else None)"

lemma store_length: "store buf i x = Inr buf' \<Longrightarrow> length buf' = length buf"
  by (auto simp: store_def split: if_splits)

lemma span_advances:
  assumes "s < length buf" "buf ! s \<noteq> NUL" "buf ! s \<in> set d"
  shows "length buf - (s + strspn (takeWhile (\<lambda>x. x \<noteq> NUL) (drop s buf)) d) < length buf - s"
proof -
  have "0 < strspn (takeWhile (\<lambda>x. x \<noteq> NUL) (drop s buf)) d"
    using assms by (simp add: strspn_def Cons_nth_drop_Suc [symmetric])
  then show ?thesis using assms(1) by linarith
qed

text \<open>The loop of \<open>TokenSplitA\<close> reads at \<open>s\<close> and writes at \<open>t\<close> in one buffer, which holds its null; the
  slots of \<open>argv\<close> are offsets into it. \<open>i\<close> counts the slots used.\<close>

function splita_loop :: "string \<Rightarrow> nat \<Rightarrow> char \<Rightarrow> bool \<Rightarrow> nat \<Rightarrow> nat \<Rightarrow> nat \<Rightarrow> string \<Rightarrow> nat option list
    \<Rightarrow> fault + nat \<times> nat \<times> string \<times> nat option list" where
  "splita_loop delims sz quote esc s t i buf argv =
     (if s < length buf \<and> i < sz \<and> buf ! s \<noteq> NUL then
        let c = buf ! s
        in if esc then
             andthen (store buf t (TextBackslash c)) (\<lambda>buf.
               splita_loop delims sz quote False (s + 1) (t + 1) i buf argv)
           else if is_quote c then
             if quote = NUL then splita_loop delims sz c False (s + 1) t i buf argv
             else if c = quote then splita_loop delims sz NUL False (s + 1) t i buf argv
             else andthen (store buf t c) (\<lambda>buf.
               splita_loop delims sz quote False (s + 1) (t + 1) i buf argv)
           else if c = BACKSLASH then splita_loop delims sz quote True (s + 1) t i buf argv
           else if quote = NUL \<and> c \<in> set delims then
             let s' = s + strspn (takeWhile (\<lambda>x. x \<noteq> NUL) (drop s buf)) delims
             in if char_at buf s' \<noteq> NUL then
                  andthen (store buf t NUL) (\<lambda>buf.
                  andthen (store argv i (Some (t + 1))) (\<lambda>argv.
                    splita_loop delims sz quote False s' (t + 1) (i + 1) buf argv))
                else splita_loop delims sz quote False s' t i buf argv
           else andthen (store buf t c) (\<lambda>buf.
             splita_loop delims sz quote False (s + 1) (t + 1) i buf argv)
      else Inr (i, t, buf, argv))"
  by pat_completeness auto
termination
  by (relation "measure (\<lambda>(delims, sz, quote, esc, s, t, i, buf, argv). length buf - s)")
    (auto dest: store_length simp: span_advances)

declare splita_loop.simps [simp del]

text \<open>\<open>sz\<close> is the size passed in; the array itself is \<open>argv\<close>. The result is the count, the buffer and
  the array.\<close>

definition TokenSplitA :: "string option \<Rightarrow> string option \<Rightarrow> nat option list option \<Rightarrow> int
    \<Rightarrow> fault + int \<times> string \<times> nat option list" where
  "TokenSplitA string delims argv sz =
     (case (string, argv) of
        (Some s, Some argv) \<Rightarrow>
          if sz < 1 then Inr (-1, s @ [NUL], argv)
          else
            let d = default_delims delims; start = strspn s d
            in andthen (store argv 0 (Some 0)) (\<lambda>argv.
               andthen (splita_loop d (nat sz) NUL False start 0 (if drop start s \<noteq> [] then 1 else 0) (s @ [NUL]) argv)
                 (\<lambda>(i, t, buf, argv).
               andthen (store buf t NUL) (\<lambda>buf.
               andthen (store argv i None) (\<lambda>argv. Inr (int i, buf, argv)))))
      | _ \<Rightarrow> Inr (-1, [], []))"

text \<open>The array and the copy of the string are one allocation; \<open>junk\<close> is what the array holds at
  first. The \<open>pad\<close> slots before the tokens are left as they are.\<close>

definition TokenSplit :: "bool \<Rightarrow> (nat \<Rightarrow> nat option) \<Rightarrow> string option \<Rightarrow> string option \<Rightarrow> nat
    \<Rightarrow> fault + int \<times> (string \<times> nat option list \<times> nat) option" where
  "TokenSplit mem junk string delims pad =
     (case string of
        None \<Rightarrow> Inr (-1, None)
      | Some s \<Rightarrow>
          if \<not> mem then Inr (-1, None)
          else
            let argc = pad + TokenCount string delims + 1;
                array = map junk [0..<argc];
                (copy, n) = TextCopy (replicate (length s + 1) NUL) (length s + 1) s
            in andthen (TokenSplitA (Some (cstring_of copy)) delims (Some (drop pad array)) (int (argc - pad)))
                 (\<lambda>(i, buf, argv).
                 if i \<noteq> int argc - int pad - 1 then Inr (-1, None)
                 else Inr (0, Some (buf, take pad array @ argv, argc - 1))))"

section \<open>Names of flags, escapes\<close>

text \<open>\<open>None\<close> is a null pointer; the table is given without its final null entry.\<close>

definition apply_word :: "(u64 \<times> string) list \<Rightarrow> u64 \<Rightarrow> string \<Rightarrow> u64" where
  "apply_word table flags w =
     (let signed = deref w = CHR ''+'' \<or> deref w = CHR ''-'' \<or> deref w = CHR 0x21;
          add = (if signed then deref w = CHR ''+'' else True);
          name = (if signed then tl w else w)
      in case List.find (\<lambda>p. TextInsensitiveCompare (Some name) (Some (snd p)) = 0) table of
           None \<Rightarrow> flags
         | Some p \<Rightarrow> if add then flags OR fst p else flags AND NOT (fst p))"

definition setBitWord2 :: "nat \<Rightarrow> bool \<Rightarrow> bool \<Rightarrow> string option list option \<Rightarrow> (u64 \<times> string) list option
    \<Rightarrow> string option \<Rightarrow> string option \<Rightarrow> u64 \<Rightarrow> fault + u64" where
  "setBitWord2 k cmem mem vmem bits detail delims oflags =
     (case (bits, detail) of
        (Some table, Some d) \<Rightarrow>
          let (value, stop) = strtol 0 d
          in if stop = [] then Inr (word_of_int value)
             else
               andthen (TextSplit k cmem mem vmem detail (Some (case delims of None \<Rightarrow> '','' | Some d \<Rightarrow> d)) 0) (\<lambda>words.
               case words of
                 None \<Rightarrow> Inr oflags
               | Some v \<Rightarrow> Inr (foldl (\<lambda>flags w. apply_word table flags (case w of None \<Rightarrow> [] | Some w \<Rightarrow> w))
                                oflags (take (veclen v) (base v))))
      | _ \<Rightarrow> Inr oflags)"

definition setBitWord :: "nat \<Rightarrow> bool \<Rightarrow> bool \<Rightarrow> string option list option \<Rightarrow> (u64 \<times> string) list option
    \<Rightarrow> string option \<Rightarrow> fault + u64" where
  "setBitWord k cmem mem vmem bits detail = setBitWord2 k cmem mem vmem bits detail None 0"

fun selectWord :: "string list \<Rightarrow> string \<Rightarrow> int" where
  "selectWord [] w = -1"
| "selectWord (t # ts) w =
     (if TextInsensitiveCompare (Some w) (Some t) = 0 then 0
      else (let r = selectWord ts w in if r < 0 then -1 else r + 1))"

definition escape_convert :: "int \<Rightarrow> string list \<Rightarrow> bool \<Rightarrow> string option" where
  "escape_convert octet table escaping =
     (if 0 \<le> octet \<and> octet < 0x20 then Some (table ! nat octet)
      else if octet = 0x7F then Some (table ! 0x20)
      else if octet = int (ord BACKSLASH) \<and> escaping then Some [BACKSLASH, BACKSLASH]
      else None)"

definition map_carat :: "string list" where
  "map_carat = map (\<lambda>c. [CHR 0x5E, c])
     (''@ABCDEFGHIJKLMNOPQRSTUVWXYZ['' @ [BACKSLASH, CHR 0x5D, CHR 0x5E, CHR 0x5F, CHR ''?''])"

definition map_control :: "string list" where
  "map_control = [''<NUL>'', ''<SOH>'', ''<STX>'', ''<ETX>'', ''<EOT>'', ''<ENQ>'', ''<ACK>'', ''<BEL>'',
     ''<BS>'', ''<HT>'', ''<LF>'', ''<VT>'', ''<FF>'', ''<CR>'', ''<SO>'', ''<SI>'', ''<DLE>'', ''<DC1>'',
     ''<DC2>'', ''<DC3>'', ''<DC4>'', ''<NAK>'', ''<SYN>'', ''<ETB>'', ''<CAN>'', ''<EM>'', ''<SUB>'',
     ''<ESC>'', ''<FS>'', ''<GS>'', ''<RS>'', ''<US>'', ''<DEL>'']"

definition map_escape :: "string list" where
  "map_escape = map (Cons BACKSLASH) [''x00'', ''x01'', ''x02'', ''x03'', ''x04'', ''x05'', ''x06'', ''a'',
     ''b'', ''t'', ''n'', ''v'', ''f'', ''r'', ''x0E'', ''x0F'', ''x10'', ''x11'', ''x12'', ''x13'',
     ''x14'', ''x15'', ''x16'', ''x17'', ''x18'', ''x19'', ''x1A'', ''e'', ''x1C'', ''x1D'', ''x1E'',
     ''x1F'', ''x7F'']"

definition TextEscape :: "int \<Rightarrow> string option" where
  "TextEscape octet = escape_convert octet map_escape True"

definition TextCarat :: "int \<Rightarrow> string option" where
  "TextCarat octet = escape_convert octet map_carat False"

definition TextControl :: "int \<Rightarrow> string option" where
  "TextControl octet = escape_convert octet map_control False"

section \<open>The reference\<close>

function words :: "string \<Rightarrow> string \<Rightarrow> string list" where
  "words d s =
     (case dropWhile (\<lambda>c. c \<in> set d) s of
        [] \<Rightarrow> []
      | c # cs \<Rightarrow> (c # takeWhile (\<lambda>c. c \<notin> set d) cs) # words d (dropWhile (\<lambda>c. c \<notin> set d) cs))"
  by pat_completeness auto
termination
proof (relation "measure (\<lambda>(d, s). length s)", goal_cases)
  case (2 d s c cs)
  then have "length (c # cs) \<le> length s" by (metis length_dropWhile_le)
  then show ?case using length_dropWhile_le [of "\<lambda>c. c \<notin> set d" cs] by simp
qed simp

declare words.simps [simp del]

definition plain :: "string \<Rightarrow> bool" where
  "plain s \<longleftrightarrow> list_all (\<lambda>c. \<not> is_quote c \<and> c \<noteq> BACKSLASH \<and> c \<noteq> NUL \<and> schar c \<noteq> -1) s"

section \<open>Plain text\<close>

declare dropWhile_eq_Nil_conv [simp del]

lemma token_start_0: "token_start 0 d s = (case dropWhile (\<lambda>c. c \<in> set d) s of [] \<Rightarrow> None | c # cs \<Rightarrow> Some (c # cs))"
  unfolding token_start_def Let_def drop_strspn by (simp add: tok_flag_def split: list.split)

lemma plain_Cons [simp]:
  "plain (c # s) \<longleftrightarrow> \<not> is_quote c \<and> c \<noteq> BACKSLASH \<and> c \<noteq> NUL \<and> schar c \<noteq> -1 \<and> plain s"
  by (simp add: plain_def)

lemma plain_Nil [simp]: "plain []"
  by (simp add: plain_def)

lemma plain_dropWhile: "plain s \<Longrightarrow> plain (dropWhile P s)"
  by (induction s) auto

lemma tok_flag_0 [simp]: "\<not> tok_flag 0 x"
  by (simp add: tok_flag_def)

lemma find_end_plain:
  "plain s \<Longrightarrow> find_end 0 d (-1) (-1) NUL False 0 s = (dropWhile (\<lambda>c. c \<notin> set d) s, NUL, False, 0)"
  by (induction s) simp_all

lemma copy_token_plain:
  "plain s \<Longrightarrow> list_all (\<lambda>c. c \<notin> set d) s \<Longrightarrow> copy_token 0 d (-1) (-1) NUL False 0 s = (s, [])"
  by (induction s) simp_all

lemma words_Nil [simp]: "words d [] = []"
  by (simp add: words.simps)

lemma words_skip: "words d (dropWhile (\<lambda>c. c \<in> set d) s) = words d s"
  by (subst (1 2) words.simps) simp

lemma words_delim: "c \<in> set d \<Longrightarrow> words d (c # s) = words d s"
  by (subst (1 2) words.simps) simp

lemma words_word:
  assumes "dropWhile (\<lambda>c. c \<in> set d) s = c # cs"
  shows "words d s = takeWhile (\<lambda>c. c \<notin> set d) (c # cs) # words d (dropWhile (\<lambda>c. c \<notin> set d) cs)"
proof -
  have "c \<notin> set d" using assms hd_dropWhile [of "\<lambda>c. c \<in> set d" s] by simp
  then show ?thesis using assms by (subst words.simps) simp
qed

lemma words_tl_rest:
  "words d (tl (dropWhile (\<lambda>c. c \<notin> set d) s)) = words d (dropWhile (\<lambda>c. c \<notin> set d) s)"
proof (cases "dropWhile (\<lambda>c. c \<notin> set d) s")
  case (Cons c cs)
  then have "c \<in> set d" using hd_dropWhile [of "\<lambda>c. c \<notin> set d" s] by simp
  then show ?thesis by (simp add: Cons words_delim)
qed simp

lemma TokenNext_plain:
  assumes "plain s" "d \<noteq> [BACKSLASH, CHR ''0'']"
  shows "TokenNext True (Some s) stop (Some d) 0 =
    (case dropWhile (\<lambda>c. c \<in> set d) s of
       [] \<Rightarrow> (None, None)
     | c # cs \<Rightarrow>
         (Some (c # takeWhile (\<lambda>c. c \<notin> set d) cs),
          let r = dropWhile (\<lambda>c. c \<notin> set d) cs in if r = [] then None else Some (tl r)))"
proof (cases "dropWhile (\<lambda>c. c \<in> set d) s")
  case Nil
  then show ?thesis using assms(2) by (simp add: TokenNext_def token_delims_def token_start_0)
next
  case (Cons c cs)
  have "plain (c # cs)" using plain_dropWhile [OF assms(1), of "\<lambda>c. c \<in> set d"] Cons by simp
  have "c \<notin> set d" using Cons hd_dropWhile [of "\<lambda>c. c \<in> set d" s] by simp
  then have f: "find_end 0 d (-1) (-1) NUL False 0 (c # cs) = (dropWhile (\<lambda>c. c \<notin> set d) cs, NUL, False, 0)"
    using find_end_plain [OF \<open>plain (c # cs)\<close>, of d] by simp
  let ?w = "takeWhile (\<lambda>c. c \<notin> set d) cs" and ?r = "dropWhile (\<lambda>c. c \<notin> set d) cs"
  have split: "(c # ?w) @ ?r = c # cs" by simp
  have "length (c # cs) - length ?r = length (c # ?w)" unfolding split [symmetric] length_append by simp
  then have t: "take (length (c # cs) - length ?r) (c # cs) = c # ?w"
    using split by (metis append_eq_conv_conj)
  have "plain (c # ?w)"
    using \<open>plain (c # cs)\<close> by (auto simp: plain_def list_all_iff dest: set_takeWhileD)
  then have "copy_token 0 d (-1) (-1) NUL False 0 (c # ?w) = (c # ?w, [])"
    using \<open>c \<notin> set d\<close> by (intro copy_token_plain) (auto simp: list_all_iff dest: set_takeWhileD)
  then show ?thesis
    using assms(2) f t Cons
    by (simp add: TokenNext_def token_delims_def token_start_0 bracket_pair_def Let_def)
qed

lemma TokenNext_None: "TokenNext mem None stop d flags = (None, None)"
  by (simp add: TokenNext_def)

lemma vector_add_some:
  assumes "vec_ok v" "length slots = VECTOR_GROWTH"
  obtains v' where "VectorAdd (Some slots) (Some v) (Some x) = (0, Some v')" "vec_ok v'" "contents v' = contents v @ [Some x]"
  using vec_add_ok [OF assms, of x] by (auto simp: VectorAdd_def on_vector_def)

lemma split_loop_words:
  assumes "plain s" "d \<noteq> [BACKSLASH, CHR ''0'']" "vec_ok v" "length slots = VECTOR_GROWTH" "length (words d s) < k"
  shows "\<exists>v'. split_loop k True (Some slots) (Some s) (Some d) 0 (Some v) = Inr (Some v') \<and> vec_ok v' \<and>
    contents v' = contents v @ map Some (words d s)"
  using assms(1,3,5)
proof (induction k arbitrary: s v)
  case (Suc k)
  note next_plain = TokenNext_plain [OF Suc.prems(1) assms(2)]
  show ?case
  proof (cases "dropWhile (\<lambda>c. c \<in> set d) s")
    case Nil
    then have "words d s = []" by (subst words.simps) simp
    then show ?thesis using Suc.prems Nil by (simp add: next_plain)
  next
    case (Cons c cs)
    let ?w = "c # takeWhile (\<lambda>c. c \<notin> set d) cs" and ?r = "dropWhile (\<lambda>c. c \<notin> set d) cs"
    have w: "words d s = ?w # words d ?r" using Cons by (subst words.simps) simp
    obtain v1 where v1: "VectorAdd (Some slots) (Some v) (Some ?w) = (0, Some v1)" "vec_ok v1"
      "contents v1 = contents v @ [Some ?w]" using vector_add_some [OF Suc.prems(2) assms(4)] .
    obtain j where j: "k = Suc j" using Suc.prems(3) w by (cases k) auto
    show ?thesis
    proof (cases "?r = []")
      case True
      then show ?thesis using v1 w Cons by (simp add: next_plain j TokenNext_None)
    next
      case False
      have "plain cs" using plain_dropWhile [OF Suc.prems(1), of "\<lambda>c. c \<in> set d"] Cons by simp
      then have "plain (tl ?r)" using plain_dropWhile [of cs "\<lambda>c. c \<notin> set d"] False by (cases ?r) auto
      moreover have "length (words d (tl ?r)) < k" using Suc.prems(3) w by (simp add: words_tl_rest)
      ultimately show ?thesis using Suc.IH [of "tl ?r" v1] v1 w Cons False
        by (simp add: next_plain words_tl_rest)
    qed
  qed
qed simp

lemma count_loop_plain:
  "plain s \<Longrightarrow> count_loop d NUL False n s = n + length (words d (dropWhile (\<lambda>c. c \<notin> set d) s))"
proof (induction s arbitrary: n rule: length_induct)
  case (1 s)
  show ?case
  proof (cases s)
    case (Cons c cs)
    show ?thesis
    proof (cases "c \<in> set d")
      case True
      let ?r = "dropWhile (\<lambda>c. c \<in> set d) cs"
      have "length ?r \<le> length cs" by (rule length_dropWhile_le)
      then have IH: "count_loop d NUL False m ?r = m + length (words d (dropWhile (\<lambda>c. c \<notin> set d) ?r))" for m
        using 1 Cons plain_dropWhile [of cs "\<lambda>c. c \<in> set d"] by simp
      have "words d (dropWhile (\<lambda>c. c \<notin> set d) s) = words d cs" using True by (simp add: Cons words_delim)
      also have "length \<dots> = (if ?r \<noteq> [] then 1 else 0) + length (words d (dropWhile (\<lambda>c. c \<notin> set d) ?r))"
      proof (cases ?r)
        case Nil
        then show ?thesis using words_skip [of d cs] by simp
      next
        case (Cons e es)
        then have "e \<notin> set d" using hd_dropWhile [of "\<lambda>c. c \<in> set d" cs] by simp
        then show ?thesis using words_word [OF Cons] Cons by simp
      qed
      finally show ?thesis using True 1(2) IH by (simp add: Cons drop_strspn)
    next
      case False
      then show ?thesis using 1 Cons by simp
    qed
  qed simp
qed

section \<open>Quoting\<close>

definition token_quoted :: "char set \<Rightarrow> string \<Rightarrow> string" where
  "token_quoted E s = concat (map (\<lambda>c. if c \<in> E then [BACKSLASH, c] else [c]) s)"

lemma token_quoted_simps [simp]: "token_quoted E [] = []"
  "token_quoted E (c # s) = (if c \<in> E then BACKSLASH # c # token_quoted E s else c # token_quoted E s)"
  by (simp_all add: token_quoted_def)

lemma not_quote_BACKSLASH [simp]: "\<not> is_quote BACKSLASH"
  by (simp add: is_quote_def BACKSLASH_def)

lemma find_end_quoted:
  assumes "\<And>c. is_quote c \<Longrightarrow> c \<in> E" "BACKSLASH \<in> E" "set d \<subseteq> E"
  shows "\<exists>bc'. find_end 0 d od cd NUL False bc (token_quoted E s) = ([], NUL, False, bc')"
proof (induction s arbitrary: bc)
  case (Cons c s)
  show ?case
  proof (cases "c \<in> E")
    case True
    then show ?thesis using Cons by simp
  next
    case False
    then have "\<not> is_quote c" "c \<noteq> BACKSLASH" "c \<notin> set d" using assms by auto
    then show ?thesis using False Cons by simp
  qed
qed simp

lemma copy_token_quoted:
  assumes "\<And>c. is_quote c \<Longrightarrow> c \<in> E" "BACKSLASH \<in> E" "set d \<subseteq> E" "\<And>c. c \<in> E \<Longrightarrow> TextBackslash c = c"
  shows "copy_token 0 d od cd NUL False bc (token_quoted E s) = (s, [])"
proof (induction s arbitrary: bc)
  case (Cons c s)
  show ?case
  proof (cases "c \<in> E")
    case True
    then show ?thesis using Cons assms(4) by simp
  next
    case False
    then have "\<not> is_quote c" "c \<noteq> BACKSLASH" "c \<notin> set d" using assms by auto
    then show ?thesis using False Cons by simp
  qed
qed simp

lemma token_quoted_start:
  assumes "s \<noteq> []" "set d \<subseteq> E" "BACKSLASH \<notin> set d"
  shows "dropWhile (\<lambda>c. c \<in> set d) (token_quoted E s) = token_quoted E s" "token_quoted E s \<noteq> []"
  using assms by (cases s; auto)+

section \<open>Properties\<close>

text \<open>C39: On text without quotes, backslashes and the octet 0xFF, \<open>TextSplit\<close> without flags returns, in order,
  exactly the maximal runs of characters that are not delimiters, after at most one call of \<open>TokenNext\<close> more than
  there are runs; \<open>TokenCount\<close> returns their number.\<close>

theorem TextSplit_words:
  assumes "plain s" "d \<noteq> [BACKSLASH, CHR ''0'']" "length slots = VECTOR_GROWTH" "length (words d s) < k"
  shows "(\<exists>v. TextSplit k True True (Some slots) (Some s) (Some d) 0 = Inr (Some v) \<and> vec_ok v \<and>
      contents v = map Some (words d s)) \<and>
    TokenCount (Some s) (Some d) = length (words d s)"
proof
  obtain v :: "string vector" where v: "VectorCreate True 5 = Some v" "vec_ok v" "contents v = []"
    by (simp add: VectorCreate_def vec_ok_def contents_def)
  then show "\<exists>v. TextSplit k True True (Some slots) (Some s) (Some d) 0 = Inr (Some v) \<and> vec_ok v \<and>
      contents v = map Some (words d s)"
    using split_loop_words [OF assms(1,2) v(2) assms(3,4)] by (simp add: TextSplit_def)
  show "TokenCount (Some s) (Some d) = length (words d s)"
  proof (cases "dropWhile (\<lambda>c. c \<in> set d) s")
    case Nil
    moreover from this have "words d s = []" by (subst words.simps) simp
    ultimately show ?thesis by (simp add: TokenCount_def default_delims_def drop_strspn Let_def)
  next
    case (Cons c cs)
    have p: "plain (c # cs)" using plain_dropWhile [OF assms(1), of "\<lambda>c. c \<in> set d"] Cons by simp
    have "c \<notin> set d" using Cons hd_dropWhile [of "\<lambda>c. c \<in> set d" s] by simp
    then show ?thesis using count_loop_plain [OF p, of d 1] words_word [OF Cons] Cons
      by (simp add: TokenCount_def default_delims_def drop_strspn Let_def del: count_loop.simps)
  qed
qed

theorem TextSplit_words_witness:
  "(\<exists>v. TextSplit 5 True True (Some (replicate VECTOR_GROWTH None)) (Some '',ab,,c,'') (Some '','') 0 = Inr (Some v) \<and>
      vec_ok v \<and> contents v = [Some ''ab'', Some ''c'']) \<and>
   TokenCount (Some '',ab,,c,'') (Some '','') = length [''ab'', ''c'']"
proof -
  have w: "words '','' '',ab,,c,'' = [''ab'', ''c'']" by (simp add: words.simps)
  have "plain '',ab,,c,''" by (simp add: is_quote_def BACKSLASH_def schar_def ord_def)
  then show ?thesis
    using TextSplit_words [of "'',ab,,c,''" "'',''" "replicate VECTOR_GROWTH None" 5] unfolding w
    by (simp add: BACKSLASH_def)
qed

text \<open>\<open>TokenNext\<close> undoes \<open>TokenQuote\<close>: when the quotes, the backslash and all delimiters are quoted and
  none of them is a letter with a meaning after a backslash, the quoted form of any non-empty string is read back as one
  token, the string itself, with nothing left.\<close>

lemma TokenQuote_TokenNext:
  assumes "s \<noteq> []" "BACKSLASH \<notin> set d" "list_all (\<lambda>c. TextBackslash c = c) d"
    "e = [BACKSLASH, CHR 0x22, CHR 0x27] @ d"
  shows "TokenNext True (TokenQuote True (Some s) (Some e)) stop (Some d) 0 = (Some s, None)"
proof -
  have q: "TokenQuote True (Some s) (Some e) = Some (token_quoted (set e) s)"
    by (simp add: TokenQuote_def token_quoted_def)
  have E: "\<And>c. is_quote c \<Longrightarrow> c \<in> set e" "BACKSLASH \<in> set e" "set d \<subseteq> set e"
    using assms(4) by (auto simp: is_quote_def)
  have B: "TextBackslash c = c" if "c \<in> set e" for c
  proof -
    have "TextBackslash BACKSLASH = BACKSLASH" "TextBackslash CHR 0x22 = CHR 0x22" "TextBackslash CHR 0x27 = CHR 0x27"
      by (simp_all add: TextBackslash_def BACKSLASH_def)
    then show ?thesis using assms(3,4) that by (auto simp: list_all_iff)
  qed
  have d: "token_delims (Some d) = d" using assms(2) by (auto simp: token_delims_def)
  note start = token_quoted_start [OF assms(1) E(3) assms(2)]
  then have t: "token_start 0 d (token_quoted (set e) s) = Some (token_quoted (set e) s)"
    by (cases "token_quoted (set e) s") (simp_all add: token_start_0)
  obtain bc where f: "find_end 0 d (-1) (-1) NUL False 0 (token_quoted (set e) s) = ([], NUL, False, bc)"
    using find_end_quoted [OF E] by blast
  have c: "copy_token 0 d (-1) (-1) NUL False bc (token_quoted (set e) s) = (s, [])"
    by (rule copy_token_quoted [OF E B])
  define u where "u = token_quoted (set e) s"
  have "bracket_pair 0 d u = (-1, -1)" by (simp add: bracket_pair_def)
  then show ?thesis using t f c unfolding q u_def [symmetric]
    by (simp add: TokenNext_def d Let_def)
qed

text \<open>What the hypotheses exclude. A backslash at the end leaves the escape flag set for the copy, which
  then converts the first character; the octet 0xFF counts as an open bracket, so later delimiters are not seen;
  an open bracket without its partner among the delimiters makes \<open>TextSplit\<close> collect empty tokens forever;
  and \<open>TokenSplitA\<close> stores its final null past an array that is full.\<close>

theorem TokenNext_trailing_backslash:
  "TokenNext True (Some [CHR ''a'', BACKSLASH]) None (Some '','') 0 = (Some [CHR 0x07], None)"
  by code_simp

theorem TokenNext_0xFF:
  "TokenNext True (Some [CHR ''a'', CHR 0xFF, CHR '','', CHR ''b'']) None (Some '','') 0 =
     (Some [CHR ''a'', CHR 0xFF, CHR '','', CHR ''b''], None)"
  by code_simp

lemma TokenNext_bracket:
  "TokenNext True (Some ''{a'') (Some ''{a'') (Some ''{'') TOKEN_KEEP_BRACKETS = (Some [], Some ''{a'')"
  by code_simp

theorem TextSplit_bracket_loops:
  "split_loop k True vmem (Some ''{a'') (Some ''{'') TOKEN_KEEP_BRACKETS v = Inl NoReturn"
  by (induction k arbitrary: v) (simp_all add: TokenNext_bracket)

theorem TokenSplitA_overrun: "TokenSplitA (Some ''a b'') None (Some [None]) 1 = Inl OutOfBounds"
  by code_simp

theorem TextJoin_empty: "TextJoin (Some (\<lambda>_. NUL)) '','' None = Inl OutOfBounds"
  by (simp add: TextJoin_def BufCreate_def BufInit_def VectorLength_def BufLength_def)

text \<open>Without a set of characters \<open>TokenQuote\<close> quotes the quotes only, so the string is taken apart at a blank.\<close>

lemma TokenQuote_default_set:
  "TokenNext True (TokenQuote True (Some ''a b'') None) None (Some '' '') 0 = (Some ''a'', Some ''b'')"
  by code_simp

end
