(* ===== verification/MimeModel.thy ===== *)
theory MimeModel
  imports Base64 GlobMatch
begin

text \<open>
  \<^verbatim>\<open>mail/mime.c\<close>: the MIME parser, a state machine fed one octet at a time. Two function pointers of the
  C record, \<open>source_state\<close> and \<open>decode_state\<close>, say what happens with the next octet; they are values of
  two datatypes here, and \<open>source_fn\<close> and \<open>decode_fn\<close> are the indirect calls. Octets are C \<open>int\<close> values,
  \<open>EOF\<close> being -1. The two buffers keep their size \<open>MIME_BUFFER_SIZE\<close>, which the header lets the builder
  choose; a store or a read outside one is a fault. The call-backs of the application are recorded: an
  event holds the hook point, what the call-backs can see there and which of them are called.
\<close>

section \<open>Data\<close>

definition EOF :: int where "EOF = -1"
definition ASCII_TAB :: int where "ASCII_TAB = 9"
definition ASCII_LF :: int where "ASCII_LF = 10"
definition ASCII_CR :: int where "ASCII_CR = 13"
definition ASCII_SPACE :: int where "ASCII_SPACE = 32"

lemmas ascii_defs = EOF_def ASCII_TAB_def ASCII_LF_def ASCII_CR_def ASCII_SPACE_def

record mime_buffer =
  len :: nat
  octets :: "int list"

datatype mime_encoding = MIME_NONE | MIME_BASE64 | MIME_QUOTED_PRINTABLE

datatype source_state =
    HdrStart | Hdr | HdrValue | HdrLF | HdrBdy | Bdy | BdyLF | Dash1 | Dash2 | Boundary

datatype decode_state = DecodeAdd | DecodeBase64 | QpLiteral | QpSoftLine | QpDecode | QpEqual

datatype hook_point =
    FreeHook | MsgStart | MsgFinish | HdrStarts | HeaderLine | HdrFinish | BodyStart | BodyFinish
  | SourceFlush | DecodeFlush | SourceOctet | DecodedOctet

datatype mime_error =
    MIME_ERROR_OK | MIME_ERROR_BREAK | MIME_ERROR_NULL | MIME_ERROR_INVALID_BYTE
  | MIME_ERROR_HEADER_NAME | MIME_ERROR_NO_EOH

text \<open>A hook: its data, and the points at which its function pointer is set. An event: the point, the
  octets the call-backs can see, and the data of those called, in order.\<close>

record mime_hook =
  hook_data :: nat
  hook_points :: "hook_point list"

datatype mime_event = Event (point: hook_point) (view: "int list") (called: "nat list")

record mime =
  b64_state :: b64
  is_multipart :: bool
  decode_state_cr :: bool
  has_content_type :: bool
  is_message_rfc822 :: bool
  encoding :: mime_encoding
  source_state :: source_state
  decode_state :: decode_state
  throw_ready :: bool
  source :: mime_buffer
  decode :: mime_buffer
  mime_part_number :: u32
  mime_part_length :: u64
  mime_body_length :: u64
  mime_body_decoded_length :: u64
  mime_message_length :: u64
  hooks :: "mime_hook list"
  trace :: "mime_event list"

text \<open>How a call ends when it does not return: a fault of the C program, or a long jump to the caller
  with an error code, which leaves the record as it is.\<close>

datatype mime_stop = Stop fault | Throw mime_error mime

definition checked :: "fault + 'a \<Rightarrow> mime_stop + 'a" where
  "checked x = (case x of Inl e \<Rightarrow> Inl (Stop e) | Inr y \<Rightarrow> Inr y)"

text \<open>\<open>ctype.h\<close> on an \<open>int\<close> that is an octet or \<open>EOF\<close>.\<close>

definition char_of_int :: "int \<Rightarrow> char" where
  "char_of_int x = chr (nat x)"

definition is_space :: "int \<Rightarrow> bool" where
  "is_space x \<longleftrightarrow> 0 \<le> x \<and> isspace (char_of_int x)"

definition is_alnum :: "int \<Rightarrow> bool" where
  "is_alnum x \<longleftrightarrow> 0 \<le> x \<and> isalnum (char_of_int x)"

definition is_digit :: "int \<Rightarrow> bool" where
  "is_digit x \<longleftrightarrow> 48 \<le> x \<and> x \<le> 57"

definition is_xdigit :: "int \<Rightarrow> bool" where
  "is_xdigit x \<longleftrightarrow> is_digit x \<or> 65 \<le> x \<and> x \<le> 70 \<or> 97 \<le> x \<and> x \<le> 102"

definition is_cntrl :: "int \<Rightarrow> bool" where
  "is_cntrl x \<longleftrightarrow> 0 \<le> x \<and> x < 32 \<or> x = 127"

definition is_graph :: "int \<Rightarrow> bool" where
  "is_graph x \<longleftrightarrow> 33 \<le> x \<and> x \<le> 126"

definition to_upper :: "int \<Rightarrow> int" where
  "to_upper x = (if 97 \<le> x \<and> x \<le> 122 then x - 32 else x)"

section \<open>Buffers\<close>

text \<open>\<open>buffer[length++] = x\<close>, \<open>buffer[i] = x\<close>, \<open>buffer[i]\<close>, \<open>--length\<close> on an \<open>unsigned\<close>, and the
  clearing of a buffer after a flush.\<close>

definition buf_push :: "int \<Rightarrow> mime_buffer \<Rightarrow> fault + mime_buffer" where
  "buf_push x b = andthen (store (octets b) (len b) (uchar x)) (\<lambda>os. Inr \<lparr>len = len b + 1, octets = os\<rparr>)"

definition buf_poke :: "nat \<Rightarrow> int \<Rightarrow> mime_buffer \<Rightarrow> fault + mime_buffer" where
  "buf_poke i x b = andthen (store (octets b) i (uchar x)) (\<lambda>os. Inr (b\<lparr>octets := os\<rparr>))"

definition buf_peek :: "nat \<Rightarrow> mime_buffer \<Rightarrow> fault + int" where
  "buf_peek i b = (if i < length (octets b) then Inr (octets b ! i) else Inl OutOfBounds)"

definition udec :: "nat \<Rightarrow> nat" where
  "udec n = (if n = 0 then 2 ^ 32 - 1 else n - 1)"

definition buf_clear :: "mime_buffer \<Rightarrow> fault + mime_buffer" where
  "buf_clear b =
     (if len b \<le> length (octets b)
      then Inr \<lparr>len = 0, octets = replicate (len b) 0 @ drop (len b) (octets b)\<rparr>
      else Inl OutOfBounds)"

definition buf_data :: "mime_buffer \<Rightarrow> int list" where
  "buf_data b = take (len b) (octets b)"

definition on_source :: "(mime_buffer \<Rightarrow> fault + mime_buffer) \<Rightarrow> mime \<Rightarrow> fault + mime" where
  "on_source f m = andthen (f (source m)) (\<lambda>b. Inr (m\<lparr>source := b\<rparr>))"

definition on_decode :: "(mime_buffer \<Rightarrow> fault + mime_buffer) \<Rightarrow> mime \<Rightarrow> fault + mime" where
  "on_decode f m = andthen (f (decode m)) (\<lambda>b. Inr (m\<lparr>decode := b\<rparr>))"

definition source_shorten :: "mime \<Rightarrow> mime" where
  "source_shorten m = m\<lparr>source := (source m)\<lparr>len := udec (len (source m))\<rparr>\<rparr>"

section \<open>Hooks\<close>

definition hook_view :: "hook_point \<Rightarrow> mime \<Rightarrow> int list" where
  "hook_view pt m =
     (case pt of HeaderLine \<Rightarrow> buf_data (source m) | SourceFlush \<Rightarrow> buf_data (source m)
      | DecodeFlush \<Rightarrow> buf_data (decode m) | _ \<Rightarrow> [])"

definition hooks_at :: "hook_point \<Rightarrow> mime \<Rightarrow> nat list" where
  "hooks_at pt m = map hook_data (filter (\<lambda>h. pt \<in> set (hook_points h)) (hooks m))"

definition mimeDoHook :: "hook_point \<Rightarrow> mime \<Rightarrow> mime" where
  "mimeDoHook pt m = m\<lparr>trace := trace m @ [Event pt (hook_view pt m) (hooks_at pt m)]\<rparr>"

definition mimeDoHookOctet :: "hook_point \<Rightarrow> int \<Rightarrow> mime \<Rightarrow> mime" where
  "mimeDoHookOctet pt ch m = m\<lparr>trace := trace m @ [Event pt [ch] (hooks_at pt m)]\<rparr>"

definition mimeHooksAdd :: "mime_hook \<Rightarrow> mime \<Rightarrow> mime" where
  "mimeHooksAdd h m = m\<lparr>hooks := h # hooks m\<rparr>"

definition mimeHdrStart :: "mime \<Rightarrow> mime" where
  "mimeHdrStart m = mimeDoHook HdrStarts m"

definition mimeHdrFinish :: "mime \<Rightarrow> mime" where
  "mimeHdrFinish m = mimeDoHook HdrFinish m"

definition mimeBodyStart :: "mime \<Rightarrow> mime" where
  "mimeBodyStart m = mimeDoHook BodyStart m"

definition mimeIsAnyHeader :: "mime \<Rightarrow> bool" where
  "mimeIsAnyHeader m \<longleftrightarrow> source_state m = HdrStart \<or> source_state m = Hdr \<or> source_state m = HdrValue"

definition mimeIsHeaders :: "mime \<Rightarrow> bool" where
  "mimeIsHeaders m \<longleftrightarrow> mime_part_number m = 0 \<and> mimeIsAnyHeader m"

definition mimeBodyFinish :: "mime \<Rightarrow> mime" where
  "mimeBodyFinish m = (if \<not> mimeIsAnyHeader m then mimeDoHook BodyFinish m else m)"

definition mimeSourceFlush :: "mime \<Rightarrow> fault + mime" where
  "mimeSourceFlush m =
     (if 0 < len (source m) then
        andthen (on_source (\<lambda>b. buf_poke (len b) 0 b) m) (\<lambda>m.
        on_source buf_clear (mimeDoHook SourceFlush m))
      else Inr m)"

definition mimeDecodeFlush :: "mime \<Rightarrow> fault + mime" where
  "mimeDecodeFlush m =
     (if 0 < len (decode m)
      then on_decode buf_clear (if \<not> mimeIsAnyHeader m then mimeDoHook DecodeFlush m else m)
      else Inr m)"

section \<open>Transfer decoders\<close>

definition qpHexDigit :: "int \<Rightarrow> int" where
  "qpHexDigit x = (if is_digit x then x - 48 else if is_xdigit x then 10 + to_upper x - 65 else -1)"

definition mimeDecodeAppend :: "int \<Rightarrow> mime \<Rightarrow> fault + mime" where
  "mimeDecodeAppend ch m =
     (let m = mimeDoHookOctet DecodedOctet ch m
      in andthen (if ch \<noteq> EOF
                  then on_decode (buf_push ch)
                         (m\<lparr>mime_body_decoded_length := mime_body_decoded_length m + 1\<rparr>)
                  else Inr m) (\<lambda>m.
         if ch = ASCII_LF \<or> ch = EOF \<or> length (octets (decode m)) - 1 \<le> len (decode m)
         then mimeDecodeFlush m else Inr m))"

definition mimeDecodeAdd :: "int \<Rightarrow> mime \<Rightarrow> fault + mime" where
  "mimeDecodeAdd ch m =
     (if ch = ASCII_CR \<and> \<not> decode_state_cr m then Inr (m\<lparr>decode_state_cr := True\<rparr>)
      else andthen (if decode_state_cr m
                    then andthen (mimeDecodeAppend ASCII_CR m) (\<lambda>m. Inr (m\<lparr>decode_state_cr := False\<rparr>))
                    else Inr m) (\<lambda>m.
           andthen (mimeDecodeAppend ch m) (\<lambda>m. on_decode (\<lambda>b. buf_poke (len b) 0 b) m)))"

definition mimeStateBase64 :: "int \<Rightarrow> mime \<Rightarrow> fault + mime" where
  "mimeStateBase64 ch m =
     (let (x, b) = b64Decode ch (b64_state m);
          m = m\<lparr>b64_state := b\<rparr>
      in if 0 \<le> x \<or> x = BASE64_EOF then mimeDecodeAdd x m else Inr m)"

definition mimeStateQpLiteral :: "int \<Rightarrow> mime \<Rightarrow> fault + mime" where
  "mimeStateQpLiteral ch m =
     (if ch = 61 then Inr (m\<lparr>decode_state := QpEqual\<rparr>) else mimeDecodeAdd ch m)"

definition mimeStateQpSoftLine :: "int \<Rightarrow> mime \<Rightarrow> fault + mime" where
  "mimeStateQpSoftLine ch m = mimeStateQpLiteral ch m"

definition mimeStateQpDecode :: "int \<Rightarrow> mime \<Rightarrow> fault + mime" where
  "mimeStateQpDecode ch m =
     andthen (buf_peek (len (decode m)) (decode m)) (\<lambda>v.
     andthen (if is_xdigit ch then mimeDecodeAdd (qpHexDigit v * 16 + qpHexDigit ch) m
              else andthen (mimeDecodeAdd 61 m) (\<lambda>m.
                   andthen (mimeDecodeAdd v m) (\<lambda>m.
                   mimeDecodeAdd ch m))) (\<lambda>m.
     Inr (m\<lparr>decode_state := QpLiteral\<rparr>)))"

definition mimeStateQpEqual :: "int \<Rightarrow> mime \<Rightarrow> fault + mime" where
  "mimeStateQpEqual ch m =
     (if ch = ASCII_CR then Inr m
      else if ch = ASCII_LF then Inr (m\<lparr>decode_state := QpSoftLine\<rparr>)
      else if is_xdigit ch then
        andthen (on_decode (\<lambda>b. buf_poke (len b) ch b) m) (\<lambda>m. Inr (m\<lparr>decode_state := QpDecode\<rparr>))
      else andthen (mimeDecodeAdd 61 (m\<lparr>decode_state := QpLiteral\<rparr>)) (\<lambda>m. mimeDecodeAdd ch m))"

definition decode_fn :: "decode_state \<Rightarrow> int \<Rightarrow> mime \<Rightarrow> fault + mime" where
  "decode_fn d ch m =
     (case d of DecodeAdd \<Rightarrow> mimeDecodeAdd ch m | DecodeBase64 \<Rightarrow> mimeStateBase64 ch m
      | QpLiteral \<Rightarrow> mimeStateQpLiteral ch m | QpSoftLine \<Rightarrow> mimeStateQpSoftLine ch m
      | QpDecode \<Rightarrow> mimeStateQpDecode ch m | QpEqual \<Rightarrow> mimeStateQpEqual ch m)"

definition mimeDecodeState :: "int \<Rightarrow> mime \<Rightarrow> fault + mime" where
  "mimeDecodeState ch m = (let m = mimeDoHookOctet SourceOctet ch m in decode_fn (decode_state m) ch m)"

text \<open>Several octets in a row.\<close>

primrec octet_loop :: "(int \<Rightarrow> mime \<Rightarrow> fault + mime) \<Rightarrow> int list \<Rightarrow> mime \<Rightarrow> fault + mime" where
  "octet_loop step [] m = Inr m"
| "octet_loop step (ch # cs) m = andthen (step ch m) (octet_loop step cs)"

abbreviation decode_octets :: "int list \<Rightarrow> mime \<Rightarrow> fault + mime" where
  "decode_octets \<equiv> octet_loop mimeDecodeState"

section \<open>Boundary lines\<close>

definition BCHARSNOSPACE :: string where
  "BCHARSNOSPACE = ''-=_'' @ [CHR 0x27] @ ''()+,./:?''"

definition mimeWeakBoundary :: "int \<Rightarrow> bool" where
  "mimeWeakBoundary ch \<longleftrightarrow> is_graph ch \<and> ch \<noteq> 60 \<and> ch \<noteq> 62"

definition mimeNoSpaceBoundary :: "int \<Rightarrow> bool" where
  "mimeNoSpaceBoundary ch \<longleftrightarrow> is_alnum ch \<or> in_set BCHARSNOSPACE (char_of_int ch)"

definition mimeStrictBoundary :: "int \<Rightarrow> bool" where
  "mimeStrictBoundary ch \<longleftrightarrow> is_alnum ch \<or> in_set (BCHARSNOSPACE @ '' '') (char_of_int ch)"

definition mimeIsBoundaryChar :: "int \<Rightarrow> bool" where
  "mimeIsBoundaryChar = mimeNoSpaceBoundary"

text \<open>The scan of the line in the source buffer from index \<open>i\<close>: where it stops, whether all characters so
  far are hyphens and the like, and whether a quoted-printable escape was seen.\<close>

function boundary_scan :: "nat \<Rightarrow> bool \<Rightarrow> bool \<Rightarrow> mime_buffer \<Rightarrow> fault + nat \<times> bool \<times> bool" where
  "boundary_scan i hyphens qp b =
     (if i < len b then
        andthen (buf_peek i b) (\<lambda>x.
          if \<not> mimeIsBoundaryChar x \<and> \<not> in_set [CHR 0x0D, CHR 0x0A] (char_of_int x)
          then Inr (i, hyphens, qp)
          else andthen (buf_peek (i - 1) b) (\<lambda>prior.
               boundary_scan (i + 1)
                 (hyphens \<and> in_set (''-='' @ [CHR 0x0D, CHR 0x0A]) (char_of_int x))
                 (qp \<or> is_xdigit x \<and> prior = 61) b))
      else Inr (i, hyphens, qp))"
  by pat_completeness auto
termination
  by (relation "measure (\<lambda>(i, hyphens, qp, b). len b - i)") auto

declare boundary_scan.simps [simp del]

definition mimeStateBoundary :: "int \<Rightarrow> mime \<Rightarrow> fault + mime" where
  "mimeStateBoundary ch m =
     (if ch = ASCII_LF \<or> length (octets (source m)) \<le> len (source m) then
        andthen (boundary_scan 2 True False (source m)) (\<lambda>(i, hyphens, qp).
          if \<not> hyphens \<and> (encoding m \<noteq> MIME_QUOTED_PRINTABLE \<or> \<not> qp) \<and> i = len (source m) then
            andthen (mimeDecodeState EOF (m\<lparr>decode_state_cr := False, decode_state := DecodeAdd\<rparr>)) (\<lambda>m.
            andthen (on_source (buf_poke 0 0)
              (m\<lparr>mime_part_length := mime_part_length m - of_nat (len (source m)),
                 mime_body_length := mime_body_length m - of_nat (len (source m)),
                 source := (source m)\<lparr>len := 0\<rparr>\<rparr>)) (\<lambda>m.
            let m = mimeBodyFinish m
            in Inr (m\<lparr>mime_part_number := mime_part_number m + 1, mime_part_length := 0,
                      has_content_type := False, is_message_rfc822 := False,
                      encoding := MIME_NONE, source_state := HdrStart\<rparr>)))
          else
            andthen (decode_octets (buf_data (source m)) (m\<lparr>decode_state_cr := False, source_state := Bdy\<rparr>)) (\<lambda>m.
            if ch \<noteq> ASCII_LF then mimeDecodeState ch m else Inr m))
      else Inr m)"

section \<open>Body states\<close>

definition mimeStateDash2 :: "int \<Rightarrow> mime \<Rightarrow> fault + mime" where
  "mimeStateDash2 ch m =
     (if is_space ch \<or> \<not> mimeIsBoundaryChar ch then
        andthen (decode_octets [ASCII_LF, 45, 45, ch] m) (\<lambda>m. Inr (m\<lparr>source_state := Bdy\<rparr>))
      else Inr (m\<lparr>source_state := Boundary\<rparr>))"

definition mimeStateDash1 :: "int \<Rightarrow> mime \<Rightarrow> fault + mime" where
  "mimeStateDash1 ch m =
     (if ch = 45 then Inr (m\<lparr>source_state := Dash2\<rparr>)
      else andthen (decode_octets [ASCII_LF, 45, ch] m) (\<lambda>m. Inr (m\<lparr>source_state := Bdy\<rparr>)))"

text \<open>At the end of a line: flush up to, but excluding, the newline, and put the newline back.\<close>

definition flush_line :: "mime \<Rightarrow> fault + mime" where
  "flush_line m =
     (let m = source_shorten m
      in andthen (if 0 < len (source m)
                  then andthen (buf_peek (len (source m) - 1) (source m)) (\<lambda>x. Inr (x = ASCII_CR))
                  else Inr False) (\<lambda>has_cr.
         andthen (mimeSourceFlush (if has_cr then source_shorten m else m)) (\<lambda>m.
         andthen (if has_cr then on_source (buf_push ASCII_CR) m else Inr m) (\<lambda>m.
         on_source (buf_push ASCII_LF) m))))"

definition mimeStateBdy :: "int \<Rightarrow> mime \<Rightarrow> fault + mime" where
  "mimeStateBdy ch m =
     (if ch = ASCII_LF then
        andthen (flush_line m) (\<lambda>m.
        if is_multipart m then Inr (m\<lparr>source_state := BdyLF\<rparr>) else mimeDecodeState ASCII_LF m)
      else mimeDecodeState ch m)"

definition mimeStateBdyLF :: "int \<Rightarrow> mime \<Rightarrow> fault + mime" where
  "mimeStateBdyLF ch m =
     (if is_multipart m \<and> ch = 45 then Inr (m\<lparr>source_state := Dash1\<rparr>)
      else if ch = ASCII_LF then andthen (mimeDecodeState ASCII_LF m) (\<lambda>m. mimeStateBdy ASCII_LF m)
      else
        andthen (mimeSourceFlush (if ch = ASCII_CR then source_shorten m else m)) (\<lambda>m.
        andthen (if ch = ASCII_CR then on_source (buf_push ASCII_CR) m else Inr m) (\<lambda>m.
        andthen (decode_octets [ASCII_LF, ch] m) (\<lambda>m.
        Inr (m\<lparr>source_state := Bdy\<rparr>)))))"

definition mimeStateHdrBdy :: "int \<Rightarrow> mime \<Rightarrow> fault + mime" where
  "mimeStateHdrBdy ch m =
     (let m = m\<lparr>source_state := Bdy\<rparr> in if ch = 45 then mimeStateBdyLF ch m else mimeStateBdy ch m)"

section \<open>Header states\<close>

definition next_part :: "mime \<Rightarrow> mime" where
  "next_part m =
     (let m = mimeBodyFinish m
      in m\<lparr>mime_part_number := mime_part_number m + 1, mime_part_length := 0,
           has_content_type := False, is_message_rfc822 := False,
           encoding := MIME_NONE, source_state := HdrStart\<rparr>)"

definition mimeStateEOH :: "int \<Rightarrow> mime \<Rightarrow> fault + mime" where
  "mimeStateEOH ch m =
     andthen (mimeSourceFlush m) (\<lambda>m.
     andthen (mimeDecodeFlush m) (\<lambda>m.
     let m = (mimeBodyStart (mimeHdrFinish (m\<lparr>mime_body_length := 0, mime_body_decoded_length := 0\<rparr>)))
               \<lparr>source_state := HdrBdy\<rparr>
     in Inr (if is_message_rfc822 m then next_part m else m)))"

text \<open>\<open>TextFind\<close> on the header line, which ends at the null stored after it.\<close>

definition header_has :: "string \<Rightarrow> mime \<Rightarrow> fault + bool" where
  "header_has pat m =
     andthen (TextFind (Some (map char_of_int (takeWhile (\<lambda>x. x \<noteq> 0) (octets (source m))))) (Some pat)
                (int (len (source m))) True) (\<lambda>r. Inr (0 \<le> r))"

definition header_line :: "mime \<Rightarrow> fault + mime" where
  "header_line m =
     andthen (header_has ''Content-Type:*multipart/*'' m) (\<lambda>multi.
     if multi then Inr (m\<lparr>is_multipart := True, has_content_type := True\<rparr>) else
     andthen (header_has ''Content-Type:*message/rfc822'' m) (\<lambda>msg.
     if msg then Inr (m\<lparr>has_content_type := True, is_message_rfc822 := True\<rparr>) else
     andthen (header_has ''Content-Type:*/*'' m) (\<lambda>typed.
     if typed then
       Inr (m\<lparr>has_content_type := True,
              decode_state := (if encoding m = MIME_NONE then DecodeAdd else decode_state m)\<rparr>) else
     andthen (header_has ''Content-Transfer-Encoding:*quoted-printable*'' m) (\<lambda>qp.
     if qp then Inr (m\<lparr>decode_state := QpLiteral, encoding := MIME_QUOTED_PRINTABLE\<rparr>) else
     andthen (header_has ''Content-Transfer-Encoding:*base64*'' m) (\<lambda>b64.
     if b64 then
       Inr (m\<lparr>decode_state := DecodeBase64, encoding := MIME_BASE64,
              b64_state := b64Reset (b64_state m)\<rparr>)
     else Inr m)))))"

definition mimeStateHdrLF :: "int \<Rightarrow> mime \<Rightarrow> fault + mime" where
  "mimeStateHdrLF ch m =
     (if ch = ASCII_CR then Inr (source_shorten m)
      else if ch = ASCII_SPACE \<or> ch = ASCII_TAB then
        andthen (on_source (buf_poke (udec (len (source m))) ASCII_SPACE) m) (\<lambda>m.
        Inr (m\<lparr>source_state := HdrValue\<rparr>))
      else
        andthen (if 0 < len (source m) then
                   let m = source_shorten (m\<lparr>source_state := Hdr\<rparr>)
                   in andthen (on_source (\<lambda>b. buf_poke (len b) 0 b) m) (\<lambda>m.
                      andthen (header_line m) (\<lambda>m.
                      andthen (mimeSourceFlush (mimeDoHook HeaderLine m)) (\<lambda>m.
                      on_source (buf_push ch) m)))
                 else Inr m) (\<lambda>m.
        if ch = ASCII_LF then mimeStateEOH ch m else Inr m))"

definition mimeStateHdrValue :: "int \<Rightarrow> mime \<Rightarrow> fault + mime" where
  "mimeStateHdrValue ch m =
     (if ch = ASCII_LF then
        let m = source_shorten m
        in andthen (if 0 < len (source m)
                    then andthen (buf_peek (len (source m) - 1) (source m)) (\<lambda>x. Inr (x = ASCII_CR))
                    else Inr False) (\<lambda>has_cr.
           Inr ((if has_cr then source_shorten m else m)\<lparr>source_state := HdrLF\<rparr>))
      else Inr m)"

text \<open>The loop of \<open>mimeStateHdr\<close> that sends the octets gathered so far through the body states; \<open>call\<close> is
  the indirect call of the state function. The fuel is one pass for every place of the buffer.\<close>

fun replay :: "(int \<Rightarrow> mime \<Rightarrow> mime_stop + mime) \<Rightarrow> nat \<Rightarrow> nat \<Rightarrow> mime \<Rightarrow> mime_stop + mime" where
  "replay call 0 i m = Inl (Stop NoReturn)"
| "replay call (Suc n) i m =
     (if i < len (source m)
      then andthen (checked (buf_peek i (source m))) (\<lambda>x.
           andthen (call x m) (\<lambda>m. replay call n (i + 1) m))
      else Inr m)"

definition from_line :: "mime \<Rightarrow> bool" where
  "from_line m \<longleftrightarrow> take 5 (octets (source m)) = map (\<lambda>c. int (ord c)) ''From ''"

definition mimeStateHdr :: "(int \<Rightarrow> mime \<Rightarrow> mime_stop + mime) \<Rightarrow> int \<Rightarrow> mime \<Rightarrow> mime_stop + mime" where
  "mimeStateHdr call ch m =
     (if ch = 58 \<or> ch = ASCII_SPACE \<and> mime_part_number m = 0 \<and> mime_part_length m = 5 \<and> from_line m
      then Inr (m\<lparr>source_state := HdrValue\<rparr>)
      else if ch = ASCII_CR then Inr m
      else if is_space ch \<or> is_cntrl ch then
        andthen (if ch = ASCII_LF then
                   if len (source m) = 1 then Inr (source_shorten m)
                   else if len (source m) = 2 \<and> hd (octets (source m)) = ASCII_CR
                   then Inr (source_shorten (source_shorten m))
                   else if throw_ready m then Inl (Throw MIME_ERROR_NO_EOH m)
                   else Inr m
                 else if throw_ready m then Inl (Throw MIME_ERROR_HEADER_NAME m)
                 else Inr m) (\<lambda>m.
        let m = (mimeBodyStart (mimeHdrFinish m))\<lparr>source_state := HdrBdy\<rparr>
        in replay call (length (octets (source m)) + 1) 0 m)
      else Inr m)"

definition mimeStateHdrStart :: "(int \<Rightarrow> mime \<Rightarrow> mime_stop + mime) \<Rightarrow> int \<Rightarrow> mime \<Rightarrow> mime_stop + mime" where
  "mimeStateHdrStart call ch m = mimeStateHdr call ch (mimeDoHook HdrStarts (m\<lparr>source_state := Hdr\<rparr>))"

text \<open>The indirect call of the source state. \<open>mimeStateHdr\<close> makes such calls itself; the first argument
  bounds their nesting.\<close>

primrec source_fn :: "nat \<Rightarrow> int \<Rightarrow> mime \<Rightarrow> mime_stop + mime" where
  "source_fn 0 ch m = Inl (Stop NoReturn)"
| "source_fn (Suc depth) ch m =
     (case source_state m of
        HdrStart \<Rightarrow> mimeStateHdrStart (source_fn depth) ch m
      | Hdr \<Rightarrow> mimeStateHdr (source_fn depth) ch m
      | HdrValue \<Rightarrow> checked (mimeStateHdrValue ch m)
      | HdrLF \<Rightarrow> checked (mimeStateHdrLF ch m)
      | HdrBdy \<Rightarrow> checked (mimeStateHdrBdy ch m)
      | Bdy \<Rightarrow> checked (mimeStateBdy ch m)
      | BdyLF \<Rightarrow> checked (mimeStateBdyLF ch m)
      | Dash1 \<Rightarrow> checked (mimeStateDash1 ch m)
      | Dash2 \<Rightarrow> checked (mimeStateDash2 ch m)
      | Boundary \<Rightarrow> checked (mimeStateBoundary ch m))"

section \<open>The interface\<close>

definition mimeHeadersFirst :: "bool \<Rightarrow> mime \<Rightarrow> mime" where
  "mimeHeadersFirst flag m = m\<lparr>source_state := (if flag then HdrStart else Bdy)\<rparr>"

definition mimeReset :: "mime \<Rightarrow> fault + mime" where
  "mimeReset m =
     (let m = mimeHeadersFirst True (m\<lparr>b64_state := b64Reset (b64_state m)\<rparr>)
      in andthen (mimeSourceFlush (m\<lparr>decode_state_cr := False, decode_state := DecodeAdd\<rparr>)) (\<lambda>m.
         andthen (mimeDecodeFlush m) (\<lambda>m.
         Inr (m\<lparr>is_multipart := False, has_content_type := False, is_message_rfc822 := False,
                encoding := MIME_NONE, mime_part_number := 0, mime_part_length := 0,
                mime_body_length := 0, mime_body_decoded_length := 0, mime_message_length := 0\<rparr>))))"

text \<open>\<open>mimeCreate\<close> with buffers of \<open>n\<close> octets; the record comes from \<open>calloc\<close>, so it is all zero, and
  the null function pointers are set by \<open>mimeReset\<close>.\<close>

definition mimeZero :: "nat \<Rightarrow> mime" where
  "mimeZero n =
     \<lparr>b64_state = \<lparr>hold = 0, st = START\<rparr>, is_multipart = False, decode_state_cr = False,
      has_content_type = False, is_message_rfc822 = False, encoding = MIME_NONE,
      source_state = HdrStart, decode_state = DecodeAdd, throw_ready = False,
      source = \<lparr>len = 0, octets = replicate n 0\<rparr>, decode = \<lparr>len = 0, octets = replicate n 0\<rparr>,
      mime_part_number = 0, mime_part_length = 0, mime_body_length = 0,
      mime_body_decoded_length = 0, mime_message_length = 0, hooks = [], trace = []\<rparr>"

definition mimeCreate :: "nat \<Rightarrow> bool \<Rightarrow> fault + mime option" where
  "mimeCreate n calloc_ok =
     (if calloc_ok then andthen (mimeReset (mimeZero n)) (\<lambda>m. Inr (Some m)) else Inr None)"

definition mimeFree :: "mime option \<Rightarrow> mime option" where
  "mimeFree m = map_option (mimeDoHook FreeHook) m"

definition mimeMsgStart :: "mime \<Rightarrow> fault + mime" where
  "mimeMsgStart m = andthen (mimeReset m) (\<lambda>m. Inr (mimeDoHook MsgStart m))"

definition mimeMsgFinish :: "mime \<Rightarrow> mime" where
  "mimeMsgFinish m = mimeDoHook MsgFinish m"

text \<open>The null test of \<open>mimeNextCh\<close> reads \<open>m->throw.ready\<close> first, so a null pointer is a fault.\<close>

definition mimeNextCh :: "mime option \<Rightarrow> int \<Rightarrow> mime_stop + mime_error \<times> mime" where
  "mimeNextCh mo ch =
     (case mo of
        None \<Rightarrow> Inl (Stop OutOfBounds)
      | Some m \<Rightarrow>
          if ch \<noteq> EOF \<and> (ch < 0 \<or> 255 < ch) then
            if throw_ready m then Inl (Throw MIME_ERROR_INVALID_BYTE m)
            else Inr (MIME_ERROR_INVALID_BYTE, m)
          else
            andthen (if ch \<noteq> EOF then
                       andthen (checked (on_source (buf_push ch)
                         (m\<lparr>mime_part_length := mime_part_length m + 1,
                            mime_body_length := mime_body_length m + 1,
                            mime_message_length := mime_message_length m + 1\<rparr>))) (\<lambda>m.
                       source_fn 2 ch m)
                     else Inr m) (\<lambda>m.
            andthen (if ch = EOF then checked (andthen (mimeDecodeState EOF m) mimeDecodeFlush)
                     else Inr m) (\<lambda>m.
            andthen (if ch = EOF \<or> length (octets (source m)) - 1 \<le> len (source m)
                     then checked (mimeSourceFlush m) else Inr m) (\<lambda>m.
            Inr (MIME_ERROR_OK, if ch = EOF then mimeBodyFinish m else m)))))"

text \<open>A client that feeds the octets of a message one after the other.\<close>

fun mimeFeed :: "int list \<Rightarrow> mime \<Rightarrow> mime_stop + mime" where
  "mimeFeed [] m = Inr m"
| "mimeFeed (ch # cs) m = andthen (mimeNextCh (Some m) ch) (\<lambda>(_, m). mimeFeed cs m)"

end
