(* ===== verification/MimeDecoders.thy ===== *)
theory MimeDecoders
  imports MimeModel
begin

text \<open>
  The transfer decoders of \<^verbatim>\<open>mail/mime.c\<close>: each changes only the decoder's part of the record, keeps within the
  decode buffer and passes octets on to the call-backs of the application. Locale \<open>transfer_decoder\<close> is the
  contract of one function that \<open>decode_state\<close> may point to, locale \<open>octet_stream\<close> that of the indirect
  call, which the source states rely on.
\<close>

section \<open>What a decoder may change\<close>

text \<open>The record without the decoder's part.\<close>

definition source_side :: "mime \<Rightarrow> mime" where
  "source_side m = m\<lparr>b64_state := \<lparr>hold = 0, st = START\<rparr>, decode_state_cr := False,
     decode_state := DecodeAdd, decode := \<lparr>len = 0, octets = []\<rparr>, mime_body_decoded_length := 0, trace := []\<rparr>"

lemma source_sideD:
  assumes "source_side m' = source_side m"
  shows "source m' = source m" "source_state m' = source_state m" "is_multipart m' = is_multipart m"
    "encoding m' = encoding m" "throw_ready m' = throw_ready m" "hooks m' = hooks m"
    "mime_part_number m' = mime_part_number m" "mime_part_length m' = mime_part_length m"
    "mime_body_length m' = mime_body_length m" "mime_message_length m' = mime_message_length m"
    "is_message_rfc822 m' = is_message_rfc822 m" "has_content_type m' = has_content_type m"
    "mimeIsAnyHeader m' = mimeIsAnyHeader m"
  using assms by (cases m; cases m'; simp add: source_side_def mimeIsAnyHeader_def)+

definition octets_at :: "hook_point \<Rightarrow> mime \<Rightarrow> int list" where
  "octets_at pt m = concat (map view (filter (\<lambda>e. point e = pt) (trace m)))"

definition decoded :: "mime \<Rightarrow> int list" where
  "decoded m = filter (\<lambda>x. x \<noteq> EOF) (octets_at DecodedOctet m)"

text \<open>The carriage return that \<open>mimeDecodeAdd\<close> holds back.\<close>

definition held :: "mime \<Rightarrow> int list" where
  "held m = (if decode_state_cr m then [ASCII_CR] else [])"

definition decode_room :: "mime \<Rightarrow> bool" where
  "decode_room m \<longleftrightarrow> len (decode m) + 2 \<le> length (octets (decode m)) \<and> list_all octet (octets (decode m))"

text \<open>\<open>gives x m m'\<close>: only the decoder's part changed, and \<open>x\<close> is what it passed on.\<close>

definition gives :: "int list \<Rightarrow> mime \<Rightarrow> mime \<Rightarrow> bool" where
  "gives x m m' \<longleftrightarrow>
     source_side m' = source_side m \<and> decode_room m' \<and>
     length (octets (decode m')) = length (octets (decode m)) \<and>
     octets_at SourceFlush m' = octets_at SourceFlush m \<and>
     filter (\<lambda>e. point e \<notin> {SourceOctet, DecodedOctet, DecodeFlush}) (trace m') =
       filter (\<lambda>e. point e \<notin> {SourceOctet, DecodedOctet, DecodeFlush}) (trace m) \<and>
     decoded m' @ held m' = decoded m @ held m @ x \<and>
     (mimeIsAnyHeader m \<or>
      octets_at DecodeFlush m' @ buf_data (decode m') @ held m' =
      octets_at DecodeFlush m @ buf_data (decode m) @ held m @ x)"

lemma gives_trans:
  assumes "gives x m m'" "gives y m' m''"
  shows "gives (x @ y) m m''"
proof -
  have "mimeIsAnyHeader m' = mimeIsAnyHeader m"
    using assms(1) by (auto simp: gives_def dest: source_sideD(13))
  then show ?thesis using assms unfolding gives_def by (metis append.assoc)
qed

lemma uchar_octet [simp]: "octet x \<Longrightarrow> uchar x = x" "octet (uchar x)"
  by (simp_all add: octet_def uchar_def)

lemma octet_EOF [simp]: "\<not> octet EOF" "octet x \<Longrightarrow> x \<noteq> EOF" "octet x \<Longrightarrow> 0 \<le> x"
  by (auto simp: octet_def EOF_def)

lemma octet_consts [simp]: "octet ASCII_CR" "octet ASCII_LF" "octet 61" "octet 45" "octet 0" "octet ASCII_SPACE"
  by (simp_all add: octet_def ascii_defs)

lemma octets_at_event [simp]:
  "octets_at pt (m\<lparr>trace := trace m' @ [e]\<rparr>) = octets_at pt (m\<lparr>trace := trace m'\<rparr>) @ (if point e = pt then view e else [])"
  by (simp add: octets_at_def)

lemma list_all_update: "list_all P xs \<Longrightarrow> P x \<Longrightarrow> list_all P (xs[i := x])"
  by (auto simp: list_all_iff dest: set_update_subset_insert [THEN subsetD])

lemma take_Suc_update: "n < length xs \<Longrightarrow> take (Suc n) (xs[n := x]) = take n xs @ [x]"
  by (simp add: take_Suc_conv_app_nth)

lemma mimeDecodeFlush_gives:
  assumes "len (decode m) + 1 \<le> length (octets (decode m))" "2 \<le> length (octets (decode m))" "list_all octet (octets (decode m))"
  shows "runs (\<lambda>m'. gives [] m m' \<and> len (decode m') = 0 \<and> decode_state m' = decode_state m \<and> held m' = held m \<and> b64_state m' = b64_state m)
           (mimeDecodeFlush m)"
  using assms
  by (auto simp: mimeDecodeFlush_def on_decode_def buf_clear_def mimeDoHook_def gives_def source_side_def
      decode_room_def octets_at_def decoded_def held_def buf_data_def hook_view_def list_all_iff
      dest: in_set_dropD)


text \<open>What a decoder keeps besides.\<close>

definition same_mode :: "mime \<Rightarrow> mime \<Rightarrow> bool" where
  "same_mode m m' \<longleftrightarrow> decode_state m' = decode_state m \<and> b64_state m' = b64_state m"

lemma same_mode_trans: "same_mode m m' \<Longrightarrow> same_mode m' m'' \<Longrightarrow> same_mode m m''"
  by (simp add: same_mode_def)

text \<open>An octet on its way through \<open>mimeDecodeAppend\<close>, before the buffer may be flushed.\<close>

definition appended :: "int \<Rightarrow> mime \<Rightarrow> mime" where
  "appended ch m =
     (let m = mimeDoHookOctet DecodedOctet ch m
      in if ch = EOF then m
         else m\<lparr>mime_body_decoded_length := mime_body_decoded_length m + 1,
                decode := \<lparr>len = len (decode m) + 1, octets = (octets (decode m))[len (decode m) := ch]\<rparr>\<rparr>)"

lemma appended_facts:
  assumes "decode_room m" "octet ch \<or> ch = EOF" "decode_state_cr m = cr"
  shows "source_side (appended ch m) = source_side m" "same_mode m (appended ch m)" "held (appended ch m) = held m"
    "octets_at SourceFlush (appended ch m) = octets_at SourceFlush m"
    "decoded (appended ch m) = decoded m @ (if ch = EOF then [] else [ch])"
    "octets_at DecodeFlush (appended ch m) = octets_at DecodeFlush m"
    "buf_data (decode (appended ch m)) = buf_data (decode m) @ (if ch = EOF then [] else [ch])"
    "length (octets (decode (appended ch m))) = length (octets (decode m))"
    "list_all octet (octets (decode (appended ch m)))"
    "len (decode (appended ch m)) + 1 \<le> length (octets (decode m))"
    "filter (\<lambda>e. point e \<notin> {SourceOctet, DecodedOctet, DecodeFlush}) (trace (appended ch m)) =
       filter (\<lambda>e. point e \<notin> {SourceOctet, DecodedOctet, DecodeFlush}) (trace m)"
  using assms
  by (auto simp: appended_def mimeDoHookOctet_def source_side_def same_mode_def held_def decode_room_def
      octets_at_def decoded_def buf_data_def take_Suc_update intro: list_all_update)

lemma mimeDecodeAppend_appended:
  assumes "decode_room m" "octet ch \<or> ch = EOF"
  shows "mimeDecodeAppend ch m =
    (if ch = ASCII_LF \<or> ch = EOF \<or> length (octets (decode m)) - 1 \<le> len (decode (appended ch m))
     then mimeDecodeFlush (appended ch m) else Inr (appended ch m))"
  using assms
  by (auto simp: mimeDecodeAppend_def appended_def on_decode_def buf_push_def decode_room_def
      mimeDoHookOctet_def Let_def)

text \<open>Apart from a carriage return that is held, the octet is passed on.\<close>

lemma mimeDecodeAppend_gives:
  assumes "decode_room m" "octet ch \<or> ch = EOF" "held m = []"
  shows "runs (\<lambda>m'. gives (if ch = EOF then [] else [ch]) m m' \<and> same_mode m m' \<and> held m' = [] \<and>
             (ch = EOF \<longrightarrow> len (decode m') = 0)) (mimeDecodeAppend ch m)"
proof -
  let ?a = "appended ch m"
  note facts = appended_facts [OF assms(1,2) refl]
  have hdr: "mimeIsAnyHeader ?a = mimeIsAnyHeader m" by (rule source_sideD(13) [OF facts(1)])
  show ?thesis
  proof (cases "ch = ASCII_LF \<or> ch = EOF \<or> length (octets (decode m)) - 1 \<le> len (decode ?a)")
    case True
    have "runs (\<lambda>m'. gives [] ?a m' \<and> len (decode m') = 0 \<and> decode_state m' = decode_state ?a \<and> held m' = held ?a
        \<and> b64_state m' = b64_state ?a) (mimeDecodeFlush ?a)"
      using facts(8,9,10) assms(1) by (intro mimeDecodeFlush_gives) (auto simp: decode_room_def)
    then show ?thesis unfolding mimeDecodeAppend_appended [OF assms(1,2)] if_P [OF True]
      by (rule runs_mono) (use facts hdr assms(3) in \<open>auto simp: gives_def same_mode_def\<close>)
  next
    case False
    then have "decode_room ?a" using facts(8,9) by (simp add: decode_room_def) arith
    then show ?thesis unfolding mimeDecodeAppend_appended [OF assms(1,2)] if_not_P [OF False]
      using facts assms(3) False by (simp add: gives_def)
  qed
qed

lemma on_decode_cr:
  "on_decode f (m\<lparr>decode_state_cr := cr\<rparr>) = andthen (on_decode f m) (\<lambda>m. Inr (m\<lparr>decode_state_cr := cr\<rparr>))"
  by (cases m) (simp add: on_decode_def andthen_assoc)

lemma mimeDoHook_cr:
  "mimeDoHook pt (m\<lparr>decode_state_cr := cr\<rparr>) = (mimeDoHook pt m)\<lparr>decode_state_cr := cr\<rparr>"
  "mimeDoHookOctet pt ch (m\<lparr>decode_state_cr := cr\<rparr>) = (mimeDoHookOctet pt ch m)\<lparr>decode_state_cr := cr\<rparr>"
  by (simp_all add: mimeDoHook_def mimeDoHookOctet_def hook_view_def hooks_at_def cong: hook_point.case_cong)

lemma mimeDecodeFlush_cr:
  "mimeDecodeFlush (m\<lparr>decode_state_cr := cr\<rparr>) = andthen (mimeDecodeFlush m) (\<lambda>m. Inr (m\<lparr>decode_state_cr := cr\<rparr>))"
proof -
  have "mimeIsAnyHeader (m\<lparr>decode_state_cr := cr\<rparr>) = mimeIsAnyHeader m" by (simp add: mimeIsAnyHeader_def)
  then show ?thesis by (simp add: mimeDecodeFlush_def mimeDoHook_cr on_decode_cr)
qed

lemma mimeDecodeAppend_cr:
  "mimeDecodeAppend ch (m\<lparr>decode_state_cr := cr\<rparr>) = andthen (mimeDecodeAppend ch m) (\<lambda>m. Inr (m\<lparr>decode_state_cr := cr\<rparr>))"
proof -
  have upd: "mime_body_decoded_length_update f (n\<lparr>decode_state_cr := cr\<rparr>) =
    (mime_body_decoded_length_update f n)\<lparr>decode_state_cr := cr\<rparr>" for f n
    by (cases n) simp
  show ?thesis
    by (simp add: mimeDecodeAppend_def Let_def mimeDoHook_cr upd on_decode_cr andthen_assoc mimeDecodeFlush_cr
        if_distrib [of "\<lambda>x. andthen x _"] cong: if_cong)
qed

lemma poke_null_gives:
  assumes "decode_room m"
  shows "runs (\<lambda>m'. gives [] m m' \<and> same_mode m m' \<and> held m' = held m \<and> len (decode m') = len (decode m))
    (on_decode (\<lambda>b. buf_poke (len b) 0 b) m)"
  using assms
  by (auto simp: on_decode_def buf_poke_def decode_room_def gives_def source_side_def same_mode_def held_def
      octets_at_def decoded_def buf_data_def intro: list_all_update)

lemma gives_refl: "decode_room m \<Longrightarrow> gives [] m m"
  by (simp add: gives_def)

lemma gives_room: "gives x m m' \<Longrightarrow> decode_room m'"
  by (simp add: gives_def)

text \<open>The whole of \<open>mimeDecodeAdd\<close>: the end of the input passes the held octet on.\<close>

lemma mimeDecodeAdd_gives:
  assumes "decode_room m" "octet ch \<or> ch = EOF"
  shows "runs (\<lambda>m'. gives (if ch = EOF then [] else [ch]) m m' \<and> same_mode m m' \<and>
             (ch = EOF \<longrightarrow> held m' = [] \<and> len (decode m') = 0)) (mimeDecodeAdd ch m)"
proof (cases "ch = ASCII_CR \<and> \<not> decode_state_cr m")
  case True
  then show ?thesis using assms(1)
    by (auto simp: mimeDecodeAdd_def gives_def source_side_def same_mode_def held_def octets_at_def decoded_def
        decode_room_def mimeIsAnyHeader_def)
next
  case False
  let ?c = "m\<lparr>decode_state_cr := False\<rparr>"
  have rest: "runs (\<lambda>m'. gives (if ch = EOF then [] else [ch]) n m' \<and> same_mode n m' \<and> held m' = [] \<and>
      (ch = EOF \<longrightarrow> len (decode m') = 0))
      (andthen (mimeDecodeAppend ch n) (\<lambda>m. on_decode (\<lambda>b. buf_poke (len b) 0 b) m))"
    if n: "decode_room n" "held n = []" for n
    unfolding runs_simps
  proof (rule runs_mono [OF mimeDecodeAppend_gives [OF n(1) assms(2) n(2)]])
    fix m' assume m': "gives (if ch = EOF then [] else [ch]) n m' \<and> same_mode n m' \<and> held m' = [] \<and>
      (ch = EOF \<longrightarrow> len (decode m') = 0)"
    show "runs (\<lambda>m'. gives (if ch = EOF then [] else [ch]) n m' \<and> same_mode n m' \<and> held m' = [] \<and>
      (ch = EOF \<longrightarrow> len (decode m') = 0))
        (on_decode (\<lambda>b. buf_poke (len b) 0 b) m')"
      by (rule runs_mono [OF poke_null_gives [OF gives_room]])
        (use m' gives_trans [of _ n m' "[]"] in \<open>auto intro: same_mode_trans\<close>)
  qed
  show ?thesis
  proof (cases "decode_state_cr m")
    case cr: True
    have c: "decode_room ?c" "held ?c = []" using assms(1) by (simp_all add: decode_room_def held_def)
    have "runs (\<lambda>m'. gives [ASCII_CR] ?c m' \<and> same_mode ?c m' \<and> held m' = []) (mimeDecodeAppend ASCII_CR ?c)"
      using mimeDecodeAppend_gives [OF c(1) _ c(2), of ASCII_CR] by simp
    then have first: "runs (\<lambda>m'. gives [] m m' \<and> same_mode m m' \<and> held m' = []) (mimeDecodeAppend ASCII_CR ?c)"
      by (rule runs_mono)
        (use cr in \<open>auto simp: gives_def source_side_def same_mode_def held_def octets_at_def decoded_def mimeIsAnyHeader_def\<close>)
    have eq: "mimeDecodeAdd ch m = andthen (mimeDecodeAppend ASCII_CR ?c) (\<lambda>m.
        andthen (mimeDecodeAppend ch m) (\<lambda>m. on_decode (\<lambda>b. buf_poke (len b) 0 b) m))"
      using cr by (simp add: mimeDecodeAdd_def mimeDecodeAppend_cr [symmetric])
    show ?thesis unfolding eq runs_simps(3) [of _ "mimeDecodeAppend ASCII_CR ?c"]
      by (rule runs_mono [OF first], rule runs_mono [OF rest])
        (auto dest: gives_room gives_trans [of "[]"] intro: same_mode_trans)
  next
    case no: False
    then have "mimeDecodeAdd ch m = andthen (mimeDecodeAppend ch m) (\<lambda>m. on_decode (\<lambda>b. buf_poke (len b) 0 b) m)"
      using False by (simp add: mimeDecodeAdd_def)
    then show ?thesis using rest [OF assms(1)] no by (auto simp: held_def elim: runs_mono simp del: runs_simps)
  qed
qed


section \<open>The contract of a transfer decoder\<close>

text \<open>In the state between the two digits of a quoted-printable escape, the first of them waits behind
  the data in the buffer.\<close>

definition decode_ok :: "mime \<Rightarrow> bool" where
  "decode_ok m \<longleftrightarrow> decode_room m \<and> (decode_state m = QpDecode \<longrightarrow> is_xdigit (octets (decode m) ! len (decode m)))"

lemma decode_ok_room [simp]: "decode_ok m \<Longrightarrow> decode_room m"
  by (simp add: decode_ok_def)

locale octet_stream =
  fixes step :: "int \<Rightarrow> mime \<Rightarrow> fault + mime"
  assumes step_gives: "decode_ok m \<Longrightarrow> octet ch \<or> ch = EOF \<Longrightarrow>
    runs (\<lambda>m'. decode_ok m' \<and> (\<exists>x. gives x m m')) (step ch m)"
begin

lemma loop_gives:
  "decode_ok m \<Longrightarrow> list_all (\<lambda>ch. octet ch \<or> ch = EOF) chs \<Longrightarrow>
    runs (\<lambda>m'. decode_ok m' \<and> (\<exists>x. gives x m m')) (octet_loop step chs m)"
proof (induction chs arbitrary: m)
  case Nil
  then show ?case using gives_refl [of m] by auto
next
  case (Cons ch chs)
  have first: "runs (\<lambda>m'. decode_ok m' \<and> (\<exists>x. gives x m m')) (step ch m)" using Cons.prems step_gives by simp
  show ?case unfolding octet_loop.simps runs_simps
    by (rule runs_mono [OF first], elim conjE exE, rule runs_mono [OF Cons.IH])
      (use Cons.prems(2) in \<open>auto intro: gives_trans\<close>)
qed

end

text \<open>A decoder is responsible for one value of the function pointer; it may set it to another one.\<close>

locale transfer_decoder =
  fixes mode :: decode_state and decoder :: "int \<Rightarrow> mime \<Rightarrow> fault + mime"
  assumes decoder_gives: "decode_ok m \<Longrightarrow> decode_state m = mode \<Longrightarrow> octet ch \<or> ch = EOF \<Longrightarrow>
    runs (\<lambda>m'. decode_ok m' \<and> (\<exists>x. gives x m m')) (decoder ch m)"

lemma mode_change_gives:
  "decode_room m \<Longrightarrow> gives [] m (m\<lparr>decode_state := d\<rparr>)" "decode_room m \<Longrightarrow> gives [] m (m\<lparr>b64_state := b\<rparr>)"
  by (simp_all add: gives_def source_side_def decode_room_def octets_at_def decoded_def held_def)

lemma mode_change_room [simp]:
  "decode_room (m\<lparr>decode_state := d\<rparr>) = decode_room m" "decode_room (m\<lparr>b64_state := b\<rparr>) = decode_room m"
  by (simp_all add: decode_room_def)

lemma decode_ok_other: "decode_room m \<Longrightarrow> decode_state m \<noteq> QpDecode \<Longrightarrow> decode_ok m"
  by (simp add: decode_ok_def)

lemma mimeDecodeAdd_ok:
  assumes "decode_room m" "decode_state m \<noteq> QpDecode" "octet ch \<or> ch = EOF"
  shows "runs (\<lambda>m'. decode_ok m' \<and> decode_state m' = decode_state m \<and> gives (if ch = EOF then [] else [ch]) m m')
    (mimeDecodeAdd ch m)"
  by (rule runs_mono [OF mimeDecodeAdd_gives [OF assms(1,3)]])
    (use assms(2) in \<open>auto simp: same_mode_def intro!: decode_ok_other dest: gives_room\<close>)

interpretation literal: transfer_decoder DecodeAdd mimeDecodeAdd
  by unfold_locales (rule runs_mono [OF mimeDecodeAdd_ok], auto)

lemma b64Decode_octet: "0 \<le> fst (b64Decode x b) \<Longrightarrow> octet (fst (b64Decode x b))"
  by (auto simp: b64Decode_def decode_value_def Let_def b64_codes split: b64_state.splits if_splits)

lemma mimeStateBase64_ok:
  assumes "decode_ok m" "decode_state m \<noteq> QpDecode"
  shows "runs (\<lambda>m'. decode_ok m' \<and> decode_state m' = decode_state m \<and>
      (let x = fst (b64Decode ch (b64_state m)) in gives (if 0 \<le> x then [x] else []) m m')) (mimeStateBase64 ch m)"
proof -
  obtain x b where x: "b64Decode ch (b64_state m) = (x, b)" by (cases "b64Decode ch (b64_state m)")
  let ?m = "m\<lparr>b64_state := b\<rparr>"
  have g: "gives [] m ?m" "decode_room ?m" using assms(1) mode_change_gives by auto
  have x': "octet x" if "0 \<le> x" using b64Decode_octet [of ch "b64_state m"] x that by simp
  have "runs (\<lambda>m'. decode_ok m' \<and> decode_state m' = decode_state ?m \<and> gives (if x = EOF then [] else [x]) ?m m')
      (mimeDecodeAdd x ?m)" if "0 \<le> x \<or> x = EOF"
    using that assms(2) g(2) x' by (intro mimeDecodeAdd_ok) auto
  then show ?thesis using gives_trans [OF g(1)] g assms
    by (auto simp: mimeStateBase64_def x EOF_def BASE64_EOF_def Let_def intro!: decode_ok_other elim!: runs_mono)
qed

interpretation base64: transfer_decoder DecodeBase64 mimeStateBase64
  by unfold_locales (rule runs_mono [OF mimeStateBase64_ok], auto simp: Let_def)


lemma qpHexDigit_range: "is_xdigit x \<Longrightarrow> 0 \<le> qpHexDigit x \<and> qpHexDigit x < 16"
  by (auto simp: qpHexDigit_def is_xdigit_def is_digit_def to_upper_def)

lemma is_xdigit_octet: "is_xdigit x \<Longrightarrow> octet x" "\<not> is_xdigit EOF"
  by (auto simp: is_xdigit_def is_digit_def octet_def EOF_def)

lemma hex_octet: "is_xdigit v \<Longrightarrow> is_xdigit x \<Longrightarrow> octet (qpHexDigit v * 16 + qpHexDigit x)"
  using qpHexDigit_range [of v] qpHexDigit_range [of x] by (auto simp: octet_def)

lemma mimeStateQpLiteral_ok:
  assumes "decode_ok m" "decode_state m \<noteq> QpDecode" "octet ch \<or> ch = EOF"
  shows "runs (\<lambda>m'. decode_ok m' \<and> decode_state m' = (if ch = 61 then QpEqual else decode_state m) \<and>
      gives (if ch = 61 \<or> ch = EOF then [] else [ch]) m m') (mimeStateQpLiteral ch m)"
proof (cases "ch = 61")
  case True
  then show ?thesis using assms mode_change_gives
    by (simp add: mimeStateQpLiteral_def decode_ok_def)
next
  case False
  then show ?thesis using mimeDecodeAdd_ok [OF decode_ok_room [OF assms(1)] assms(2,3)]
    by (simp add: mimeStateQpLiteral_def)
qed

lemma mimeStateQpEqual_ok:
  assumes "decode_ok m" "octet ch \<or> ch = EOF"
  shows "runs (\<lambda>m'. decode_ok m' \<and>
      decode_state m' = (if ch = ASCII_CR then decode_state m else if ch = ASCII_LF then QpSoftLine
                         else if is_xdigit ch then QpDecode else QpLiteral) \<and>
      (is_xdigit ch \<longrightarrow> octets (decode m') ! len (decode m') = ch) \<and>
      gives (if ch = ASCII_CR \<or> ch = ASCII_LF \<or> is_xdigit ch then [] else if ch = EOF then [61] else [61, ch]) m m')
    (mimeStateQpEqual ch m)"
proof -
  have room: "decode_room m" using assms(1) by simp
  consider (cr) "ch = ASCII_CR" | (lf) "ch = ASCII_LF" | (hex) "is_xdigit ch"
    | (other) "ch \<noteq> ASCII_CR" "ch \<noteq> ASCII_LF" "\<not> is_xdigit ch" by blast
  then show ?thesis
  proof cases
    case cr
    then show ?thesis using assms gives_refl room
      by (simp add: mimeStateQpEqual_def is_xdigit_def is_digit_def ascii_defs)
  next
    case lf
    then show ?thesis using assms mode_change_gives room
      by (simp add: mimeStateQpEqual_def is_xdigit_def is_digit_def ascii_defs decode_ok_def)
  next
    case hex
    then have ne: "ch \<noteq> ASCII_CR" "ch \<noteq> ASCII_LF" by (auto simp: is_xdigit_def is_digit_def ascii_defs)
    show ?thesis using hex ne room is_xdigit_octet(1) [OF hex]
      by (auto simp: mimeStateQpEqual_def on_decode_def buf_poke_def decode_ok_def decode_room_def gives_def
          source_side_def octets_at_def decoded_def held_def buf_data_def intro: list_all_update)
  next
    case other
    let ?m = "m\<lparr>decode_state := QpLiteral\<rparr>"
    have eq: "mimeStateQpEqual ch m = andthen (mimeDecodeAdd 61 ?m) (\<lambda>m. mimeDecodeAdd ch m)"
      using other by (simp add: mimeStateQpEqual_def)
    have one: "runs (\<lambda>m'. decode_ok m' \<and> decode_state m' = QpLiteral \<and> gives [61] m m') (mimeDecodeAdd 61 ?m)"
      by (rule runs_mono [OF mimeDecodeAdd_ok [of ?m 61]])
        (use room gives_trans [OF mode_change_gives(1) [OF room, of QpLiteral]] in auto)
    show ?thesis unfolding eq runs_simps
      by (rule runs_mono [OF one], rule runs_mono [OF mimeDecodeAdd_ok])
        (use other assms(2) in \<open>auto dest: gives_trans [of "[61]"]\<close>)
  qed
qed

lemma mimeStateQpDecode_ok:
  assumes "decode_ok m" "decode_state m = QpDecode" "octet ch \<or> ch = EOF"
    "octets (decode m) ! len (decode m) = v"
  shows "runs (\<lambda>m'. decode_ok m' \<and> decode_state m' = QpLiteral \<and>
      gives (if is_xdigit ch then [qpHexDigit v * 16 + qpHexDigit ch] else if ch = EOF then [61, v] else [61, v, ch]) m m')
    (mimeStateQpDecode ch m)"
proof -
  have room: "decode_room m" using assms(1) by simp
  have v: "is_xdigit v" using assms(1,2,4) by (simp add: decode_ok_def)
  have peek: "buf_peek (len (decode m)) (decode m) = Inr v"
    using room assms(4) by (simp add: buf_peek_def decode_room_def)
  have finish: "runs (\<lambda>m'. decode_ok m' \<and> decode_state m' = QpLiteral \<and> gives x m m')
      (andthen r (\<lambda>m. Inr (m\<lparr>decode_state := QpLiteral\<rparr>)))" if "runs (gives x m) r" for x r
    unfolding runs_simps
    by (rule runs_mono [OF that]) (use gives_trans [of x m _ "[]", OF _ mode_change_gives(1)] in \<open>auto dest: gives_room simp: decode_ok_def\<close>)
  have add: "runs (gives (x @ (if c = EOF then [] else [c])) m) (mimeDecodeAdd c n)"
    if "gives x m n" "octet c \<or> c = EOF" for x c n
    by (rule runs_mono [OF mimeDecodeAdd_gives [OF gives_room [OF that(1)] that(2)]])
      (use gives_trans [OF that(1)] in blast)
  show ?thesis
  proof (cases "is_xdigit ch")
    case True
    let ?x = "qpHexDigit v * 16 + qpHexDigit ch"
    have "runs (gives [?x] m) (mimeDecodeAdd ?x m)"
      using add [OF gives_refl [OF room], of ?x] hex_octet [OF v True] by simp
    from finish [OF this] show ?thesis using True by (simp add: mimeStateQpDecode_def peek)
  next
    case False
    have "runs (gives (if ch = EOF then [61, v] else [61, v, ch]) m)
        (andthen (mimeDecodeAdd 61 m) (\<lambda>m. andthen (mimeDecodeAdd v m) (\<lambda>m. mimeDecodeAdd ch m)))"
      unfolding runs_simps
      by (rule runs_mono [OF add [OF gives_refl [OF room]]], simp, rule runs_mono [OF add], assumption)
        (use add [OF _ assms(3), of "[61, v]"] is_xdigit_octet(1) [OF v] in \<open>auto split: if_splits\<close>)
    from finish [OF this] show ?thesis using False by (simp add: mimeStateQpDecode_def peek)
  qed
qed

interpretation qp_literal: transfer_decoder QpLiteral mimeStateQpLiteral
  by unfold_locales (rule runs_mono [OF mimeStateQpLiteral_ok], auto)

interpretation qp_softline: transfer_decoder QpSoftLine mimeStateQpSoftLine
  unfolding mimeStateQpSoftLine_def by unfold_locales (rule runs_mono [OF mimeStateQpLiteral_ok], auto)

interpretation qp_equal: transfer_decoder QpEqual mimeStateQpEqual
  by unfold_locales (rule runs_mono [OF mimeStateQpEqual_ok], auto)

interpretation qp_decode: transfer_decoder QpDecode mimeStateQpDecode
  by unfold_locales (rule runs_mono [OF mimeStateQpDecode_ok], auto)

lemma source_octet_gives:
  "decode_room m \<Longrightarrow> gives [] m (mimeDoHookOctet SourceOctet ch m)"
  "decode_ok (mimeDoHookOctet SourceOctet ch m) = decode_ok m"
  "decode_room (mimeDoHookOctet SourceOctet ch m) = decode_room m"
  "decode_state (mimeDoHookOctet SourceOctet ch m) = decode_state m"
  "b64_state (mimeDoHookOctet SourceOctet ch m) = b64_state m"
  "decode (mimeDoHookOctet SourceOctet ch m) = decode m"
  by (simp_all add: gives_def source_side_def decode_room_def decode_ok_def octets_at_def decoded_def held_def
      mimeDoHookOctet_def)

lemma mimeDecodeState_runs:
  assumes "runs (\<lambda>m'. P m' \<and> gives x (mimeDoHookOctet SourceOctet ch m) m')
      (decode_fn (decode_state m) ch (mimeDoHookOctet SourceOctet ch m))" "decode_room m"
  shows "runs (\<lambda>m'. P m' \<and> gives x m m') (mimeDecodeState ch m)"
  using assms(1) gives_trans [OF source_octet_gives(1) [OF assms(2), of ch], of x]
  by (auto simp: mimeDecodeState_def source_octet_gives(4) elim: runs_mono)

interpretation decoders: octet_stream mimeDecodeState
proof unfold_locales
  fix m ch
  assume m: "decode_ok m" "octet ch \<or> ch = EOF"
  let ?m = "mimeDoHookOctet SourceOctet ch m"
  have h: "decode_ok ?m" using m(1) by (simp add: source_octet_gives)
  have "runs (\<lambda>m'. decode_ok m' \<and> (\<exists>x. gives x ?m m')) (decode_fn (decode_state m) ch ?m)"
    using literal.decoder_gives [OF h _ m(2)] base64.decoder_gives [OF h _ m(2)] qp_literal.decoder_gives [OF h _ m(2)]
      qp_softline.decoder_gives [OF h _ m(2)] qp_equal.decoder_gives [OF h _ m(2)] qp_decode.decoder_gives [OF h _ m(2)]
    by (cases "decode_state m") (simp_all add: decode_fn_def source_octet_gives(4))
  then show "runs (\<lambda>m'. decode_ok m' \<and> (\<exists>x. gives x m m')) (mimeDecodeState ch m)"
    unfolding mimeDecodeState_def Let_def source_octet_gives(4)
    by (rule runs_mono) (use gives_trans [OF source_octet_gives(1) [of m ch]] m(1) in fastforce)
qed

end
