(* ===== verification/MimeParser.thy ===== *)
theory MimeParser
  imports MimeDecoders
begin

text \<open>
  The source states of \<^verbatim>\<open>mail/mime.c\<close> keep the invariant of the parser: both buffers have room for the
  next octet and its null, and the decoder's contract holds. From that follows that no sequence of octets
  makes the parser leave a buffer or loop.
\<close>

lemma mimeDecodeState_literal:
  assumes "decode_room m" "decode_state m = DecodeAdd" "octet ch \<or> ch = EOF"
  shows "runs (\<lambda>m'. (decode_ok m' \<and> decode_state m' = DecodeAdd) \<and> gives (if ch = EOF then [] else [ch]) m m')
    (mimeDecodeState ch m)"
  by (rule mimeDecodeState_runs [OF _ assms(1)], simp only: assms(2) decode_fn_def decode_state.case,
      rule runs_mono [OF mimeDecodeAdd_ok]) (use assms in \<open>simp_all add: source_octet_gives\<close>)

section \<open>The invariant of the parser\<close>

definition in_header :: "mime \<Rightarrow> bool" where
  "in_header m \<longleftrightarrow> mimeIsAnyHeader m \<or> source_state m = HdrLF"

text \<open>Within a state function the source buffer has room for a null, and between calls for one octet more.\<close>

definition mime_room :: "mime \<Rightarrow> bool" where
  "mime_room m \<longleftrightarrow>
     2 \<le> length (octets (source m)) \<and> len (source m) < length (octets (source m)) \<and>
     list_all octet (octets (source m)) \<and> decode_ok m \<and> (in_header m \<longrightarrow> decode_state m \<noteq> QpDecode)"

definition mime_ok :: "mime \<Rightarrow> bool" where
  "mime_ok m \<longleftrightarrow> mime_room m \<and> len (source m) + 2 \<le> length (octets (source m))"

definition flushed :: "mime \<Rightarrow> mime" where
  "flushed m = (let b = source m; os = (octets b)[len b := 0] in
     if 0 < len b
     then m\<lparr>source := \<lparr>len = 0, octets = replicate (len b) 0 @ drop (len b) os\<rparr>,
            trace := trace m @ [Event SourceFlush (take (len b) os) (hooks_at SourceFlush m)]\<rparr>
     else m)"

lemma mimeSourceFlush_flushed: "len (source m) < length (octets (source m)) \<Longrightarrow> mimeSourceFlush m = Inr (flushed m)"
  by (simp add: mimeSourceFlush_def flushed_def on_source_def buf_poke_def buf_clear_def mimeDoHook_def hook_view_def
      buf_data_def hooks_at_def Let_def uchar_def)

lemma flushed_simps [simp]:
  "decode (flushed m) = decode m" "decode_state (flushed m) = decode_state m" "source_state (flushed m) = source_state m"
  "is_multipart (flushed m) = is_multipart m" "encoding (flushed m) = encoding m" "len (source (flushed m)) = 0"
  "decode_state_cr (flushed m) = decode_state_cr m" "b64_state (flushed m) = b64_state m"
  "throw_ready (flushed m) = throw_ready m" "is_message_rfc822 (flushed m) = is_message_rfc822 m"
  "mime_part_number (flushed m) = mime_part_number m" "hooks (flushed m) = hooks m"
  "mimeIsAnyHeader (flushed m) = mimeIsAnyHeader m" "held (flushed m) = held m"
  by (simp_all add: flushed_def Let_def mimeIsAnyHeader_def held_def)

lemma list_all_drop: "list_all P xs \<Longrightarrow> list_all P (drop n xs)"
  by (auto simp: list_all_iff dest: in_set_dropD)

lemma list_all_replicate: "P x \<Longrightarrow> list_all P (replicate n x)"
  by (induction n) simp_all

lemma flushed_octets:
  assumes "len (source m) < length (octets (source m))"
  shows "length (octets (source (flushed m))) = length (octets (source m))"
    "list_all octet (octets (source m)) \<Longrightarrow> list_all octet (octets (source (flushed m)))"
    "octets_at pt (flushed m) = octets_at pt m @ (if pt = SourceFlush then buf_data (source m) else [])"
  using assms
  by (auto simp: flushed_def Let_def octets_at_def buf_data_def list_all_update list_all_drop list_all_replicate)

lemma flushed_ok [simp]: "decode_ok (flushed m) = decode_ok m" "in_header (flushed m) = in_header m"
  by (simp_all add: decode_ok_def decode_room_def in_header_def del: decode_ok_room)

lemma in_header_side: "source_side m' = source_side m \<Longrightarrow> in_header m' = in_header m"
  using source_sideD [of m' m] by (simp add: in_header_def)

lemma gives_mime_room:
  assumes "gives x m m'" "decode_ok m'" "mime_room m" "\<not> in_header m"
  shows "mime_room m' \<and> \<not> in_header m' \<and> source_side m' = source_side m"
  using assms in_header_side [of m' m] source_sideD(1) [of m' m] by (simp add: mime_room_def gives_def)

text \<open>The decoder called from a body state.\<close>

lemma mimeDecodeState_room:
  assumes "mime_room m" "\<not> in_header m" "octet ch \<or> ch = EOF"
  shows "runs (\<lambda>m'. mime_room m' \<and> \<not> in_header m' \<and> source_side m' = source_side m) (mimeDecodeState ch m)"
  using assms(1) by (intro runs_mono [OF decoders.step_gives [OF _ assms(3)]])
    (auto simp: mime_room_def [of m] intro!: gives_mime_room [OF _ _ assms(1,2)])

lemma decode_octets_room:
  assumes "mime_room m" "\<not> in_header m" "list_all (\<lambda>ch. octet ch \<or> ch = EOF) chs"
  shows "runs (\<lambda>m'. mime_room m' \<and> \<not> in_header m' \<and> source_side m' = source_side m) (decode_octets chs m)"
  using assms(1) by (intro runs_mono [OF decoders.loop_gives [OF _ assms(3)]])
    (auto simp: mime_room_def [of m] intro!: gives_mime_room [OF _ _ assms(1,2)])

lemma flushed_form: "flushed m = m\<lparr>source := source (flushed m), trace := trace (flushed m)\<rparr>"
  by (simp add: flushed_def Let_def)

lemma flushed_events:
  "filter (\<lambda>e. point e \<noteq> SourceFlush) (trace (flushed m)) = filter (\<lambda>e. point e \<noteq> SourceFlush) (trace m)"
  by (simp add: flushed_def Let_def)

lemma source_push:
  "len (source m) < length (octets (source m)) \<Longrightarrow> octet x \<Longrightarrow>
    on_source (buf_push x) m =
      Inr (m\<lparr>source := \<lparr>len = len (source m) + 1, octets = (octets (source m))[len (source m) := x]\<rparr>\<rparr>)"
  by (simp add: on_source_def buf_push_def)

lemma update1: "xs \<noteq> [] \<Longrightarrow> xs[0 := a] = a # drop (Suc 0) xs"
  by (cases xs) simp_all

lemma update2: "2 \<le> length xs \<Longrightarrow> xs[0 := a, Suc 0 := b] = a # b # drop 2 xs"
  by (cases xs; cases "tl xs") auto

text \<open>The source buffer at the end of a line. When the octet just stored is the newline, nothing is lost.\<close>

definition line_flushed :: "mime_buffer \<Rightarrow> int list \<Rightarrow> mime \<Rightarrow> mime" where
  "line_flushed b nl m = 
     (let f = flushed (m\<lparr>source := b\<rparr>)
      in m\<lparr>source := \<lparr>len = length nl, octets = nl @ drop (length nl) (octets (source f))\<rparr>, trace := trace f\<rparr>)"

lemma flush_line_eq:
  assumes "2 \<le> length (octets (source m))" "len (source m) < length (octets (source m))" "0 < len (source m)"
    "n = len (source m)" "os = octets (source m)"
  shows "flush_line m = Inr (if 1 < n \<and> os ! (n - 2) = ASCII_CR
    then line_flushed \<lparr>len = n - 2, octets = os\<rparr> [ASCII_CR, ASCII_LF] m
    else line_flushed \<lparr>len = n - 1, octets = os\<rparr> [ASCII_LF] m)"
proof -
  let ?m = "\<lambda>k. m\<lparr>source := \<lparr>len = n - k, octets = os\<rparr>\<rparr>"
  have short: "source_shorten m = ?m 1" "source_shorten (?m 1) = ?m 2" if "1 < n"
    using that assms(3,4,5) by (simp_all add: source_shorten_def udec_def numeral_2_eq_2)
  have short1: "source_shorten m = ?m 1" 
    using assms(3,4,5) by (simp add: source_shorten_def udec_def)
  have fl: "mimeSourceFlush (?m k) = Inr (flushed (?m k))" for k
    using assms by (intro mimeSourceFlush_flushed) simp
  have size: "length (octets (source (flushed (?m k)))) = length os" for k
    using assms flushed_octets(1) [of "?m k"] by simp
  have f: "flushed (?m k) = m\<lparr>source := source (flushed (?m k)), trace := trace (flushed (?m k))\<rparr>" for k
    using flushed_form [of "?m k"] by simp
  define f where "f k = flushed (?m k)" for k
  have fk: "f k = m\<lparr>source := source (f k), trace := trace (f k)\<rparr>" "len (source (f k)) = 0"
    "length (octets (source (f k))) = length os" for k
    using f [of k] size [of k] by (simp_all add: f_def)
  have lf: "on_source (buf_push ASCII_LF) (f k) = Inr (line_flushed \<lparr>len = n - k, octets = os\<rparr> [ASCII_LF] m)"
    and crlf: "andthen (on_source (buf_push ASCII_CR) (f k)) (on_source (buf_push ASCII_LF)) =
      Inr (line_flushed \<lparr>len = n - k, octets = os\<rparr> [ASCII_CR, ASCII_LF] m)" for k
  proof -
    obtain b t where bt: "f k = m\<lparr>source := b, trace := t\<rparr>" "len b = 0" "length (octets b) = length os"
      using fk [of k] by blast
    have "2 \<le> length (octets b)" "octets b \<noteq> []" using assms(1,5) bt(3) by auto
    moreover have "line_flushed \<lparr>len = n - k, octets = os\<rparr> nl m =
        m\<lparr>source := \<lparr>len = length nl, octets = nl @ drop (length nl) (octets b)\<rparr>, trace := t\<rparr>" for nl
      using bt(1) by (simp add: line_flushed_def Let_def f_def)
    ultimately show "on_source (buf_push ASCII_LF) (f k) = Inr (line_flushed \<lparr>len = n - k, octets = os\<rparr> [ASCII_LF] m)"
      "andthen (on_source (buf_push ASCII_CR) (f k)) (on_source (buf_push ASCII_LF)) =
        Inr (line_flushed \<lparr>len = n - k, octets = os\<rparr> [ASCII_CR, ASCII_LF] m)"
      using bt(2) by (simp_all add: bt(1) source_push update1 update2)
  qed
  show ?thesis
  proof (cases "1 < n \<and> os ! (n - 2) = ASCII_CR")
    case True
    then have "buf_peek (n - 1 - 1) \<lparr>len = n - 1, octets = os\<rparr> = Inr ASCII_CR"
      using assms by (simp add: buf_peek_def numeral_2_eq_2)
    then have "flush_line m = andthen (on_source (buf_push ASCII_CR) (f 2)) (on_source (buf_push ASCII_LF))"
      using True short fl [of 2] by (simp add: flush_line_def f_def)
    also have "... = Inr (line_flushed \<lparr>len = n - 2, octets = os\<rparr> [ASCII_CR, ASCII_LF] m)" by (rule crlf)
    finally show ?thesis using True by simp
  next
    case False
    have "flush_line m = on_source (buf_push ASCII_LF) (f 1)"
    proof (cases "1 < n")
      case True
      then have "buf_peek (n - 1 - 1) \<lparr>len = n - 1, octets = os\<rparr> = Inr (os ! (n - 2))" "os ! (n - 2) \<noteq> ASCII_CR"
        using assms False by (simp_all add: buf_peek_def numeral_2_eq_2)
      then show ?thesis using True short1 fl [of 1] by (simp add: flush_line_def f_def)
    next
      case one: False
      then show ?thesis using short1 fl [of 1] by (simp add: flush_line_def f_def)
    qed
    then show ?thesis unfolding lf if_not_P [OF False] .
  qed
qed


lemma line_flushed_form:
  "line_flushed b nl m = m\<lparr>source := source (line_flushed b nl m), trace := trace (line_flushed b nl m)\<rparr>"
  by (simp add: line_flushed_def Let_def)

lemma line_flushed_facts:
  assumes "len b < length (octets b)" "length nl \<le> length (octets b)"
  shows "octets_at SourceFlush (line_flushed b nl m) = octets_at SourceFlush m @ buf_data b"
    "buf_data (source (line_flushed b nl m)) = nl" "len (source (line_flushed b nl m)) = length nl"
    "length (octets (source (line_flushed b nl m))) = length (octets b)"
    "list_all octet (octets b) \<Longrightarrow> list_all octet nl \<Longrightarrow> list_all octet (octets (source (line_flushed b nl m)))"
    "filter (\<lambda>e. point e \<noteq> SourceFlush) (trace (line_flushed b nl m)) = filter (\<lambda>e. point e \<noteq> SourceFlush) (trace m)"
proof -
  let ?f = "flushed (m\<lparr>source := b\<rparr>)"
  have "length (octets (source ?f)) = length (octets b)" using assms by (simp add: flushed_octets)
  moreover have "octets_at SourceFlush (m\<lparr>trace := trace ?f\<rparr>) = octets_at SourceFlush ?f"
    "octets_at SourceFlush ?f = octets_at SourceFlush m @ buf_data b"
    using assms flushed_octets(3) [of "m\<lparr>source := b\<rparr>" SourceFlush] by (simp_all add: octets_at_def)
  moreover have "list_all octet (octets b) \<Longrightarrow> list_all octet (octets (source ?f))"
    using assms flushed_octets(2) [of "m\<lparr>source := b\<rparr>"] by simp
  ultimately show "octets_at SourceFlush (line_flushed b nl m) = octets_at SourceFlush m @ buf_data b"
    "buf_data (source (line_flushed b nl m)) = nl" "len (source (line_flushed b nl m)) = length nl"
    "length (octets (source (line_flushed b nl m))) = length (octets b)"
    "list_all octet (octets b) \<Longrightarrow> list_all octet nl \<Longrightarrow> list_all octet (octets (source (line_flushed b nl m)))"
    "filter (\<lambda>e. point e \<noteq> SourceFlush) (trace (line_flushed b nl m)) = filter (\<lambda>e. point e \<noteq> SourceFlush) (trace m)"
    using assms flushed_events [of "m\<lparr>source := b\<rparr>"]
    by (simp_all add: line_flushed_def Let_def buf_data_def octets_at_def list_all_drop)
qed

definition same_but_source :: "mime \<Rightarrow> mime \<Rightarrow> bool" where
  "same_but_source m m' \<longleftrightarrow> (\<exists>b t. m' = m\<lparr>source := b, trace := t\<rparr>)"

lemma same_but_sourceD:
  assumes "same_but_source m m'"
  shows "source_state m' = source_state m" "is_multipart m' = is_multipart m" "decode m' = decode m"
    "decode_state m' = decode_state m" "b64_state m' = b64_state m" "decode_state_cr m' = decode_state_cr m"
    "encoding m' = encoding m" "throw_ready m' = throw_ready m" "in_header m' = in_header m" "decode_ok m' = decode_ok m"
    "held m' = held m" "mimeIsAnyHeader m' = mimeIsAnyHeader m" "mime_part_number m' = mime_part_number m"
    "is_message_rfc822 m' = is_message_rfc822 m" "hooks m' = hooks m"
  using assms by (auto simp: same_but_source_def in_header_def mimeIsAnyHeader_def held_def decode_ok_def decode_room_def
      simp del: decode_ok_room)

text \<open>The source buffer at the end of a line. When the octet just stored is the newline, nothing is lost.\<close>

lemma take_last2:
  assumes "1 < n" "n \<le> length xs"
  shows "take n xs = take (n - 2) xs @ [xs ! (n - 2), xs ! (n - 1)]"
proof -
  obtain k where "n = Suc (Suc k)" using assms(1) le_Suc_ex [of 2 n] by auto
  then show ?thesis using assms(2) by (simp add: take_Suc_conv_app_nth)
qed

lemma flush_line_room:
  assumes "mime_room m" "0 < len (source m)"
  shows "runs (\<lambda>m'. mime_room m' \<and> same_but_source m m' \<and> 0 < len (source m') \<and> len (source m') \<le> len (source m) \<and>
    (octets (source m) ! (len (source m) - 1) = ASCII_LF \<longrightarrow>
     octets_at SourceFlush m' @ buf_data (source m') = octets_at SourceFlush m @ buf_data (source m)) \<and>
    filter (\<lambda>e. point e \<noteq> SourceFlush) (trace m') = filter (\<lambda>e. point e \<noteq> SourceFlush) (trace m)) (flush_line m)"
proof -
  let ?n = "len (source m)" and ?os = "octets (source m)"
  let ?P = "\<lambda>m'. mime_room m' \<and> same_but_source m m' \<and> 0 < len (source m') \<and> len (source m') \<le> len (source m) \<and>
    (?os ! (?n - 1) = ASCII_LF \<longrightarrow>
     octets_at SourceFlush m' @ buf_data (source m') = octets_at SourceFlush m @ buf_data (source m)) \<and>
    filter (\<lambda>e. point e \<noteq> SourceFlush) (trace m') = filter (\<lambda>e. point e \<noteq> SourceFlush) (trace m)"
  have room: "2 \<le> length ?os" "?n < length ?os" "list_all octet ?os" using assms(1) by (auto simp: mime_room_def)
  have P: "?P (line_flushed \<lparr>len = k, octets = ?os\<rparr> nl m)"
    if nl: "nl \<noteq> []" "length nl \<le> ?n" "list_all octet nl" "k < length ?os"
      and split: "?os ! (?n - 1) = ASCII_LF \<Longrightarrow> take ?n ?os = take k ?os @ nl" for k nl
  proof -
    let ?l = "line_flushed \<lparr>len = k, octets = ?os\<rparr> nl m"
    have len: "length nl \<le> length ?os" using nl(2) room(2) by linarith
    have same: "same_but_source m ?l" unfolding same_but_source_def using line_flushed_form by blast
    show ?thesis
      using same same_but_sourceD [OF same] line_flushed_facts [of "\<lparr>len = k, octets = ?os\<rparr>" nl m] nl len room assms(1) split
      by (auto simp: mime_room_def buf_data_def)
  qed
  show ?thesis
  proof (cases "1 < ?n \<and> ?os ! (?n - 2) = ASCII_CR")
    case True
    then show ?thesis
      using P [of "[ASCII_CR, ASCII_LF]" "?n - 2"] room assms(2) take_last2 [of ?n ?os]
      by (simp add: flush_line_eq)
  next
    case False
    have "take ?n ?os = take (?n - 1) ?os @ [?os ! (?n - 1)]"
      using assms(2) room(2) take_Suc_conv_app_nth [of "?n - 1" ?os] by simp
    then show ?thesis using P [of "[ASCII_LF]" "?n - 1"] room assms(2) False by (auto simp: flush_line_eq)
  qed
qed


section \<open>The states of the body\<close>

text \<open>The octet that is being processed is in the source buffer.\<close>

definition entered :: "mime \<Rightarrow> bool" where
  "entered m \<longleftrightarrow> mime_room m \<and> 0 < len (source m)"

lemma checked_simps [simp]: "checked (Inr y) = Inr y" "checked (Inl e) = Inl (Stop e)"
  by (simp_all add: checked_def)

lemma checked_andthen: "checked (andthen x f) = andthen (checked x) (\<lambda>y. checked (f y))"
  by (cases x) simp_all

text \<open>After a body state: still in the body, or a boundary line has just been taken out of the buffer.\<close>

definition body_room :: "mime \<Rightarrow> bool" where
  "body_room m \<longleftrightarrow> mime_room m \<and> (in_header m \<longrightarrow> len (source m) = 0)"

lemma body_roomI [intro]: "mime_room m \<Longrightarrow> \<not> in_header m \<Longrightarrow> body_room m"
  by (simp add: body_room_def)

definition body_step :: "mime \<Rightarrow> mime \<Rightarrow> bool" where
  "body_step m m' \<longleftrightarrow> body_room m' \<and> len (source m') \<le> len (source m)"

lemma source_state_room:
  "s \<notin> {HdrStart, Hdr, HdrValue, HdrLF} \<Longrightarrow> mime_room m \<Longrightarrow> mime_room (m\<lparr>source_state := s\<rparr>)"
  "in_header (m\<lparr>source_state := s\<rparr>) \<longleftrightarrow> s \<in> {HdrStart, Hdr, HdrValue, HdrLF}"
  by (auto simp: mime_room_def in_header_def mimeIsAnyHeader_def decode_ok_def decode_room_def simp del: decode_ok_room)

lemma decode_then_Bdy:
  assumes "mime_room m" "\<not> in_header m" "list_all (\<lambda>ch. octet ch \<or> ch = EOF) chs"
  shows "runs (\<lambda>m'. body_room m' \<and> source m' = source m)
    (andthen (decode_octets chs m) (\<lambda>m. Inr (m\<lparr>source_state := Bdy\<rparr>)))"
  unfolding runs_simps
  by (rule runs_mono [OF decode_octets_room [OF assms]]) (auto simp: source_state_room dest: source_sideD(1))

lemma decode_then_Bdy_step:
  "mime_room m \<Longrightarrow> \<not> in_header m \<Longrightarrow> list_all (\<lambda>ch. octet ch \<or> ch = EOF) chs \<Longrightarrow>
    runs (body_step m) (andthen (decode_octets chs m) (\<lambda>m. Inr (m\<lparr>source_state := Bdy\<rparr>)))"
  by (rule runs_mono [OF decode_then_Bdy]) (auto simp: body_step_def)

lemma mimeDecodeState_step:
  "mime_room m \<Longrightarrow> \<not> in_header m \<Longrightarrow> octet ch \<or> ch = EOF \<Longrightarrow> runs (body_step m) (mimeDecodeState ch m)"
  by (rule runs_mono [OF mimeDecodeState_room]) (auto simp: body_step_def dest: source_sideD(1))

lemma body_step_trans: "body_step m' m'' \<Longrightarrow> len (source m') \<le> len (source m) \<Longrightarrow> body_step m m''"
  by (simp add: body_step_def)

lemma mimeStateBdy_room:
  assumes "entered m" "\<not> in_header m" "octet ch"
  shows "runs (body_step m) (mimeStateBdy ch m)"
proof (cases "ch = ASCII_LF")
  case True
  have rest: "runs (body_step m) (if is_multipart n then Inr (n\<lparr>source_state := BdyLF\<rparr>) else mimeDecodeState ASCII_LF n)"
    if n: "mime_room n" "\<not> in_header n" "len (source n) \<le> len (source m)" for n
  proof (cases "is_multipart n")
    case True
    then show ?thesis using n by (auto simp: source_state_room body_step_def)
  next
    case False
    have "runs (body_step m) (mimeDecodeState ASCII_LF n)"
      by (rule runs_mono [OF mimeDecodeState_step [OF n(1,2)]]) (use n(3) body_step_trans in auto)
    then show ?thesis using False by simp
  qed
  show ?thesis unfolding mimeStateBdy_def if_P [OF True] runs_simps
    by (rule runs_mono [OF flush_line_room]; (rule rest)?)
      (use assms in \<open>simp_all add: entered_def same_but_sourceD(9) [of m]\<close>)
next
  case False
  then show ?thesis using assms mimeDecodeState_step [of m ch] by (simp add: mimeStateBdy_def entered_def)
qed

lemma source_shorten_room:
  "mime_room m \<Longrightarrow> 0 < len (source m) \<Longrightarrow> mime_room (source_shorten m)"
  "in_header (source_shorten m) = in_header m" "source_state (source_shorten m) = source_state m"
  "0 < len (source m) \<Longrightarrow> len (source (source_shorten m)) = len (source m) - 1"
  "octets (source (source_shorten m)) = octets (source m)"
  by (auto simp: source_shorten_def udec_def mime_room_def in_header_def mimeIsAnyHeader_def decode_ok_def decode_room_def
      simp del: decode_ok_room)

lemma source_push_room:
  assumes "mime_room m" "len (source m) + 1 < length (octets (source m))" "octet x"
  shows "runs (\<lambda>m'. mime_room m' \<and> source_state m' = source_state m \<and> in_header m' = in_header m \<and>
    len (source m') = len (source m) + 1) (on_source (buf_push x) m)"
  using assms
  by (auto simp: source_push mime_room_def in_header_def mimeIsAnyHeader_def decode_ok_def decode_room_def list_all_update
      simp del: decode_ok_room)

lemma flushed_room: "mime_room m \<Longrightarrow> mime_room (flushed m)" 
  using flushed_octets(1,2) [of m] by (auto simp: mime_room_def)

lemma mimeStateBdyLF_room:
  assumes "entered m" "\<not> in_header m" "octet ch"
  shows "runs (body_step m) (mimeStateBdyLF ch m)"
proof -
  have m: "mime_room m" "0 < len (source m)" using assms(1) by (auto simp: entered_def)
  consider (dash) "is_multipart m \<and> ch = 45" | (lf) "ch = ASCII_LF" | (other) "\<not> (is_multipart m \<and> ch = 45)" "ch \<noteq> ASCII_LF"
    by blast
  then show ?thesis
  proof cases
    case dash
    then show ?thesis using m(1) by (auto simp: mimeStateBdyLF_def source_state_room body_step_def)
  next
    case lf
    then have eq: "mimeStateBdyLF ch m = andthen (mimeDecodeState ASCII_LF m) (\<lambda>m. mimeStateBdy ASCII_LF m)"
      by (simp add: mimeStateBdyLF_def ascii_defs)
    show ?thesis unfolding eq runs_simps
      by (rule runs_mono [OF mimeDecodeState_room [OF m(1) assms(2)]], simp, rule runs_mono [OF mimeStateBdy_room])
        (use m(2) in \<open>auto simp: entered_def dest: source_sideD(1) elim!: body_step_trans\<close>)
  next
    case other
    let ?s = "if ch = ASCII_CR then source_shorten m else m"
    have s: "mime_room ?s" "\<not> in_header ?s" using m assms(2) source_shorten_room by auto
    have f: "mime_room (flushed ?s)" "\<not> in_header (flushed ?s)" "len (source (flushed ?s)) = 0" 
      using s flushed_room by auto
    have push: "runs (\<lambda>m'. mime_room m' \<and> source_state m' = source_state (flushed ?s) \<and>
        in_header m' = in_header (flushed ?s) \<and> len (source m') = len (source (flushed ?s)) + 1)
        (on_source (buf_push ASCII_CR) (flushed ?s))"
      using f by (intro source_push_room) (auto simp: mime_room_def)
    have cr: "runs (\<lambda>m'. mime_room m' \<and> \<not> in_header m' \<and> len (source m') \<le> len (source m))
        (on_source (buf_push ASCII_CR) (flushed ?s))"
      by (rule runs_mono [OF push]) (use f m(2) in auto)
    have nl: "runs (\<lambda>m'. mime_room m' \<and> \<not> in_header m' \<and> len (source m') \<le> len (source m))
        (if ch = ASCII_CR then on_source (buf_push ASCII_CR) (flushed ?s) else Inr (flushed ?s))"
      using cr f by (cases "ch = ASCII_CR") simp_all
    have fl: "mimeSourceFlush ?s = Inr (flushed ?s)"
      using s(1) by (intro mimeSourceFlush_flushed) (simp add: mime_room_def)
    have eq: "mimeStateBdyLF ch m =
        andthen (if ch = ASCII_CR then on_source (buf_push ASCII_CR) (flushed ?s) else Inr (flushed ?s)) (\<lambda>m.
        andthen (decode_octets [ASCII_LF, ch] m) (\<lambda>m. Inr (m\<lparr>source_state := Bdy\<rparr>)))"
      unfolding mimeStateBdyLF_def if_not_P [OF other(1)] if_not_P [OF other(2)] fl andthen_simps by (rule refl)
    show ?thesis unfolding eq runs_simps(3) [of _ "if _ then _ else _"]
    proof (rule runs_mono [OF nl])
      fix n assume n: "mime_room n \<and> \<not> in_header n \<and> len (source n) \<le> len (source m)"
      then have "runs (body_step n) (andthen (decode_octets [ASCII_LF, ch] n) (\<lambda>m. Inr (m\<lparr>source_state := Bdy\<rparr>)))"
        using assms(3) by (intro decode_then_Bdy_step) auto
      then show "runs (body_step m) (andthen (decode_octets [ASCII_LF, ch] n) (\<lambda>m. Inr (m\<lparr>source_state := Bdy\<rparr>)))"
        by (rule runs_mono) (use n body_step_trans in blast)
    qed
  qed
qed

lemma mimeStateDash1_room:
  "mime_room m \<Longrightarrow> \<not> in_header m \<Longrightarrow> octet ch \<Longrightarrow> runs (body_step m) (mimeStateDash1 ch m)"
  using decode_then_Bdy_step [of m "[ASCII_LF, 45, ch]"]
  by (auto simp: mimeStateDash1_def source_state_room body_step_def simp del: octet_loop.simps runs_simps(3))

lemma mimeStateDash2_room:
  "mime_room m \<Longrightarrow> \<not> in_header m \<Longrightarrow> octet ch \<Longrightarrow> runs (body_step m) (mimeStateDash2 ch m)"
  using decode_then_Bdy_step [of m "[ASCII_LF, 45, 45, ch]"]
  by (auto simp: mimeStateDash2_def source_state_room body_step_def simp del: octet_loop.simps runs_simps(3))

lemma entered_Bdy: "entered m \<Longrightarrow> entered (m\<lparr>source_state := Bdy\<rparr>)" "\<not> in_header (m\<lparr>source_state := Bdy\<rparr>)"
  by (simp_all add: entered_def source_state_room)

lemma mimeStateHdrBdy_room: "entered m \<Longrightarrow> octet ch \<Longrightarrow> runs (body_step m) (mimeStateHdrBdy ch m)"
  using entered_Bdy [of m] mimeStateBdyLF_room [of "m\<lparr>source_state := Bdy\<rparr>"] mimeStateBdy_room [of "m\<lparr>source_state := Bdy\<rparr>"]
  by (simp add: mimeStateHdrBdy_def Let_def body_step_def [abs_def])

lemma boundary_scan_runs:
  "len b \<le> length (octets b) \<Longrightarrow> runs (\<lambda>_. True) (boundary_scan i hyphens qp b)"
proof (induction i hyphens qp b rule: boundary_scan.induct)
  case (1 i hyphens qp b)
  show ?case
  proof (cases "i < len b")
    case True
    then have "buf_peek i b = Inr (octets b ! i)" "buf_peek (i - 1) b = Inr (octets b ! (i - 1))"
      using 1(2) by (simp_all add: buf_peek_def)
    then show ?thesis using 1(1) [OF True _ _ _ 1(2)] True by (subst boundary_scan.simps) auto
  next
    case False
    then show ?thesis by (subst boundary_scan.simps) simp
  qed
qed

lemma mimeBodyFinish_room:
  "mime_room (mimeBodyFinish m) = mime_room m" "source (mimeBodyFinish m) = source m"
  "source_state (mimeBodyFinish m) = source_state m" "decode_state (mimeBodyFinish m) = decode_state m"
  "decode (mimeBodyFinish m) = decode m"
  by (simp_all add: mimeBodyFinish_def mimeDoHook_def mime_room_def in_header_def mimeIsAnyHeader_def decode_ok_def
      decode_room_def del: decode_ok_room)

text \<open>A boundary line is taken out of the buffer, and the next part starts.\<close>

definition boundary_found :: "mime \<Rightarrow> mime" where
  "boundary_found m =
     (let b = (source m)\<lparr>len := 0, octets := (octets (source m))[0 := 0]\<rparr>;
          n = mimeBodyFinish (m\<lparr>mime_part_length := mime_part_length m - of_nat (len (source m)),
                 mime_body_length := mime_body_length m - of_nat (len (source m)), source := b\<rparr>)
      in n\<lparr>mime_part_number := mime_part_number n + 1, mime_part_length := 0,
           has_content_type := False, is_message_rfc822 := False, encoding := MIME_NONE, source_state := HdrStart\<rparr>)"

lemma boundary_found_room:
  assumes "mime_room m" "decode_state m = DecodeAdd"
  shows "body_room (boundary_found m)" "len (source (boundary_found m)) = 0"
  using assms
  by (auto simp: body_room_def boundary_found_def Let_def mime_room_def decode_ok_def decode_room_def mimeBodyFinish_room
      list_all_update)

lemma mimeStateBoundary_eq:
  assumes "mime_room m" "ch = ASCII_LF" "boundary_scan 2 True False (source m) = Inr (j, hyphens, qp)"
  shows "mimeStateBoundary ch m =
    (if \<not> hyphens \<and> (encoding m \<noteq> MIME_QUOTED_PRINTABLE \<or> \<not> qp) \<and> j = len (source m)
     then andthen (mimeDecodeState EOF (m\<lparr>decode_state_cr := False, decode_state := DecodeAdd\<rparr>)) (\<lambda>m.
          andthen (on_source (buf_poke 0 0) (m\<lparr>mime_part_length := mime_part_length m - of_nat (len (source m)),
                 mime_body_length := mime_body_length m - of_nat (len (source m)), source := (source m)\<lparr>len := 0\<rparr>\<rparr>)) (\<lambda>m.
          let m = mimeBodyFinish m
          in Inr (m\<lparr>mime_part_number := mime_part_number m + 1, mime_part_length := 0,
               has_content_type := False, is_message_rfc822 := False, encoding := MIME_NONE, source_state := HdrStart\<rparr>)))
     else decode_octets (buf_data (source m)) (m\<lparr>decode_state_cr := False, source_state := Bdy\<rparr>))"
  using assms(2,3) by (simp add: mimeStateBoundary_def andthen_def split: sum.splits)

lemma discard_boundary:
  assumes "octets (source m) \<noteq> []"
  shows "andthen (on_source (buf_poke 0 0) (m\<lparr>mime_part_length := mime_part_length m - of_nat (len (source m)),
                 mime_body_length := mime_body_length m - of_nat (len (source m)), source := (source m)\<lparr>len := 0\<rparr>\<rparr>)) (\<lambda>m.
          let m = mimeBodyFinish m
          in Inr (m\<lparr>mime_part_number := mime_part_number m + 1, mime_part_length := 0,
               has_content_type := False, is_message_rfc822 := False, encoding := MIME_NONE, source_state := HdrStart\<rparr>))
    = Inr (boundary_found m)"
  using assms by (simp add: on_source_def buf_poke_def boundary_found_def Let_def uchar_def)

lemma cr_room: "mime_room (m\<lparr>decode_state_cr := c\<rparr>) = mime_room m" "in_header (m\<lparr>decode_state_cr := c\<rparr>) = in_header m"
  by (simp_all add: mime_room_def in_header_def mimeIsAnyHeader_def decode_ok_def decode_room_def del: decode_ok_room)

lemma decode_add_room:
  "mime_room m \<Longrightarrow> mime_room (m\<lparr>decode_state := DecodeAdd\<rparr>)" "in_header (m\<lparr>decode_state := d\<rparr>) = in_header m"
  by (auto simp: mime_room_def in_header_def mimeIsAnyHeader_def decode_ok_def)

lemma mime_room_nonempty: "mime_room m \<Longrightarrow> octets (source m) \<noteq> []"
  by (auto simp: mime_room_def)

lemma mimeStateBoundary_room:
  assumes "mime_room m" "\<not> in_header m" "octet ch"
  shows "runs (body_step m) (mimeStateBoundary ch m)"
proof (cases "ch = ASCII_LF")
  case True
  have room: "len (source m) < length (octets (source m))" "list_all octet (octets (source m))" "octets (source m) \<noteq> []"
    using assms(1) by (auto simp: mime_room_def)
  obtain j hyphens qp where scan: "boundary_scan 2 True False (source m) = Inr (j, hyphens, qp)"
    using boundary_scan_runs [of "source m" 2 True False] room(1) by (auto simp: runs_iff)
  let ?e = "m\<lparr>decode_state_cr := False, decode_state := DecodeAdd\<rparr>"
  have e: "mime_room ?e" "\<not> in_header ?e" using assms by (simp_all add: cr_room decode_add_room)
  have "runs (\<lambda>m'. (decode_ok m' \<and> decode_state m' = DecodeAdd) \<and> gives [] ?e m') (mimeDecodeState EOF ?e)"
    using mimeDecodeState_literal [of ?e EOF] e(1) decode_ok_room [of ?e] by (simp add: mime_room_def)
  then have "runs (\<lambda>m'. mime_room m' \<and> octets (source m') \<noteq> [] \<and> decode_state m' = DecodeAdd) (mimeDecodeState EOF ?e)"
    by (rule runs_mono) (use gives_mime_room [OF _ _ e] mime_room_nonempty in blast)
  then have "runs (body_step m) (andthen (mimeDecodeState EOF ?e) (\<lambda>m.
      andthen (on_source (buf_poke 0 0) (m\<lparr>mime_part_length := mime_part_length m - of_nat (len (source m)),
                 mime_body_length := mime_body_length m - of_nat (len (source m)), source := (source m)\<lparr>len := 0\<rparr>\<rparr>)) (\<lambda>m.
          let m = mimeBodyFinish m
          in Inr (m\<lparr>mime_part_number := mime_part_number m + 1, mime_part_length := 0,
               has_content_type := False, is_message_rfc822 := False, encoding := MIME_NONE, source_state := HdrStart\<rparr>))))"
    by (auto simp: runs_iff discard_boundary boundary_found_room body_step_def)
  moreover have "runs (body_step m) (decode_octets (buf_data (source m)) (m\<lparr>decode_state_cr := False, source_state := Bdy\<rparr>))"
    by (rule runs_mono [OF decode_octets_room])
      (use assms(1) room(2) in \<open>auto simp: body_step_def source_state_room cr_room buf_data_def list_all_iff
        dest: in_set_takeD source_sideD(1)\<close>)
  ultimately show ?thesis unfolding mimeStateBoundary_eq [OF assms(1) True scan] by simp
next
  case False
  then show ?thesis using assms by (auto simp: mimeStateBoundary_def mime_room_def body_step_def body_room_def)
qed

section \<open>The states of the header\<close>

text \<open>\<open>TextFind\<close> cannot fault on a pattern without character classes.\<close>

lemma match_one_no_class:
  assumes "CHR 0x5B \<notin> set (p # ps)"
  shows "\<exists>r. match_one caseless h (p # ps) = Inr r \<and> (\<forall>pin. r = Some pin \<longrightarrow> CHR 0x5B \<notin> set pin)"
proof -
  have p: "p \<noteq> CHR 0x5B" and ps: "CHR 0x5B \<notin> set ps" using assms by auto
  have ps': "CHR 0x5B \<notin> set (tl ps)" using ps by (cases ps) simp_all
  show ?thesis
  proof (cases "p = BSL")
    case True
    then have "match_one caseless h (p # ps) = Inr (if h \<noteq> deref ps then None else Some (tl ps))"
      by (simp add: match_one_def)
    then show ?thesis using ps' by simp
  next
    case False
    have "match_one caseless h (p # ps) = Inr None \<or> match_one caseless h (p # ps) = Inr (Some ps)"
      unfolding match_one_def list.sel if_not_P [OF False] if_not_P [OF p] by simp
    then show ?thesis using ps by auto
  qed
qed

lemma find_no_class:
  "CHR 0x5B \<notin> set pin \<Longrightarrow> \<exists>r. find_go caseless hay pin n offs pos = Inr r"
  "CHR 0x5B \<notin> set pin \<Longrightarrow> \<exists>r. find_star caseless hay pin n offs pos = Inr r"
proof (induction caseless hay pin n offs pos and caseless hay pin n offs pos rule: find_go_find_star.induct)
  case (1 caseless hay n offs pos)
  then show ?case by (simp add: find_go.simps)
next
  case (2 caseless hay p ps n offs pos)
  have skip: "CHR 0x5B \<notin> set (stars_skipped ps)" using 2(3) by (auto simp: stars_skipped_def dest: set_dropWhileD)
  show ?case
  proof (cases "p = CHR ''*''")
    case True
    show ?thesis
    proof (cases "stars_skipped ps = []")
      case False
      then show ?thesis using 2(1) [OF True False skip] True by (subst find_go.simps) simp
    qed (use True in \<open>subst find_go.simps, simp\<close>)
  next
    case False
    obtain r where r: "match_one caseless (hd hay) (p # ps) = Inr r"
        "\<And>pin. r = Some pin \<Longrightarrow> CHR 0x5B \<notin> set pin"
      using match_one_no_class [OF 2(3)] by blast
    show ?thesis
    proof (cases "n \<le> 0 \<or> hay = []")
      case True
      then show ?thesis using False by (subst find_go.simps) simp
    next
      case go: False
      then show ?thesis using 2(2) [OF False go r(1)] r False
        by (subst find_go.simps) (auto split: option.splits)
    qed
  qed
next
  case (3 caseless hay pin n offs pos)
  show ?case
  proof (cases "0 < n \<and> hay \<noteq> []")
    case True
    obtain r where r: "find_go caseless hay pin n (-1) 0 = Inr r" using 3(1) [OF True 3(3)] by blast
    then show ?thesis using 3(2) [OF True r _ 3(3)] True by (subst find_star.simps) auto
  next
    case False
    have "find_star caseless hay pin n offs pos = Inr (-1)"
      by (subst find_star.simps, subst if_not_P [OF False]) (rule refl)
    then show ?thesis by blast
  qed
qed


lemma header_has_runs:
  assumes "CHR 0x5B \<notin> set pat"
  shows "\<exists>b. header_has pat m = Inr b"
proof -
  let ?h = "map char_of_int (takeWhile (\<lambda>x. x \<noteq> 0) (octets (source m)))"
  obtain r where "find_go True ?h pat (int (len (source m))) (-1) 0 = Inr r"
    using find_no_class(1) [OF assms] by blast
  then show ?thesis by (simp add: header_has_def TextFind_def)
qed

lemma header_line_room:
  assumes "mime_room m" "in_header m"
  shows "runs (\<lambda>m'. mime_room m' \<and> source m' = source m \<and> source_state m' = source_state m) (header_line m)"
proof -
  obtain b1 where b1: "header_has ''Content-Type:*multipart/*'' m = Inr b1"
    using header_has_runs [of "''Content-Type:*multipart/*''" m] by auto
  obtain b2 where b2: "header_has ''Content-Type:*message/rfc822'' m = Inr b2"
    using header_has_runs [of "''Content-Type:*message/rfc822''" m] by auto
  obtain b3 where b3: "header_has ''Content-Type:*/*'' m = Inr b3"
    using header_has_runs [of "''Content-Type:*/*''" m] by auto
  obtain b4 where b4: "header_has ''Content-Transfer-Encoding:*quoted-printable*'' m = Inr b4"
    using header_has_runs [of "''Content-Transfer-Encoding:*quoted-printable*''" m] by auto
  obtain b5 where b5: "header_has ''Content-Transfer-Encoding:*base64*'' m = Inr b5"
    using header_has_runs [of "''Content-Transfer-Encoding:*base64*''" m] by auto
  show ?thesis using assms
    by (simp add: header_line_def b1 b2 b3 b4 b5)
      (auto simp: mime_room_def in_header_def mimeIsAnyHeader_def decode_ok_def decode_room_def simp del: decode_ok_room)
qed


lemma hook_room:
  "mime_room (mimeDoHook pt m) = mime_room m" "source (mimeDoHook pt m) = source m"
  "source_state (mimeDoHook pt m) = source_state m" "in_header (mimeDoHook pt m) = in_header m"
  "throw_ready (mimeDoHook pt m) = throw_ready m" "decode_state (mimeDoHook pt m) = decode_state m"
  by (simp_all add: mimeDoHook_def mime_room_def in_header_def mimeIsAnyHeader_def decode_ok_def decode_room_def
      del: decode_ok_room)

lemma header_mode: "mime_room m \<Longrightarrow> in_header m \<Longrightarrow> decode_state m \<noteq> QpDecode"
  and mime_room_len: "mime_room m \<Longrightarrow> len (source m) < length (octets (source m))"
  and mime_room_size: "mime_room m \<Longrightarrow> Suc 0 < length (octets (source m))"
  by (simp_all add: mime_room_def)

lemma mimeDecodeFlush_room:
  assumes "mime_room m" "in_header m"
  shows "runs (\<lambda>m'. mime_room m' \<and> source m' = source m \<and> source_state m' = source_state m \<and> in_header m') (mimeDecodeFlush m)"
proof -
  have d: "decode_room m" "decode_state m \<noteq> QpDecode" using assms by (auto simp: mime_room_def)
  have "runs (\<lambda>m'. gives [] m m' \<and> len (decode m') = 0 \<and> decode_state m' = decode_state m \<and> held m' = held m \<and> b64_state m' = b64_state m)
      (mimeDecodeFlush m)"
    using d(1) by (intro mimeDecodeFlush_gives) (auto simp: decode_room_def)
  then show ?thesis
  proof (rule runs_mono)
    fix m' assume m': "gives [] m m' \<and> len (decode m') = 0 \<and> decode_state m' = decode_state m \<and> held m' = held m \<and> b64_state m' = b64_state m"
    then have side: "source_side m' = source_side m" and ok: "decode_ok m'"
      using d(2) by (auto simp: gives_def intro: decode_ok_other)
    show "mime_room m' \<and> source m' = source m \<and> source_state m' = source_state m \<and> in_header m'"
      using source_sideD(1,2) [OF side] in_header_side [OF side] assms ok m' d(2) by (simp add: mime_room_def)
  qed
qed

lemma counters_room:
  "mime_room (m\<lparr>mime_body_length := a, mime_body_decoded_length := b\<rparr>) = mime_room m"
  "in_header (m\<lparr>mime_body_length := a, mime_body_decoded_length := b\<rparr>) = in_header m"
  by (simp_all add: mime_room_def in_header_def mimeIsAnyHeader_def decode_ok_def decode_room_def del: decode_ok_room)

lemma next_part_room:
  "mime_room m \<Longrightarrow> decode_state m \<noteq> QpDecode \<Longrightarrow> mime_room (next_part m)" "source (next_part m) = source m"
  using mimeBodyFinish_room [of m]
  by (auto simp: next_part_def Let_def mime_room_def decode_ok_def decode_room_def simp del: decode_ok_room)

lemma mimeStateEOH_room:
  assumes "mime_room m" "in_header m"
  shows "runs (\<lambda>m'. mime_room m' \<and> len (source m') = 0) (mimeStateEOH ch m)"
proof -
  have fl: "mimeSourceFlush m = Inr (flushed m)" "mime_room (flushed m)" "in_header (flushed m)"
    using assms flushed_room by (auto simp: mime_room_len intro: mimeSourceFlush_flushed)
  let ?h = "\<lambda>m. (mimeBodyStart (mimeHdrFinish (m\<lparr>mime_body_length := 0, mime_body_decoded_length := 0\<rparr>)))\<lparr>source_state := HdrBdy\<rparr>"
  have h: "mime_room (?h n)" "decode_state (?h n) \<noteq> QpDecode" "source (?h n) = source n" if "mime_room n" "in_header n" for n
    using that header_mode by (auto simp: source_state_room mimeBodyStart_def mimeHdrFinish_def hook_room counters_room)
  show ?thesis unfolding mimeStateEOH_def fl(1) andthen_simps runs_simps
  proof (rule runs_mono [OF mimeDecodeFlush_room [OF fl(2,3)]])
    fix n assume n: "mime_room n \<and> source n = source (flushed m) \<and> source_state n = source_state (flushed m) \<and> in_header n"
    then show "runs (\<lambda>m'. mime_room m' \<and> len (source m') = 0)
        (let m = ?h n in Inr (if is_message_rfc822 m then next_part m else m))"
      using h [of n] next_part_room [of "?h n"] by (simp add: Let_def)
  qed
qed

lemma mimeStateHdrLF_room:
  assumes "entered m" "source_state m = HdrLF" "octet ch"
  shows "runs mime_room (mimeStateHdrLF ch m)"
proof -
  have m: "mime_room m" "0 < len (source m)" "in_header m" "decode_state m \<noteq> QpDecode"
    using assms by (auto simp: entered_def mime_room_def in_header_def)
  consider (cr) "ch = ASCII_CR" | (fold) "ch \<noteq> ASCII_CR" "ch = ASCII_SPACE \<or> ch = ASCII_TAB"
    | (other) "ch \<noteq> ASCII_CR" "\<not> (ch = ASCII_SPACE \<or> ch = ASCII_TAB)" by blast
  then show ?thesis
  proof cases
    case cr
    then show ?thesis using m source_shorten_room by (simp add: mimeStateHdrLF_def)
  next
    case fold
    then show ?thesis using m
      by (auto simp: mimeStateHdrLF_def on_source_def buf_poke_def udec_def mime_room_def decode_ok_def decode_room_def
          list_all_update simp del: decode_ok_room)
  next
    case other
    let ?s = "source_shorten (m\<lparr>source_state := Hdr\<rparr>)"
    let ?n = "?s\<lparr>source := (source ?s)\<lparr>octets := (octets (source ?s))[len (source ?s) := 0]\<rparr>\<rparr>"
    have s: "mime_room ?s" "len (source ?s) < length (octets (source ?s))"
      using m by (auto simp: source_shorten_def udec_def mime_room_def decode_ok_def decode_room_def simp del: decode_ok_room)
    have n: "on_source (\<lambda>b. buf_poke (len b) 0 b) ?s = Inr ?n" "mime_room ?n" "in_header ?n"
      using s by (auto simp: on_source_def buf_poke_def uchar_def mime_room_def decode_ok_def decode_room_def list_all_update
          in_header_def mimeIsAnyHeader_def source_shorten_def simp del: decode_ok_room)
    have push: "runs (\<lambda>m'. mime_room m' \<and> in_header m')
        (andthen (mimeSourceFlush (mimeDoHook HeaderLine h)) (on_source (buf_push ch)))"
      if h: "mime_room h" "in_header h" for h
    proof -
      let ?f = "flushed (mimeDoHook HeaderLine h)"
      have f: "mimeSourceFlush (mimeDoHook HeaderLine h) = Inr ?f" "mime_room ?f" "in_header ?f"
        using h flushed_room [of "mimeDoHook HeaderLine h"]
        by (auto simp: hook_room mime_room_len intro!: mimeSourceFlush_flushed)
      have "runs (\<lambda>m'. mime_room m' \<and> source_state m' = source_state ?f \<and> in_header m' = in_header ?f \<and>
          len (source m') = len (source ?f) + 1) (on_source (buf_push ch) ?f)"
        using f(2) mime_room_size by (intro source_push_room assms(3)) auto
      then show ?thesis using f by (auto elim!: runs_mono)
    qed
    have "runs (\<lambda>m'. mime_room m' \<and> in_header m') (andthen (on_source (\<lambda>b. buf_poke (len b) 0 b) ?s) (\<lambda>m.
        andthen (header_line m) (\<lambda>m. andthen (mimeSourceFlush (mimeDoHook HeaderLine m)) (\<lambda>m. on_source (buf_push ch) m))))"
      unfolding n(1) andthen_simps runs_simps(3) [of _ "header_line ?n"]
      by (rule runs_mono [OF header_line_room [OF n(2,3)]], rule push) (use n(3) in \<open>auto simp: in_header_def mimeIsAnyHeader_def\<close>)
    then show ?thesis using other m(2) mimeStateEOH_room
      by (auto simp: mimeStateHdrLF_def Let_def elim!: runs_mono simp del: runs_simps(3))
        (auto simp: runs_iff andthen_Inr; blast)
  qed
qed

lemma mimeStateHdrValue_room:
  assumes "entered m" "source_state m = HdrValue"
  shows "runs mime_room (mimeStateHdrValue ch m)"
proof -
  have m: "mime_room m" "0 < len (source m)" "in_header m" "decode_state m \<noteq> QpDecode"
    using assms by (auto simp: entered_def mime_room_def in_header_def mimeIsAnyHeader_def)
  let ?s = "source_shorten m"
  have s: "mime_room ?s" "in_header ?s" using m source_shorten_room by auto
  have "mime_room (n\<lparr>source_state := HdrLF\<rparr>)" if "mime_room n" "decode_state n \<noteq> QpDecode" for n
    using that by (auto simp: mime_room_def decode_ok_def decode_room_def simp del: decode_ok_room)
  moreover have "mime_room (source_shorten ?s)" if "0 < len (source ?s)" using s(1) that by (rule source_shorten_room)
  moreover have "buf_peek (len (source ?s) - 1) (source ?s) = Inr (octets (source ?s) ! (len (source ?s) - 1))"
    using mime_room_len [OF s(1)] by (simp add: buf_peek_def)
  ultimately show ?thesis using m(1,4) s
    by (auto simp: mimeStateHdrValue_def Let_def source_shorten_def)
qed


section \<open>The indirect calls\<close>

text \<open>A call that does not fault; it may jump to the caller's handler if the caller has set one up.\<close>

definition safely :: "('a \<Rightarrow> bool) \<Rightarrow> mime_stop + 'a \<Rightarrow> bool" where
  "safely P x = (case x of Inr y \<Rightarrow> P y | Inl (Stop _) \<Rightarrow> False
     | Inl (Throw e m) \<Rightarrow> throw_ready m \<and> e \<in> {MIME_ERROR_NO_EOH, MIME_ERROR_HEADER_NAME, MIME_ERROR_INVALID_BYTE})"

lemma safely_simps [simp]:
  "safely P (Inr y) = P y" "safely P (checked x) = runs P x"
  "safely P (andthen z f) = safely (\<lambda>y. safely P (f y)) z"
  "\<not> safely P (Inl (Stop e))"
  by (auto simp: safely_def checked_def andthen_def split: sum.splits mime_stop.splits)

lemma safely_mono: "safely P x \<Longrightarrow> (\<And>y. P y \<Longrightarrow> Q y) \<Longrightarrow> safely Q x"
  by (auto simp: safely_def split: sum.splits mime_stop.splits)

lemma replay_room:
  assumes call: "\<And>ch m. entered m \<Longrightarrow> \<not> in_header m \<Longrightarrow> octet ch \<Longrightarrow> safely (body_step m) (call ch m)"
  shows "body_room m \<Longrightarrow> len (source m) < n + i \<Longrightarrow> 0 < n \<Longrightarrow> safely body_room (replay call n i m)"
proof (induction n arbitrary: i m)
  case 0
  then show ?case by simp
next
  case (Suc n)
  show ?case
  proof (cases "i < len (source m)")
    case True
    then have m: "entered m" "\<not> in_header m" using Suc.prems(1) by (auto simp: body_room_def entered_def)
    then have "i < length (octets (source m))" "list_all octet (octets (source m))"
      using True by (auto simp: entered_def mime_room_def)
    then have peek: "buf_peek i (source m) = Inr (octets (source m) ! i)" "octet (octets (source m) ! i)"
      by (simp_all add: buf_peek_def list_all_length)
    have "safely body_room (andthen (call (octets (source m) ! i) m) (\<lambda>m. replay call n (i + 1) m))"
      unfolding safely_simps
      by (rule safely_mono [OF call [OF m peek(2)]], rule Suc.IH) (use Suc.prems True in \<open>auto simp: body_step_def\<close>)
    then show ?thesis using True peek by simp
  next
    case False
    then show ?thesis using Suc.prems by simp
  qed
qed

lemma body_source_fn:
  assumes "entered m" "\<not> in_header m" "octet ch"
  shows "safely (body_step m) (source_fn (Suc d) ch m)"
proof -
  have "mime_room m" using assms(1) by (simp add: entered_def)
  then show ?thesis
    using assms mimeStateHdrBdy_room mimeStateBdy_room mimeStateBdyLF_room mimeStateDash1_room mimeStateDash2_room
      mimeStateBoundary_room
    by (cases "source_state m") (auto simp: in_header_def mimeIsAnyHeader_def)
qed

lemma mimeStateHdr_room:
  assumes "entered m" "source_state m = Hdr" "octet ch"
    and call: "\<And>ch m. entered m \<Longrightarrow> \<not> in_header m \<Longrightarrow> octet ch \<Longrightarrow> safely (body_step m) (call ch m)"
  shows "safely mime_room (mimeStateHdr call ch m)"
proof -
  have m: "mime_room m" "0 < len (source m)" "in_header m" "decode_state m \<noteq> QpDecode"
    using assms by (auto simp: entered_def mime_room_def in_header_def mimeIsAnyHeader_def)
  have val: "mime_room (m\<lparr>source_state := HdrValue\<rparr>)"
    using m by (auto simp: mime_room_def decode_ok_def decode_room_def simp del: decode_ok_room)
  let ?h = "\<lambda>m. (mimeBodyStart (mimeHdrFinish m))\<lparr>source_state := HdrBdy\<rparr>"
  have go: "safely mime_room (replay call (length (octets (source (?h n))) + 1) 0 (?h n))" if n: "mime_room n" for n
  proof (rule safely_mono [OF replay_room [OF call]])
    show "body_room (?h n)"
      using n by (auto simp: body_room_def source_state_room mimeBodyStart_def mimeHdrFinish_def hook_room)
    then show "len (source (?h n)) < length (octets (source (?h n))) + 1 + 0"
      using mime_room_len by (fastforce simp: body_room_def)
  qed (simp_all add: body_room_def)
  have s1: "mime_room (source_shorten m)" using source_shorten_room(1) [OF m(1,2)] .
  have s2: "mime_room (source_shorten (source_shorten m))" if "len (source m) = 2"
    using source_shorten_room(1) [OF s1] source_shorten_room(4) [OF m(2)] that by simp
  let ?stop = "if ch = ASCII_LF then
                if len (source m) = 1 then Inr (source_shorten m)
                else if len (source m) = 2 \<and> hd (octets (source m)) = ASCII_CR
                then Inr (source_shorten (source_shorten m))
                else if throw_ready m then Inl (Throw MIME_ERROR_NO_EOH m)
                else Inr m
              else if throw_ready m then Inl (Throw MIME_ERROR_HEADER_NAME m)
              else Inr m"
  have "safely mime_room ?stop"
    using m(1) s1 s2 by (simp add: safely_def)
  then have "safely mime_room (andthen ?stop (\<lambda>m. let m = ?h m in replay call (length (octets (source m)) + 1) 0 m))"
    unfolding safely_simps(3) Let_def by (rule safely_mono) (rule go)
  then show ?thesis using m(1) val by (simp add: mimeStateHdr_def del: safely_simps(3))
qed

lemma mimeStateHdrStart_room:
  assumes "entered m" "source_state m = HdrStart" "octet ch"
    and call: "\<And>ch m. entered m \<Longrightarrow> \<not> in_header m \<Longrightarrow> octet ch \<Longrightarrow> safely (body_step m) (call ch m)"
  shows "safely mime_room (mimeStateHdrStart call ch m)"
proof -
  have "mime_room (m\<lparr>source_state := Hdr\<rparr>)"
    using assms(1,2) by (auto simp: entered_def mime_room_def in_header_def mimeIsAnyHeader_def decode_ok_def decode_room_def
      simp del: decode_ok_room)
  then have "entered (mimeDoHook HdrStarts (m\<lparr>source_state := Hdr\<rparr>))"
    using assms(1) by (simp add: entered_def hook_room)
  then show ?thesis unfolding mimeStateHdrStart_def
    by (intro mimeStateHdr_room call assms(3)) (simp_all add: hook_room)
qed

text \<open>Two levels of calls are enough: the states that \<open>mimeStateHdr\<close> calls are body states, until a
  boundary line empties the buffer and ends its loop.\<close>

lemma source_fn_room:
  assumes "entered m" "octet ch"
  shows "safely mime_room (source_fn 2 ch m)"
proof -
  have body: "safely (body_step m) (source_fn 1 ch m)" if "entered m" "\<not> in_header m" "octet ch" for ch m
    using body_source_fn [OF that, of 0] by simp
  have two: "source_fn 2 = source_fn (Suc 1)" by (simp add: numeral_2_eq_2)
  have start: "source_state m = HdrStart \<Longrightarrow> safely mime_room (mimeStateHdrStart (source_fn 1) ch m)"
    by (rule mimeStateHdrStart_room [OF assms(1) _ assms(2) body])
  have hdr: "source_state m = Hdr \<Longrightarrow> safely mime_room (mimeStateHdr (source_fn 1) ch m)"
    by (rule mimeStateHdr_room [OF assms(1) _ assms(2) body])
  show ?thesis
  proof (cases "in_header m")
    case True
    then show ?thesis
      using start hdr mimeStateHdrValue_room [OF assms(1)] mimeStateHdrLF_room [OF assms(1) _ assms(2)]
      unfolding two source_fn.simps(2)
      by (auto simp: in_header_def mimeIsAnyHeader_def simp del: One_nat_def source_fn.simps)
  next
    case False
    show ?thesis unfolding two
      by (rule safely_mono [OF body_source_fn [OF assms(1) False assms(2)]]) (simp add: body_step_def body_room_def)
  qed
qed

lemma mimeDecodeFlush_room':
  assumes "mime_room m" "decode_state m \<noteq> QpDecode"
  shows "runs mime_room (mimeDecodeFlush m)"
proof -
  have d: "decode_room m" using assms by (auto simp: mime_room_def)
  have "runs (\<lambda>m'. gives [] m m' \<and> len (decode m') = 0 \<and> decode_state m' = decode_state m \<and> held m' = held m \<and> b64_state m' = b64_state m)
      (mimeDecodeFlush m)"
    using d by (intro mimeDecodeFlush_gives) (auto simp: decode_room_def)
  then show ?thesis
  proof (rule runs_mono)
    fix m' assume m': "gives [] m m' \<and> len (decode m') = 0 \<and> decode_state m' = decode_state m \<and> held m' = held m \<and> b64_state m' = b64_state m"
    then have "source_side m' = source_side m" "decode_ok m'"
      using assms(2) by (auto simp: gives_def intro: decode_ok_other)
    then show "mime_room m'" using source_sideD(1) [of m' m] m' assms by (simp add: mime_room_def)
  qed
qed

lemma mimeDecodeState_eof:
  assumes "mime_room m"
  shows "runs (\<lambda>m'. mime_room m' \<and> decode_state m' \<noteq> QpDecode) (mimeDecodeState EOF m)"
proof -
  have ok: "decode_ok m" using assms by (simp add: mime_room_def)
  let ?m = "mimeDoHookOctet SourceOctet EOF m"
  have h: "decode_ok ?m" using ok by (simp add: source_octet_gives)
  have "runs (\<lambda>m'. (decode_ok m' \<and> decode_state m' \<noteq> QpDecode) \<and> (\<exists>x. gives x ?m m')) (decode_fn (decode_state m) EOF ?m)"
  proof (cases "decode_state m")
    case DecodeAdd
    then show ?thesis using mimeDecodeAdd_ok [of ?m EOF] h
      by (auto simp: decode_fn_def source_octet_gives elim!: runs_mono)
  next
    case DecodeBase64
    then show ?thesis using mimeStateBase64_ok [OF h, of EOF]
      by (auto simp: decode_fn_def source_octet_gives Let_def elim!: runs_mono)
  next
    case QpEqual
    then show ?thesis using mimeStateQpEqual_ok [OF h, of EOF] is_xdigit_octet(2)
      by (auto simp: decode_fn_def source_octet_gives ascii_defs elim!: runs_mono)
  next
    case QpDecode
    then show ?thesis using mimeStateQpDecode_ok [OF h, of EOF] 
      by (auto simp: decode_fn_def source_octet_gives elim!: runs_mono)
  qed (use mimeStateQpLiteral_ok [OF h, of EOF] in
      \<open>auto simp: decode_fn_def mimeStateQpSoftLine_def source_octet_gives EOF_def elim!: runs_mono\<close>)
  then show ?thesis unfolding mimeDecodeState_def Let_def source_octet_gives(4)
  proof (rule runs_mono)
    fix m' assume m': "(decode_ok m' \<and> decode_state m' \<noteq> QpDecode) \<and> (\<exists>x. gives x ?m m')"
    then have "source_side m' = source_side m"
      by (auto simp: gives_def source_side_def mimeDoHookOctet_def)
    then show "mime_room m' \<and> decode_state m' \<noteq> QpDecode"
      using source_sideD(1) [of m' m] m' assms by (simp add: mime_room_def)
  qed
qed

lemma mimeNextCh_room:
  assumes "mime_ok m"
  shows "safely (\<lambda>(e, m'). mime_ok m') (mimeNextCh (Some m) ch)"
proof -
  have m: "mime_room m" "decode_ok m" using assms by (simp_all add: mime_ok_def mime_room_def)
  show ?thesis
  proof (cases "ch \<noteq> EOF \<and> (ch < 0 \<or> 255 < ch)")
    case True
    then show ?thesis using assms by (simp add: mimeNextCh_def safely_def)
  next
    case False
    let ?count = "m\<lparr>mime_part_length := mime_part_length m + 1, mime_body_length := mime_body_length m + 1,
       mime_message_length := mime_message_length m + 1\<rparr>"
    have c: "mime_room ?count" "source ?count = source m"
      using m by (auto simp: mime_room_def in_header_def mimeIsAnyHeader_def decode_ok_def decode_room_def simp del: decode_ok_room)
    have source: "safely mime_room (if ch \<noteq> EOF then andthen (checked (on_source (buf_push ch) ?count)) (\<lambda>m. source_fn 2 ch m)
        else Inr m)"
    proof (cases "ch = EOF")
      case False
      then have ch: "octet ch" using \<open>\<not> (ch \<noteq> EOF \<and> (ch < 0 \<or> 255 < ch))\<close> by (auto simp: octet_def)
      have "runs (\<lambda>m'. entered m') (on_source (buf_push ch) ?count)"
        by (rule runs_mono [OF source_push_room [OF c(1) _ ch]])
          (use assms c(2) in \<open>auto simp: mime_ok_def entered_def\<close>)
      then have "safely mime_room (andthen (checked (on_source (buf_push ch) ?count)) (\<lambda>m. source_fn 2 ch m))"
        unfolding safely_simps(2,3) by (rule runs_mono) (rule source_fn_room [OF _ ch])
      then show ?thesis using False by simp
    qed (simp add: m)
    have eof: "safely mime_room (if ch = EOF then checked (andthen (mimeDecodeState EOF n) mimeDecodeFlush) else Inr n)"
      if n: "mime_room n" for n
    proof (cases "ch = EOF")
      case True
      have "runs mime_room (andthen (mimeDecodeState EOF n) mimeDecodeFlush)"
        unfolding runs_simps
        by (rule runs_mono [OF mimeDecodeState_eof [OF n]]) (rule mimeDecodeFlush_room', auto)
      then show ?thesis using True by (simp del: runs_simps)
    qed (simp add: n)
    have flush: "safely mime_ok (if ch = EOF \<or> length (octets (source n)) - 1 \<le> len (source n)
        then checked (mimeSourceFlush n) else Inr n)" if n: "mime_room n" for n
    proof (cases "ch = EOF \<or> length (octets (source n)) - 1 \<le> len (source n)")
      case True
      have "mimeSourceFlush n = Inr (flushed n)" using mime_room_len [OF n] by (rule mimeSourceFlush_flushed)
      moreover have "mime_ok (flushed n)" using flushed_room [OF n] by (simp add: mime_ok_def mime_room_def)
      ultimately show ?thesis using True by simp
    next
      case False
      then have "mime_ok n" using n by (auto simp: mime_ok_def)
      then show ?thesis unfolding if_not_P [OF False] by simp
    qed
    have finish: "mime_ok (if ch = EOF then mimeBodyFinish n else n)" if "mime_ok n" for n
      using that by (simp add: mime_ok_def mimeBodyFinish_room)
    have "safely (\<lambda>(e, m'). mime_ok m')
       (andthen (if ch \<noteq> EOF then andthen (checked (on_source (buf_push ch) ?count)) (\<lambda>m. source_fn 2 ch m) else Inr m) (\<lambda>m.
        andthen (if ch = EOF then checked (andthen (mimeDecodeState EOF m) mimeDecodeFlush) else Inr m) (\<lambda>m.
        andthen (if ch = EOF \<or> length (octets (source m)) - 1 \<le> len (source m) then checked (mimeSourceFlush m) else Inr m) (\<lambda>m.
        Inr (MIME_ERROR_OK, if ch = EOF then mimeBodyFinish m else m)))))"
      unfolding safely_simps(3) [of _ "if _ then _ else _"]
      by (rule safely_mono [OF source], rule safely_mono [OF eof], assumption, rule safely_mono [OF flush], assumption)
        (simp add: finish)
    then show ?thesis unfolding mimeNextCh_def option.case if_not_P [OF False] .
  qed
qed


lemma mimeFeed_room:
  "mime_ok m \<Longrightarrow> safely mime_ok (mimeFeed chs m)"
proof (induction chs arbitrary: m)
  case (Cons ch chs)
  show ?case unfolding mimeFeed.simps safely_simps
    by (rule safely_mono [OF mimeNextCh_room [OF Cons.prems]]) (use Cons.IH in auto)
qed simp

text \<open>The record that \<open>mimeReset\<close> makes satisfies the invariant, whatever its mode was.\<close>

lemma mimeReset_ok:
  assumes "2 \<le> length (octets (source m))" "len (source m) < length (octets (source m))"
    "list_all octet (octets (source m))" "decode_room m"
  shows "runs (\<lambda>m'. mime_ok m' \<and> source_state m' = HdrStart \<and> len (source m') = 0 \<and> len (decode m') = 0) (mimeReset m)"
proof -
  let ?m = "(mimeHeadersFirst True (m\<lparr>b64_state := b64Reset (b64_state m)\<rparr>))\<lparr>decode_state_cr := False, decode_state := DecodeAdd\<rparr>"
  have m: "mime_room ?m" "decode_state ?m \<noteq> QpDecode" "in_header ?m"
    using assms by (auto simp: mimeHeadersFirst_def mime_room_def decode_ok_def decode_room_def in_header_def mimeIsAnyHeader_def
      simp del: decode_ok_room)
  have f: "mimeSourceFlush ?m = Inr (flushed ?m)" "mime_room (flushed ?m)" "in_header (flushed ?m)"
    using m flushed_room mimeSourceFlush_flushed [OF mime_room_len [OF m(1)]] by auto
  have d: "runs (\<lambda>m'. gives [] (flushed ?m) m' \<and> len (decode m') = 0 \<and> decode_state m' = decode_state (flushed ?m)
      \<and> held m' = held (flushed ?m) \<and> b64_state m' = b64_state (flushed ?m)) (mimeDecodeFlush (flushed ?m))"
    using assms(4) by (intro mimeDecodeFlush_gives) (auto simp: decode_room_def mimeHeadersFirst_def)
  show ?thesis unfolding mimeReset_def Let_def f(1) andthen_simps runs_simps(3)
  proof (rule runs_mono [OF d])
    fix n assume n: "gives [] (flushed ?m) n \<and> len (decode n) = 0 \<and> decode_state n = decode_state (flushed ?m)
      \<and> held n = held (flushed ?m) \<and> b64_state n = b64_state (flushed ?m)"
    then have side: "source_side n = source_side (flushed ?m)" "decode_ok n"
      by (auto simp: gives_def mimeHeadersFirst_def intro: decode_ok_other)
    then show "runs (\<lambda>m'. mime_ok m' \<and> source_state m' = HdrStart \<and> len (source m') = 0 \<and> len (decode m') = 0)
       (Inr (n\<lparr>is_multipart := False, has_content_type := False, is_message_rfc822 := False,
                encoding := MIME_NONE, mime_part_number := 0, mime_part_length := 0,
                mime_body_length := 0, mime_body_decoded_length := 0, mime_message_length := 0\<rparr>))"
      using source_sideD(1,2) [OF side(1)] n m(2) f(2)
      by (simp add: mime_ok_def mime_room_def decode_ok_def decode_room_def mimeHeadersFirst_def del: decode_ok_room)
  qed
qed

definition mime_started :: "nat \<Rightarrow> bool \<Rightarrow> mime_hook list \<Rightarrow> fault + mime" where
  "mime_started n ready hs =
     andthen (mimeCreate n True) (\<lambda>mo. case mo of None \<Rightarrow> Inl OutOfBounds | Some m \<Rightarrow>
     mimeMsgStart (foldr mimeHooksAdd hs (m\<lparr>throw_ready := ready\<rparr>)))"

lemma hooks_buffers:
  "source (foldr mimeHooksAdd hs m) = source m" "decode (foldr mimeHooksAdd hs m) = decode m"
  by (induction hs) (simp_all add: mimeHooksAdd_def)

lemma mime_started_ok:
  assumes "2 \<le> n"
  shows "\<exists>m. mime_started n ready hs = Inr m \<and> mime_ok m \<and> source_state m = HdrStart"
proof -
  have "runs (\<lambda>m'. mime_ok m' \<and> source_state m' = HdrStart \<and> len (source m') = 0 \<and> len (decode m') = 0) (mimeReset (mimeZero n))"
    using assms by (intro mimeReset_ok) (auto simp: mimeZero_def decode_room_def list_all_replicate)
  then obtain m where m: "mimeReset (mimeZero n) = Inr m" "mime_ok m" by (auto simp: runs_iff)
  let ?m = "foldr mimeHooksAdd hs (m\<lparr>throw_ready := ready\<rparr>)"
  have "runs (\<lambda>m'. mime_ok m' \<and> source_state m' = HdrStart \<and> len (source m') = 0 \<and> len (decode m') = 0) (mimeReset ?m)"
    using m(2) by (intro mimeReset_ok)
      (auto simp: mime_ok_def mime_room_def hooks_buffers decode_ok_def decode_room_def simp del: decode_ok_room)
  then obtain m' where m': "mimeReset ?m = Inr m'" "mime_ok m'" "source_state m' = HdrStart" by (auto simp: runs_iff)
  then have "mime_started n ready hs = Inr (mimeDoHook MsgStart m')"
    using m(1) by (simp add: mime_started_def mimeCreate_def mimeMsgStart_def)
  then show ?thesis using m'(2,3) by (simp add: mime_ok_def hook_room)
qed

text \<open>C5: The parser is memory safe and never gets stuck. A parser created with buffers of at least two
  octets, with any call-backs and with or without a handler for errors, accepts every sequence of input
  values, the end of the input included: no access leaves a buffer, no loop runs on, and each call
  returns, or jumps to the handler if one has been set, with one of the three errors for malformed input.\<close>

theorem mimeFeed_safe:
  assumes "2 \<le> n"
  shows "\<exists>m. mime_started n ready hs = Inr m \<and> mime_ok m \<and> safely mime_ok (mimeFeed chs m)"
proof -
  obtain m where "mime_started n ready hs = Inr m" "mime_ok m" using mime_started_ok [OF assms] by blast
  then show ?thesis using mimeFeed_room by blast
qed

theorem mimeFeed_safe_witness:
  "\<exists>m. mime_started 16 True [] = Inr m \<and> mime_ok m \<and> safely mime_ok (mimeFeed [45, 45, 58, 10, 300, -1] m)"
  by (rule mimeFeed_safe) simp

end
