(* ===== verification/MimeBodies.thy ===== *)
theory MimeBodies
  imports MimeParser
begin

text \<open>
  What the parser of \<^verbatim>\<open>mail/mime.c\<close> delivers of a body: the reference for the transfer encodings, one step
  of a decoder at a time, and the conservation of the octets that go through the source buffer.
\<close>

section \<open>Decoding a body\<close>

text \<open>The part of the record that a decoder's next step depends on.\<close>

definition dec_part :: "mime \<Rightarrow> decode_state \<times> b64 \<times> int" where
  "dec_part m = (decode_state m, b64_state m, octets (decode m) ! len (decode m))"

type_synonym dec_pred = "decode_state \<times> b64 \<times> int \<Rightarrow> bool"

text \<open>From every state of \<open>S\<close> the decoder passes \<open>x\<close> on for the octet \<open>ch\<close> and goes to one of \<open>T\<close>.\<close>

definition dstep :: "dec_pred \<Rightarrow> int \<Rightarrow> int list \<Rightarrow> dec_pred \<Rightarrow> bool" where
  "dstep S ch x T \<longleftrightarrow> (\<forall>n. decode_ok n \<longrightarrow> S (dec_part n) \<longrightarrow>
     runs (\<lambda>n'. (decode_ok n' \<and> T (dec_part n')) \<and> gives x n n') (mimeDecodeState ch n))"

inductive dsteps :: "dec_pred \<Rightarrow> int list \<Rightarrow> int list \<Rightarrow> dec_pred \<Rightarrow> bool" where
  none: "dsteps S [] [] S"
| more: "dstep S ch x T \<Longrightarrow> octet ch \<Longrightarrow> dsteps T cs y U \<Longrightarrow> dsteps S (ch # cs) (x @ y) U"

lemma dsteps_append: "dsteps S cs x T \<Longrightarrow> dsteps T ds y U \<Longrightarrow> dsteps S (cs @ ds) (x @ y) U"
  by (induction rule: dsteps.induct) (auto intro: dsteps.more)

lemma dsteps_one: "dstep S ch x T \<Longrightarrow> octet ch \<Longrightarrow> dsteps S [ch] x T"
  using dsteps.more [OF _ _ dsteps.none] by simp

subsection \<open>Literal text\<close>

definition literal_mode :: dec_pred where
  "literal_mode p \<longleftrightarrow> fst p = DecodeAdd"

lemma dec_part_hook [simp]: "dec_part (mimeDoHookOctet pt ch n) = dec_part n"
  by (simp add: dec_part_def mimeDoHookOctet_def)

lemma dstepI:
  assumes "\<And>m. decode_ok m \<Longrightarrow> S (dec_part m) \<Longrightarrow> decode_fn (decode_state m) ch m = f m"
    and "\<And>m. decode_ok m \<Longrightarrow> S (dec_part m) \<Longrightarrow> runs (\<lambda>m'. (decode_ok m' \<and> T (dec_part m')) \<and> gives x m m') (f m)"
  shows "dstep S ch x T"
  unfolding dstep_def
proof (intro allI impI)
  fix n assume n: "decode_ok n" "S (dec_part n)"
  let ?h = "mimeDoHookOctet SourceOctet ch n"
  have "decode_ok ?h" "S (dec_part ?h)" using n by (simp_all add: source_octet_gives)
  then have "runs (\<lambda>m'. (decode_ok m' \<and> T (dec_part m')) \<and> gives x ?h m') (decode_fn (decode_state n) ch ?h)"
    using assms [of ?h] by (simp add: source_octet_gives)
  then show "runs (\<lambda>m'. (decode_ok m' \<and> T (dec_part m')) \<and> gives x n m') (mimeDecodeState ch n)"
    using n(1) by (intro mimeDecodeState_runs) auto
qed

lemma literal_step: "octet ch \<Longrightarrow> dstep literal_mode ch [ch] literal_mode"
  by (rule dstepI [where f = "mimeDecodeAdd ch"], simp add: literal_mode_def dec_part_def decode_fn_def,
      rule runs_mono [OF mimeDecodeAdd_ok]) (auto simp: literal_mode_def dec_part_def)

lemma literal_steps: "list_all octet cs \<Longrightarrow> dsteps literal_mode cs cs literal_mode"
  by (induction cs) (use dsteps.more [OF literal_step] in \<open>auto intro: dsteps.none\<close>)

subsection \<open>Quoted-printable text\<close>

datatype qp_item = QpChar int | QpHex int int | QpBreak bool

fun qp_text :: "qp_item \<Rightarrow> int list" where
  "qp_text (QpChar c) = [c]"
| "qp_text (QpHex h l) = [61, h, l]"
| "qp_text (QpBreak crlf) = (if crlf then [61, ASCII_CR, ASCII_LF] else [61, ASCII_LF])"

fun qp_octets :: "qp_item \<Rightarrow> int list" where
  "qp_octets (QpChar c) = [c]"
| "qp_octets (QpHex h l) = [qpHexDigit h * 16 + qpHexDigit l]"
| "qp_octets (QpBreak crlf) = []"

fun qp_ok :: "qp_item \<Rightarrow> bool" where
  "qp_ok (QpChar c) \<longleftrightarrow> octet c \<and> c \<noteq> 61"
| "qp_ok (QpHex h l) \<longleftrightarrow> is_xdigit h \<and> is_xdigit l"
| "qp_ok (QpBreak crlf) \<longleftrightarrow> True"

definition qp_mode :: dec_pred where
  "qp_mode p \<longleftrightarrow> fst p = QpLiteral \<or> fst p = QpSoftLine"

definition qp_equal_mode :: dec_pred where
  "qp_equal_mode p \<longleftrightarrow> fst p = QpEqual"

definition qp_digit_mode :: "int \<Rightarrow> dec_pred" where
  "qp_digit_mode h p \<longleftrightarrow> fst p = QpDecode \<and> snd (snd p) = h"

lemmas qp_modes = qp_mode_def qp_equal_mode_def qp_digit_mode_def

lemma qp_decode_fn: "qp_mode (dec_part m) \<Longrightarrow> decode_fn (decode_state m) ch m = mimeStateQpLiteral ch m"
  by (auto simp: dec_part_def decode_fn_def qp_mode_def mimeStateQpSoftLine_def)

lemma qp_char_step: "octet c \<Longrightarrow> c \<noteq> 61 \<Longrightarrow> dstep qp_mode c [c] qp_mode"
  by (rule dstepI [OF qp_decode_fn], assumption, rule runs_mono [OF mimeStateQpLiteral_ok])
    (auto simp: qp_modes dec_part_def)

lemma qp_escape_step: "dstep qp_mode 61 [] qp_equal_mode"
  by (rule dstepI [OF qp_decode_fn], assumption, rule runs_mono [OF mimeStateQpLiteral_ok])
    (auto simp: qp_modes dec_part_def)

lemma qp_equal_step:
  assumes "octet ch" "ch = ASCII_CR \<or> ch = ASCII_LF \<or> is_xdigit ch"
  shows "dstep qp_equal_mode ch []
    (if ch = ASCII_CR then qp_equal_mode else if ch = ASCII_LF then qp_mode else qp_digit_mode ch)"
  by (rule dstepI [where f = "mimeStateQpEqual ch"], simp add: qp_modes dec_part_def decode_fn_def,
      rule runs_mono [OF mimeStateQpEqual_ok]) (use assms in \<open>auto simp: qp_modes dec_part_def\<close>)

lemma qp_digit_step:
  assumes "is_xdigit h" "is_xdigit l"
  shows "dstep (qp_digit_mode h) l [qpHexDigit h * 16 + qpHexDigit l] qp_mode"
  by (rule dstepI [where f = "mimeStateQpDecode l"], simp add: qp_modes dec_part_def decode_fn_def,
      rule runs_mono [OF mimeStateQpDecode_ok [where v = h]])
    (use assms is_xdigit_octet(1) in \<open>auto simp: qp_modes dec_part_def\<close>)

lemma qp_item_steps: "qp_ok i \<Longrightarrow> dsteps qp_mode (qp_text i) (qp_octets i) qp_mode"
proof (cases i)
  case (QpChar c)
  assume "qp_ok i"
  then show ?thesis using QpChar dsteps_one [OF qp_char_step] by simp
next
  case (QpHex h l)
  assume "qp_ok i"
  then have hl: "is_xdigit h" "is_xdigit l" using QpHex by simp_all
  have ne: "h \<noteq> ASCII_CR" "h \<noteq> ASCII_LF" using hl(1) by (auto simp: is_xdigit_def is_digit_def ascii_defs)
  have "dsteps qp_mode [61, h, l] ([] @ [] @ [qpHexDigit h * 16 + qpHexDigit l] @ []) qp_mode"
    using qp_equal_step [of h] hl ne is_xdigit_octet(1)
    by (intro dsteps.more [OF qp_escape_step _ dsteps.more [OF _ _ dsteps.more [OF qp_digit_step _ dsteps.none]]]) auto
  then show ?thesis by (simp add: QpHex)
next
  case (QpBreak crlf)
  have "dsteps qp_mode [61, ASCII_CR, ASCII_LF] ([] @ [] @ [] @ []) qp_mode" "dsteps qp_mode [61, ASCII_LF] ([] @ [] @ []) qp_mode"
    using qp_equal_step [of ASCII_CR] qp_equal_step [of ASCII_LF]
    by (intro dsteps.more [OF qp_escape_step _ dsteps.more [OF _ _ dsteps.more [OF _ _ dsteps.none]]]
        dsteps.more [OF qp_escape_step _ dsteps.more [OF _ _ dsteps.none]]; simp add: ascii_defs octet_def)+
  then show ?thesis by (simp add: QpBreak)
qed

lemma qp_steps:
  "list_all qp_ok items \<Longrightarrow> dsteps qp_mode (concat (map qp_text items)) (concat (map qp_octets items)) qp_mode"
  by (induction items) (auto intro: dsteps.none dsteps_append [OF qp_item_steps])

subsection \<open>Base64 text\<close>

definition b64_mode :: "b64 \<Rightarrow> dec_pred" where
  "b64_mode b p \<longleftrightarrow> fst p = DecodeBase64 \<and> fst (snd p) = b"

fun b64_run :: "int list \<Rightarrow> b64 \<Rightarrow> int list \<times> b64" where
  "b64_run [] b = ([], b)"
| "b64_run (c # cs) b =
     (let (x, b) = b64Decode c b; (xs, b) = b64_run cs b in ((if 0 \<le> x then [x] else []) @ xs, b))"

lemma on_decode_b64: "on_decode f m = Inr m' \<Longrightarrow> b64_state m' = b64_state m"
  by (auto simp: on_decode_def andthen_Inr)

lemma mimeDecodeFlush_b64: "mimeDecodeFlush m = Inr m' \<Longrightarrow> b64_state m' = b64_state m"
  by (auto simp: mimeDecodeFlush_def mimeDoHook_def dest!: on_decode_b64 split: if_splits)

lemma mimeDecodeAppend_b64: "mimeDecodeAppend ch m = Inr m' \<Longrightarrow> b64_state m' = b64_state m"
  by (auto simp: mimeDecodeAppend_def Let_def mimeDoHookOctet_def andthen_Inr
      dest!: on_decode_b64 mimeDecodeFlush_b64 split: if_splits)

lemma mimeDecodeAdd_b64: "mimeDecodeAdd ch m = Inr m' \<Longrightarrow> b64_state m' = b64_state m"
  by (auto simp: mimeDecodeAdd_def andthen_Inr dest!: mimeDecodeAppend_b64 on_decode_b64 split: if_splits)

lemma base64_step: "dstep (b64_mode b) ch (let x = fst (b64Decode ch b) in if 0 \<le> x then [x] else []) (b64_mode (snd (b64Decode ch b)))"
proof (rule dstepI [where f = "mimeStateBase64 ch"])
  fix m assume m: "decode_ok m" "b64_mode b (dec_part m)"
  then show "decode_fn (decode_state m) ch m = mimeStateBase64 ch m"
    by (simp add: b64_mode_def dec_part_def decode_fn_def)
  have "runs (\<lambda>m'. decode_ok m' \<and> decode_state m' = decode_state m \<and>
      (let x = fst (b64Decode ch (b64_state m)) in gives (if 0 \<le> x then [x] else []) m m')) (mimeStateBase64 ch m)"
    using m by (intro mimeStateBase64_ok) (auto simp: b64_mode_def dec_part_def)
  moreover have "b64_state m' = snd (b64Decode ch (b64_state m))" if "mimeStateBase64 ch m = Inr m'" for m'
    using that by (auto simp: mimeStateBase64_def Let_def split: prod.splits if_splits dest: mimeDecodeAdd_b64)
  ultimately show "runs (\<lambda>m'. (decode_ok m' \<and> b64_mode (snd (b64Decode ch b)) (dec_part m')) \<and>
      gives (let x = fst (b64Decode ch b) in if 0 \<le> x then [x] else []) m m') (mimeStateBase64 ch m)"
    using m(2) by (auto simp: runs_iff b64_mode_def dec_part_def Let_def)
qed

lemma base64_steps: "list_all octet cs \<Longrightarrow> dsteps (b64_mode b) cs (fst (b64_run cs b)) (b64_mode (snd (b64_run cs b)))"
proof (induction cs arbitrary: b)
  case (Cons c cs)
  then show ?case using dsteps.more [OF base64_step [of b c] _ Cons.IH] by (simp add: Let_def case_prod_unfold)
qed (simp add: dsteps.none)

text \<open>Octets that the decoder passes over: everything but the digits and the pad.\<close>

definition b64_ignored :: "int \<Rightarrow> bool" where
  "b64_ignored c \<longleftrightarrow> c \<noteq> 61 \<and> decodeSet ! nat c = BASE64_NEXT"

lemma b64_run_ignored: "list_all octet cs \<Longrightarrow> b64_run cs b = b64_run (filter (\<lambda>c. \<not> b64_ignored c) cs) b"
proof (induction cs arbitrary: b)
  case (Cons c cs)
  have "b64Decode c b = (BASE64_NEXT, b)" if "b64_ignored c"
    using that Cons.prems by (simp add: b64Decode_def b64_ignored_def octet_def PAD_def ord_def)
  then show ?case using Cons by (auto simp: Let_def b64_codes split: prod.splits)
qed simp

lemma encodeSet_ascii: "list_all (\<lambda>c. ord c < 128) encodeSet"
  by (simp add: encodeSet_def ord_def)

lemma schar_text:
  assumes "0 \<le> v" "v < 64"
  shows "int (ord (enc v)) = schar (enc v)"
proof -
  have "ord (encodeSet ! nat v) < 128"
    using encodeSet_ascii length_encodeSet assms by (auto simp: list_all_length)
  then show ?thesis by (simp add: enc_def schar_def)
qed

lemma schar_PAD: "int (ord PAD) = schar PAD"
  by (simp add: PAD_def schar_def ord_def)

lemma schar_digits:
  assumes "octet x"
  shows "int (ord (enc (x div 4))) = schar (enc (x div 4))"
    "octet y \<Longrightarrow> int (ord (enc (x mod 4 * 16 + y div 16))) = schar (enc (x mod 4 * 16 + y div 16))"
    "octet y \<Longrightarrow> int (ord (enc (x mod 16 * 4 + y div 64))) = schar (enc (x mod 16 * 4 + y div 64))"
    "int (ord (enc (x mod 64))) = schar (enc (x mod 64))"
    "int (ord (enc (x mod 4 * 16))) = schar (enc (x mod 4 * 16))"
    "int (ord (enc (x mod 16 * 4))) = schar (enc (x mod 16 * 4))"
  using assms digit_sum_2 [of y x] digit_sum_3 [of y x] digit_sum_2 [OF octet_0, of x] digit_sum_3 [OF octet_0, of x]
  by (auto intro!: schar_text)

lemma b64_run_text:
  assumes "list_all octet bs" "st b = START \<or> st b = DECODE_A"
  shows "fst (b64_run (map (\<lambda>c. int (ord c)) (b64_text bs)) b) = bs \<and>
    (let b' = snd (b64_run (map (\<lambda>c. int (ord c)) (b64_text bs)) b)
     in if length bs mod 3 = 0 then st b' = START \<or> st b' = DECODE_A else st b' = STATE_EOF)"
  using assms
proof (induction bs arbitrary: b rule: b64_text.induct)
  case (2 x)
  have "b64Decode (schar (enc (x mod 4 * 16))) \<lparr>hold = x div 4, st = DECODE_B\<rparr> =
      (x, \<lparr>hold = x mod 4 * 16, st = DECODE_C\<rparr>)" using decode_digit_2 [of x 0] 2 octet_0 by simp
  then show ?case using 2 by (simp add: decode_digit_1 b64Decode_pad schar_digits schar_PAD decode_value_def Let_def case_prod_unfold b64_codes)
next
  case (3 x y)
  have "b64Decode (schar (enc (y mod 16 * 4))) \<lparr>hold = x mod 4 * 16 + y div 16, st = DECODE_C\<rparr> =
      (y, \<lparr>hold = y mod 16 * 4, st = DECODE_D\<rparr>)" using decode_digit_3 [of y 0 x] 3 octet_0 by simp
  then show ?case using 3
    by (simp add: decode_digit_1 decode_digit_2 b64Decode_pad schar_digits schar_PAD decode_value_def Let_def case_prod_unfold b64_codes)
next
  case (4 x y z r)
  show ?case
    using 4(2-) 4(1) [of "\<lparr>hold = y mod 16 * 4 + z div 64, st = DECODE_A\<rparr>"]
    by (simp add: decode_digits schar_digits Let_def case_prod_unfold b64_codes)
qed simp


subsection \<open>The body of a part\<close>

text \<open>In a body without parts, \<open>cs\<close> went into the source buffer and \<open>x\<close> out of the decoder.\<close>

definition body_gives :: "int list \<Rightarrow> int list \<Rightarrow> mime \<Rightarrow> mime \<Rightarrow> bool" where
  "body_gives cs x m m' \<longleftrightarrow>
     source_state m' = Bdy \<and> \<not> is_multipart m' \<and> mime_ok m' \<and>
     octets_at SourceFlush m' @ buf_data (source m') = octets_at SourceFlush m @ buf_data (source m) @ cs \<and>
     decoded m' @ held m' = decoded m @ held m @ x \<and>
     octets_at DecodeFlush m' @ buf_data (decode m') @ held m' =
       octets_at DecodeFlush m @ buf_data (decode m) @ held m @ x"

lemma body_gives_trans: "body_gives cs x m m' \<Longrightarrow> body_gives ds y m' m'' \<Longrightarrow> body_gives (cs @ ds) (x @ y) m m''"
  unfolding body_gives_def by (metis append.assoc)

lemma octets_at_other:
  assumes "filter (\<lambda>e. point e \<noteq> SourceFlush) (trace m') = filter (\<lambda>e. point e \<noteq> SourceFlush) (trace m)" "pt \<noteq> SourceFlush"
  shows "octets_at pt m' = octets_at pt m"
proof -
  have "filter (\<lambda>e. point e = pt) es = filter (\<lambda>e. point e = pt) (filter (\<lambda>e. point e \<noteq> SourceFlush) es)" for es
    using assms(2) by (auto simp: filter_filter intro: filter_cong)
  then show ?thesis unfolding octets_at_def using assms(1) by metis
qed

text \<open>Flushing a full source buffer loses nothing.\<close>

lemma body_flush:
  assumes "mime_room m" "source_state m = Bdy" "\<not> is_multipart m"
  shows "runs (\<lambda>m'. mime_ok m' \<and> dec_part m' = dec_part m \<and> body_gives [] [] m m')
    (if length (octets (source m)) - 1 \<le> len (source m) then mimeSourceFlush m else Inr m)"
proof -
  have fl: "mimeSourceFlush m = Inr (flushed m)" using mime_room_len [OF assms(1)] by (rule mimeSourceFlush_flushed)
  have ok: "mime_ok (flushed m)" using flushed_room [OF assms(1)] by (simp add: mime_ok_def mime_room_def)
  have "body_gives [] [] m (flushed m)"
    using ok assms mime_room_len [OF assms(1)] octets_at_other [OF flushed_events, of _ m]
    by (simp add: body_gives_def flushed_octets decoded_def) (simp add: buf_data_def)
  moreover have "mime_ok m" if "\<not> length (octets (source m)) - 1 \<le> len (source m)"
    using that assms(1) by (auto simp: mime_ok_def)
  ultimately show ?thesis using fl ok assms by (auto simp: dec_part_def body_gives_def)
qed

lemma mimeStateBdy_gives:
  assumes "entered m" "source_state m = Bdy" "\<not> is_multipart m" "octet ch" "dstep S ch x T" "S (dec_part m)"
    "octets (source m) ! (len (source m) - 1) = ch"
  shows "runs (\<lambda>m'. mime_room m' \<and> source_state m' = Bdy \<and> \<not> is_multipart m' \<and> T (dec_part m') \<and>
      octets_at SourceFlush m' @ buf_data (source m') = octets_at SourceFlush m @ buf_data (source m) \<and>
      decoded m' @ held m' = decoded m @ held m @ x \<and>
      octets_at DecodeFlush m' @ buf_data (decode m') @ held m' =
        octets_at DecodeFlush m @ buf_data (decode m) @ held m @ x) (mimeStateBdy ch m)"
    (is "runs ?Q _")
proof -
  have dec: "runs (\<lambda>n'. mime_room n' \<and> source_side n' = source_side n \<and> T (dec_part n') \<and> gives x n n') (mimeDecodeState ch n)"
    if n: "mime_room n" "source_state n = Bdy" "S (dec_part n)" for n
  proof -
    have "\<not> in_header n" using n(2) by (simp add: in_header_def mimeIsAnyHeader_def)
    moreover have "runs (\<lambda>n'. (decode_ok n' \<and> T (dec_part n')) \<and> gives x n n') (mimeDecodeState ch n)"
      using assms(5) n by (simp add: dstep_def mime_room_def)
    ultimately show ?thesis using gives_mime_room [OF _ _ n(1)] by (auto elim!: runs_mono)
  qed
  have m: "mime_room m" "0 < len (source m)" using assms(1) by (auto simp: entered_def)
  have hdr: "\<not> mimeIsAnyHeader m" using assms(2) by (simp add: mimeIsAnyHeader_def)
  show ?thesis
  proof (cases "ch = ASCII_LF")
    case True
    have step: "runs ?Q (mimeDecodeState ASCII_LF n)"
      if n: "mime_room n" "same_but_source m n"
        "octets_at SourceFlush n @ buf_data (source n) = octets_at SourceFlush m @ buf_data (source m)"
        "filter (\<lambda>e. point e \<noteq> SourceFlush) (trace n) = filter (\<lambda>e. point e \<noteq> SourceFlush) (trace m)" for n
    proof -
      note same = same_but_sourceD [OF n(2)] octets_at_other [OF n(4)]
      have p: "dec_part n = dec_part m" using same by (simp add: dec_part_def)
      have n': "source_state n = Bdy" "S (dec_part n)" using assms(2,6) p same by simp_all
      show ?thesis unfolding True [symmetric]
      proof (rule runs_mono [OF dec [OF n(1) n']])
        fix n' assume n': "mime_room n' \<and> source_side n' = source_side n \<and> T (dec_part n') \<and> gives x n n'"
        then show "?Q n'" using source_sideD(1,2,3) [of n' n] n(3) same hdr assms(2,3)
          by (simp add: gives_def decoded_def)
      qed
    qed
    show ?thesis unfolding mimeStateBdy_def if_P [OF True] runs_simps
    proof (rule runs_mono [OF flush_line_room [OF m]])
      fix n assume "mime_room n \<and> same_but_source m n \<and> 0 < len (source n) \<and> len (source n) \<le> len (source m) \<and>
        (octets (source m) ! (len (source m) - 1) = ASCII_LF \<longrightarrow>
         octets_at SourceFlush n @ buf_data (source n) = octets_at SourceFlush m @ buf_data (source m)) \<and>
        filter (\<lambda>e. point e \<noteq> SourceFlush) (trace n) = filter (\<lambda>e. point e \<noteq> SourceFlush) (trace m)"
      then have n: "mime_room n" "same_but_source m n"
        "octets_at SourceFlush n @ buf_data (source n) = octets_at SourceFlush m @ buf_data (source m)"
        "filter (\<lambda>e. point e \<noteq> SourceFlush) (trace n) = filter (\<lambda>e. point e \<noteq> SourceFlush) (trace m)"
        using assms(7) True by auto
      have "\<not> is_multipart n" using same_but_sourceD(2) [OF n(2)] assms(3) by simp
      then show "runs ?Q (if is_multipart n then Inr (n\<lparr>source_state := BdyLF\<rparr>) else mimeDecodeState ASCII_LF n)"
        using step [OF n] by simp
    qed
  next
    case False
    show ?thesis unfolding mimeStateBdy_def if_not_P [OF False]
    proof (rule runs_mono [OF dec [OF m(1) assms(2,6)]])
      fix n assume n: "mime_room n \<and> source_side n = source_side m \<and> T (dec_part n) \<and> gives x m n"
      then show "?Q n" using source_sideD(1,2,3) [of n m] hdr assms(2,3) by (simp add: gives_def)
    qed
  qed
qed

lemma runs_checked [simp]: "runs P (checked x) = runs P x"
  by (cases x) simp_all

text \<open>The record once an octet has arrived, before the state function is called.\<close>

definition arrive :: "int \<Rightarrow> mime \<Rightarrow> mime" where
  "arrive ch m = m\<lparr>mime_part_length := mime_part_length m + 1, mime_body_length := mime_body_length m + 1,
     mime_message_length := mime_message_length m + 1,
     source := \<lparr>len = len (source m) + 1, octets = (octets (source m))[len (source m) := ch]\<rparr>\<rparr>"

lemma mimeNextCh_arrive:
  assumes "len (source m) < length (octets (source m))" "octet ch"
  shows "mimeNextCh (Some m) ch = andthen (source_fn 2 ch (arrive ch m)) (\<lambda>m.
      andthen (checked (if length (octets (source m)) - 1 \<le> len (source m) then mimeSourceFlush m else Inr m)) (\<lambda>m.
      Inr (MIME_ERROR_OK, m)))"
proof -
  have ne: "ch \<noteq> EOF" "0 \<le> ch" "ch \<le> 255" using assms(2) by (auto simp: octet_def EOF_def)
  have push: "on_source (buf_push ch) (m\<lparr>mime_part_length := mime_part_length m + 1,
        mime_body_length := mime_body_length m + 1, mime_message_length := mime_message_length m + 1\<rparr>) = Inr (arrive ch m)"
    using assms by (simp add: source_push arrive_def)
  show ?thesis unfolding mimeNextCh_def option.case push
    using ne by (simp add: push if_distrib [of checked] cong: if_cong)
qed

lemma Bdy_next:
  assumes "mime_ok m" "source_state m = Bdy" "\<not> is_multipart m" "octet ch" "dstep S ch x T" "S (dec_part m)"
  shows "runs (\<lambda>(e, m'). e = MIME_ERROR_OK \<and> T (dec_part m') \<and> body_gives [ch] x m m') (mimeNextCh (Some m) ch)"
proof -
  let ?p = "arrive ch m"
  have room: "mime_room m" "len (source m) + 2 \<le> length (octets (source m))" using assms(1) by (auto simp: mime_ok_def)
  have p: "entered ?p" "source_state ?p = Bdy" "\<not> is_multipart ?p" "dec_part ?p = dec_part m" "S (dec_part ?p)"
      "octets (source ?p) ! (len (source ?p) - 1) = ch" "decode ?p = decode m" "held ?p = held m" "decoded ?p = decoded m"
      "octets_at pt ?p = octets_at pt m" "buf_data (source ?p) = buf_data (source m) @ [ch]" for pt
    using assms room
    by (auto simp: arrive_def entered_def mime_room_def in_header_def mimeIsAnyHeader_def decode_ok_def decode_room_def list_all_update
        dec_part_def held_def decoded_def octets_at_def buf_data_def take_Suc_update simp del: decode_ok_room)
  have fn: "source_fn 2 ch ?p = checked (mimeStateBdy ch ?p)" using p(2) by (simp add: numeral_2_eq_2)
  have eq: "mimeNextCh (Some m) ch = andthen (checked (mimeStateBdy ch ?p)) (\<lambda>m.
      andthen (checked (if length (octets (source m)) - 1 \<le> len (source m) then mimeSourceFlush m else Inr m)) (\<lambda>m.
      Inr (MIME_ERROR_OK, m)))"
    using room assms(4) by (simp add: mimeNextCh_arrive fn)
  show ?thesis unfolding eq runs_simps runs_checked
  proof (rule runs_mono [OF mimeStateBdy_gives [OF p(1,2,3) assms(4,5) p(5,6)]], elim conjE)
    fix n
    assume n: "mime_room n" "source_state n = Bdy" "\<not> is_multipart n" "T (dec_part n)"
      "octets_at SourceFlush n @ buf_data (source n) = octets_at SourceFlush ?p @ buf_data (source ?p)"
      "decoded n @ held n = decoded ?p @ held ?p @ x"
      "octets_at DecodeFlush n @ buf_data (decode n) @ held n =
        octets_at DecodeFlush ?p @ buf_data (decode ?p) @ held ?p @ x"
    show "runs (\<lambda>y. case (MIME_ERROR_OK, y) of (e, m') \<Rightarrow> e = MIME_ERROR_OK \<and> T (dec_part m') \<and> body_gives [ch] x m m')
        (if length (octets (source n)) - 1 \<le> len (source n) then mimeSourceFlush n else Inr n)"
    proof (rule runs_mono [OF body_flush [OF n(1-3)]])
      fix y assume y: "mime_ok y \<and> dec_part y = dec_part n \<and> body_gives [] [] n y"
      then have "body_gives [ch] x m y"
        unfolding body_gives_def using n(5-7) p(7-11) by simp
      then show "case (MIME_ERROR_OK, y) of (e, m') \<Rightarrow> e = MIME_ERROR_OK \<and> T (dec_part m') \<and> body_gives [ch] x m m'"
        using y n(4) by simp
    qed
  qed
qed


lemma body_feed:
  "dsteps S cs x T \<Longrightarrow> mime_ok m \<Longrightarrow> source_state m = Bdy \<Longrightarrow> \<not> is_multipart m \<Longrightarrow> S (dec_part m) \<Longrightarrow>
    runs (\<lambda>m'. T (dec_part m') \<and> body_gives cs x m m') (mimeFeed cs m)"
proof (induction arbitrary: m rule: dsteps.induct)
  case (none S)
  then show ?case by (simp add: body_gives_def)
next
  case (more S ch x T cs y U)
  show ?case unfolding mimeFeed.simps runs_simps
  proof (rule runs_mono [OF Bdy_next [OF more.prems(1-3) more.hyps(2,1) more.prems(4)]], elim case_prodE conjE)
    fix r e n assume r: "r = (e, n)" and n: "T (dec_part n)" "body_gives [ch] x m n"
    have "runs (\<lambda>m'. U (dec_part m') \<and> body_gives cs y n m') (mimeFeed cs n)"
      using n by (intro more.IH) (simp_all add: body_gives_def)
    then show "runs (\<lambda>m'. U (dec_part m') \<and> body_gives (ch # cs) (x @ y) m m') (case r of (_, m) \<Rightarrow> mimeFeed cs m)"
      unfolding r prod.case
      by (rule runs_mono) (use body_gives_trans [OF n(2), of cs y] in auto)
  qed
qed

text \<open>The end of the input flushes both buffers.\<close>

lemma EOF_next:
  assumes "mime_ok m" "\<not> mimeIsAnyHeader m" "runs (\<lambda>n. gives [] m n \<and> held n = []) (mimeDecodeState EOF m)"
  shows "runs (\<lambda>(e, m'). e = MIME_ERROR_OK \<and>
      octets_at SourceFlush m' = octets_at SourceFlush m @ buf_data (source m) \<and>
      octets_at DecodeFlush m' = octets_at DecodeFlush m @ buf_data (decode m) @ held m \<and>
      decoded m' = decoded m @ held m \<and>
      (\<exists>v c. last (trace m') = Event BodyFinish v c)) (mimeNextCh (Some m) EOF)"
    (is "runs ?Q _")
proof -
  have eq: "mimeNextCh (Some m) EOF = andthen (checked (andthen (mimeDecodeState EOF m) mimeDecodeFlush)) (\<lambda>m.
      andthen (checked (mimeSourceFlush m)) (\<lambda>m. Inr (MIME_ERROR_OK, mimeBodyFinish m)))"
    by (simp add: mimeNextCh_def)
  show ?thesis unfolding eq runs_simps runs_checked
  proof (rule runs_mono [OF assms(3)], elim conjE)
    fix n assume n: "gives [] m n" "held n = []"
    have hdr: "mimeIsAnyHeader n = mimeIsAnyHeader m" using n(1) by (auto simp: gives_def dest: source_sideD(13))
    have fl: "runs (\<lambda>m'. gives [] n m' \<and> len (decode m') = 0 \<and> decode_state m' = decode_state n \<and> held m' = held n
        \<and> b64_state m' = b64_state n) (mimeDecodeFlush n)"
      using gives_room [OF n(1)] by (intro mimeDecodeFlush_gives) (auto simp: decode_room_def)
    show "runs (\<lambda>y. runs (\<lambda>y. ?Q (MIME_ERROR_OK, mimeBodyFinish y)) (mimeSourceFlush y)) (mimeDecodeFlush n)"
    proof (rule runs_mono [OF fl], elim conjE)
      fix k assume k: "gives [] n k" "len (decode k) = 0" "held k = held n"
      have g: "gives [] m k" using gives_trans [OF n(1) k(1)] by simp
      then have side: "source k = source m" "mimeIsAnyHeader k = mimeIsAnyHeader m"
        by (auto simp: gives_def dest: source_sideD(1,13))
      have room: "len (source k) < length (octets (source k))" using assms(1) side(1) by (simp add: mime_ok_def mime_room_len)
      have fin: "octets_at pt (mimeBodyFinish y) = octets_at pt y @ (if pt = BodyFinish \<and> \<not> mimeIsAnyHeader y then [] else [])"
        "\<not> mimeIsAnyHeader y \<Longrightarrow> last (trace (mimeBodyFinish y)) = Event BodyFinish [] (hooks_at BodyFinish y)" for pt y
        by (auto simp: mimeBodyFinish_def mimeDoHook_def octets_at_def hook_view_def)
      show "runs (\<lambda>y. ?Q (MIME_ERROR_OK, mimeBodyFinish y)) (mimeSourceFlush k)"
        using g k n(2) side assms(2) flushed_octets(3) [OF room]
        by (simp add: mimeSourceFlush_flushed [OF room] fin gives_def decoded_def buf_data_def)
    qed
  qed
qed

datatype transfer = AsIs "int list" | Qp "qp_item list" | B64 "int list" "int list"

fun transfer_mode :: "transfer \<Rightarrow> decode_state" where
  "transfer_mode (AsIs cs) = DecodeAdd"
| "transfer_mode (Qp items) = QpLiteral"
| "transfer_mode (B64 cs xs) = DecodeBase64"

fun transfer_text :: "transfer \<Rightarrow> int list" where
  "transfer_text (AsIs cs) = cs"
| "transfer_text (Qp items) = concat (map qp_text items)"
| "transfer_text (B64 cs xs) = cs"

fun transfer_octets :: "transfer \<Rightarrow> int list" where
  "transfer_octets (AsIs cs) = cs"
| "transfer_octets (Qp items) = concat (map qp_octets items)"
| "transfer_octets (B64 cs xs) = xs"

text \<open>A Base64 text may have other characters, such as newlines, anywhere between its digits. Without
  padding its last octet must not be a carriage return, which the parser would lose.\<close>

fun transfer_ok :: "transfer \<Rightarrow> bool" where
  "transfer_ok (AsIs cs) \<longleftrightarrow> list_all octet cs"
| "transfer_ok (Qp items) \<longleftrightarrow> list_all qp_ok items"
| "transfer_ok (B64 cs xs) \<longleftrightarrow> list_all octet cs \<and> list_all octet xs \<and>
     filter (\<lambda>c. \<not> b64_ignored c) cs = map (\<lambda>c. int (ord c)) (b64_text xs) \<and>
     xs \<noteq> [] \<and> (length xs mod 3 \<noteq> 0 \<or> last xs \<noteq> ASCII_CR)"

definition part_start :: "transfer \<Rightarrow> mime \<Rightarrow> bool" where
  "part_start t m \<longleftrightarrow> mime_ok m \<and> \<not> is_multipart m \<and> decode_state m = transfer_mode t \<and>
     st (b64_state m) = START \<and> held m = []"

lemma transfer_eof:
  assumes "decode_ok m" "transfer_ok t" "decode_state m = transfer_mode t \<or> transfer_mode t = QpLiteral \<and> decode_state m = QpSoftLine"
    "transfer_mode t = DecodeBase64 \<Longrightarrow> st (b64_state m) = STATE_EOF \<or> (st (b64_state m) = START \<or> st (b64_state m) = DECODE_A) \<and> held m = []"
  shows "runs (\<lambda>n. gives [] m n \<and> held n = []) (mimeDecodeState EOF m)"
proof -
  let ?h = "mimeDoHookOctet SourceOctet EOF m"
  have h: "decode_ok ?h" "decode_room ?h" "gives [] m ?h" using assms(1) by (auto simp: source_octet_gives)
  have hh: "held ?h = held m" by (simp add: held_def mimeDoHookOctet_def)
  have add: "runs (\<lambda>n. gives [] m n \<and> held n = []) (mimeDecodeAdd EOF y)" if "gives [] m y" for y
    by (rule runs_mono [OF mimeDecodeAdd_gives [OF gives_room [OF that]]]) (use gives_trans [OF that] in auto)
  have b64: "runs (\<lambda>n. gives [] m n \<and> held n = []) (mimeStateBase64 EOF ?h)" if "transfer_mode t = DecodeBase64"
  proof -
    have g: "gives [] m (?h\<lparr>b64_state := b\<rparr>)" for b
      using gives_trans [OF h(3) mode_change_gives(2) [OF h(2)]] by simp
    have hb: "held (?h\<lparr>b64_state := b\<rparr>) = held m" for b using hh by (simp add: held_def)
    have "b64_state ?h = b64_state m" by (simp add: source_octet_gives)
    moreover have "b64Decode EOF (b64_state m) = (if st (b64_state m) = STATE_EOF then (BASE64_EOF, b64_state m)
        else (BASE64_NEXT, (b64_state m)\<lparr>st := DECODE_PAD3\<rparr>))"
      using assms(4) [OF that] by (auto simp: b64Decode_def decode_value_def EOF_def Let_def PAD_def ord_def)
    ultimately show ?thesis using assms(4) [OF that] add [OF g] g hb
      by (auto simp: mimeStateBase64_def BASE64_EOF_def BASE64_NEXT_def EOF_def)
  qed
  have "(transfer_mode t = DecodeAdd \<or> transfer_mode t = QpLiteral) \<or> transfer_mode t = DecodeBase64" by (cases t) auto
  then show ?thesis using assms(3) add [OF h(3)] b64
    by (auto simp: mimeDecodeState_def Let_def source_octet_gives decode_fn_def mimeStateQpLiteral_def
        mimeStateQpSoftLine_def EOF_def)
qed

lemma transfer_feed:
  assumes "mime_ok m" "source_state m = Bdy" "part_start t m" "transfer_ok t"
  shows "runs (\<lambda>n. body_gives (transfer_text t) (transfer_octets t) m n \<and>
    runs (\<lambda>n'. gives [] n n' \<and> held n' = []) (mimeDecodeState EOF n)) (mimeFeed (transfer_text t) m)"
proof -
  have m: "\<not> is_multipart m" using assms(3) by (simp add: part_start_def)
  have ok: "decode_ok n" if "body_gives cs x m n" for cs x n using that by (simp add: body_gives_def mime_ok_def mime_room_def)
  show ?thesis
  proof (cases t)
    case (AsIs cs)
    have "runs (\<lambda>n. literal_mode (dec_part n) \<and> body_gives cs cs m n) (mimeFeed cs m)"
      by (rule body_feed [OF literal_steps]) (use assms m AsIs in \<open>auto simp: part_start_def literal_mode_def dec_part_def\<close>)
    then show ?thesis using ok transfer_eof [OF _ assms(4)]
      by (auto simp: AsIs literal_mode_def dec_part_def elim!: runs_mono)
  next
    case (Qp items)
    have "runs (\<lambda>n. qp_mode (dec_part n) \<and> body_gives (concat (map qp_text items)) (concat (map qp_octets items)) m n)
        (mimeFeed (concat (map qp_text items)) m)"
      by (rule body_feed [OF qp_steps]) (use assms m Qp in \<open>auto simp: part_start_def qp_mode_def dec_part_def\<close>)
    then show ?thesis using ok transfer_eof [OF _ assms(4)]
      by (auto simp: Qp qp_mode_def dec_part_def elim!: runs_mono)
  next
    case (B64 cs xs)
    let ?b = "b64_state m"
    have t: "list_all octet cs" "list_all octet xs" "filter (\<lambda>c. \<not> b64_ignored c) cs = map (\<lambda>c. int (ord c)) (b64_text xs)"
        "xs \<noteq> []" "length xs mod 3 \<noteq> 0 \<or> last xs \<noteq> ASCII_CR" "st ?b = START" "held m = []"
      using assms(3,4) by (simp_all add: B64 part_start_def)
    have run: "b64_run cs ?b = b64_run (map (\<lambda>c. int (ord c)) (b64_text xs)) ?b"
      using b64_run_ignored [OF t(1)] t(3) by simp
    have "runs (\<lambda>n. b64_mode (snd (b64_run cs ?b)) (dec_part n) \<and> body_gives cs xs m n) (mimeFeed cs m)"
    proof (rule body_feed)
      show "dsteps (b64_mode ?b) cs xs (b64_mode (snd (b64_run cs ?b)))"
        using base64_steps [OF t(1), of ?b] b64_run_text [OF t(2), of ?b] t(6) run by simp
    qed (use assms m B64 in \<open>auto simp: part_start_def b64_mode_def dec_part_def\<close>)
    then show ?thesis unfolding B64 transfer_text.simps transfer_octets.simps
    proof (rule runs_mono, elim conjE, intro conjI)
      fix n assume n: "b64_mode (snd (b64_run cs ?b)) (dec_part n)" "body_gives cs xs m n"
      have "held n = []" if "length xs mod 3 = 0"
      proof -
        have "decoded n @ held n = decoded m @ xs" using n(2) t(7) by (simp add: body_gives_def)
        then have "last (decoded n @ held n) = last xs" using t(4) by simp
        then show ?thesis using t(5) that by (auto simp: held_def split: if_splits)
      qed
      then show "runs (\<lambda>n'. gives [] n n' \<and> held n' = []) (mimeDecodeState EOF n)"
        using n ok [OF n(2)] b64_run_text [OF t(2), of ?b] t(6) run
        by (intro transfer_eof [OF _ assms(4)]) (auto simp: B64 b64_mode_def dec_part_def Let_def split: if_splits)
    qed
  qed
qed



definition demo_part :: mime where
  "demo_part = (mimeZero 16)\<lparr>source_state := Bdy, decode_state := QpLiteral\<rparr>"

lemma demo_part_start: "source_state demo_part = Bdy" "part_start (Qp items) demo_part"
  "buf_data (source demo_part) = []" "buf_data (decode demo_part) = []" "octets_at pt demo_part = []" "decoded demo_part = []"
  by (simp_all add: demo_part_def mimeZero_def part_start_def mime_ok_def mime_room_def in_header_def mimeIsAnyHeader_def
      decode_ok_def decode_room_def held_def list_all_replicate octet_def buf_data_def octets_at_def decoded_def)


end
