(* ===== verification/MimeBoundary.thy ===== *)
theory MimeBoundary
  imports MimeBodies
begin

text \<open>
  Boundary lines of a multipart message (\<^verbatim>\<open>mail/mime.c\<close>, the states \<open>Bdy\<close>, \<open>BdyLF\<close>, \<open>Dash1\<close>,
  \<open>Dash2\<close> and \<open>Boundary\<close>): what is gathered in the source buffer, and the end of a part.
\<close>

section \<open>Boundary lines\<close>

lemma boundary_char_not_space: "octet c \<Longrightarrow> mimeIsBoundaryChar c \<Longrightarrow> \<not> is_space c"
proof -
  assume c: "octet c" "mimeIsBoundaryChar c"
  have "\<not> isspace (char_of_int c)"
  proof (cases "is_alnum c \<or> char_of_int c = NUL")
    case True
    then show ?thesis by (auto simp: is_alnum_def ctype_defs isspace_def)
  next
    case False
    then have "char_of_int c \<in> set BCHARSNOSPACE"
      using c(2) by (simp add: mimeIsBoundaryChar_def mimeNoSpaceBoundary_def in_set_iff)
    moreover have "list_all (\<lambda>d. \<not> isspace d) BCHARSNOSPACE"
      by (simp add: BCHARSNOSPACE_def isspace_def ord_def)
    ultimately show ?thesis by (auto simp: list_all_iff)
  qed
  then show ?thesis by (simp add: is_space_def)
qed

lemma boundary_char_not_newline: "octet c \<Longrightarrow> mimeIsBoundaryChar c \<Longrightarrow> c \<noteq> ASCII_LF \<and> c \<noteq> ASCII_CR"
  using boundary_char_not_space [of c] by (auto simp: is_space_def ascii_defs char_of_int_def isspace_def ord_chr)

text \<open>Octets gathered in the source buffer while only the source state changes.\<close>

definition gathered :: "source_state \<Rightarrow> int list \<Rightarrow> mime \<Rightarrow> mime \<Rightarrow> bool" where
  "gathered s cs m m' \<longleftrightarrow> (\<exists>a b c. m' = m\<lparr>mime_part_length := a, mime_body_length := b,
     mime_message_length := c, source := source m', source_state := s\<rparr>) \<and>
     len (source m') = len (source m) + length cs \<and> length (octets (source m')) = length (octets (source m)) \<and>
     buf_data (source m') = buf_data (source m) @ cs \<and> list_all octet (octets (source m'))"

lemma gathered_trans: "gathered s cs m m' \<Longrightarrow> gathered t ds m' m'' \<Longrightarrow> gathered t (cs @ ds) m m''"
  unfolding gathered_def by (elim exE conjE) (cases m; cases m'; cases m''; auto)

lemma gatheredD:
  assumes "gathered s cs m m'"
  shows "source_state m' = s" "is_multipart m' = is_multipart m" "encoding m' = encoding m" "decode m' = decode m"
    "decode_state m' = decode_state m" "decode_state_cr m' = decode_state_cr m" "trace m' = trace m"
    "mime_part_number m' = mime_part_number m" "hooks m' = hooks m" "dec_part m' = dec_part m" "held m' = held m"
    "decoded m' = decoded m" "octets_at pt m' = octets_at pt m" "decode_ok m' = decode_ok m"
proof -
  obtain a b c d where m': "m' = m\<lparr>mime_part_length := a, mime_body_length := b,
     mime_message_length := c, source := d, source_state := s\<rparr>"
    using assms unfolding gathered_def by blast
  show "source_state m' = s" "is_multipart m' = is_multipart m" "encoding m' = encoding m" "decode m' = decode m"
    "decode_state m' = decode_state m" "decode_state_cr m' = decode_state_cr m" "trace m' = trace m"
    "mime_part_number m' = mime_part_number m" "hooks m' = hooks m" "dec_part m' = dec_part m" "held m' = held m"
    "decoded m' = decoded m" "octets_at pt m' = octets_at pt m" "decode_ok m' = decode_ok m"
    by (simp_all add: m' dec_part_def held_def decoded_def octets_at_def decode_ok_def decode_room_def del: decode_ok_room)
qed

text \<open>A state function that only sets the next state.\<close>

lemma quiet_step:
  assumes "mime_ok m" "octet ch" "source_fn 2 ch (arrive ch m) = Inr ((arrive ch m)\<lparr>source_state := s\<rparr>)"
    "len (source m) + 3 \<le> length (octets (source m))"
  shows "\<exists>m'. mimeNextCh (Some m) ch = Inr (MIME_ERROR_OK, m') \<and> gathered s [ch] m m'"
proof -
  have "mimeNextCh (Some m) ch = Inr (MIME_ERROR_OK, (arrive ch m)\<lparr>source_state := s\<rparr>)"
  proof -
    have "len (source m) < length (octets (source m))" "\<not> length (octets (source m)) - 1 \<le> len (source m) + 1"
      using assms(4) by arith+
    then show ?thesis using assms(3) by (simp add: mimeNextCh_arrive [OF _ assms(2)]) (simp add: arrive_def)
  qed
  moreover have "gathered s [ch] m ((arrive ch m)\<lparr>source_state := s\<rparr>)"
    unfolding gathered_def
  proof (intro conjI exI)
    show "(arrive ch m)\<lparr>source_state := s\<rparr> = m\<lparr>mime_part_length := mime_part_length m + 1,
        mime_body_length := mime_body_length m + 1, mime_message_length := mime_message_length m + 1,
        source := source ((arrive ch m)\<lparr>source_state := s\<rparr>), source_state := s\<rparr>"
      by (simp add: arrive_def)
  qed (use assms in \<open>auto simp: arrive_def buf_data_def take_Suc_update list_all_update mime_ok_def mime_room_def\<close>)
  ultimately show ?thesis by blast
qed


lemma gathered_ok:
  assumes "gathered s cs m m'" "mime_ok m" "s \<notin> {HdrStart, Hdr, HdrValue, HdrLF}"
    "len (source m) + length cs + 2 \<le> length (octets (source m))"
  shows "mime_ok m'"
  using assms gatheredD(1,14) [OF assms(1)]
  by (auto simp: gathered_def mime_ok_def mime_room_def in_header_def mimeIsAnyHeader_def)

text \<open>The boundary state gathers the line.\<close>

lemma boundary_gathers:
  assumes "mime_ok m" "source_state m = Boundary" "list_all octet cs" "ASCII_LF \<notin> set cs"
    "len (source m) + length cs + 2 \<le> length (octets (source m))"
  shows "\<exists>m'. mimeFeed cs m = Inr m' \<and> gathered Boundary cs m m'"
  using assms
proof (induction cs arbitrary: m)
  case Nil
  have "gathered Boundary [] m m"
    unfolding gathered_def
  proof (intro conjI exI)
    show "m = m\<lparr>mime_part_length := mime_part_length m, mime_body_length := mime_body_length m,
        mime_message_length := mime_message_length m, source := source m, source_state := Boundary\<rparr>"
      using Nil(2) by simp
  qed (use Nil in \<open>auto simp: mime_ok_def mime_room_def\<close>)
  then show ?case by simp
next
  case (Cons ch cs)
  have ch: "octet ch" "ch \<noteq> ASCII_LF" using Cons.prems(3,4) by auto
  have "\<not> length (octets (source (arrive ch m))) \<le> len (source (arrive ch m))"
    using Cons.prems(5) by (simp add: arrive_def)
  then have "source_fn 2 ch (arrive ch m) = Inr ((arrive ch m)\<lparr>source_state := Boundary\<rparr>)"
    using Cons.prems(2) ch(2) by (simp add: numeral_2_eq_2 arrive_def mimeStateBoundary_def)
  then obtain n where n: "mimeNextCh (Some m) ch = Inr (MIME_ERROR_OK, n)" "gathered Boundary [ch] m n"
    using quiet_step [OF Cons.prems(1) ch(1)] Cons.prems(5) by auto
  have ok: "mime_ok n" using gathered_ok [OF n(2) Cons.prems(1)] Cons.prems(5) by simp
  have "len (source n) + length cs + 2 \<le> length (octets (source n))"
    using n(2) Cons.prems(5) by (simp add: gathered_def)
  then obtain m' where m': "mimeFeed cs n = Inr m'" "gathered Boundary cs n m'"
    using Cons.IH [OF ok] Cons.prems(3,4) gatheredD(1) [OF n(2)] by auto
  then show ?case using n gathered_trans [OF n(2) m'(2)] by auto
qed

text \<open>The scan of a line of boundary characters.\<close>

definition boundary_or_newline :: "int \<Rightarrow> bool" where
  "boundary_or_newline x \<longleftrightarrow> mimeIsBoundaryChar x \<or> in_set [CHR 0x0D, CHR 0x0A] (char_of_int x)"

definition hyphen_like :: "int \<Rightarrow> bool" where
  "hyphen_like x \<longleftrightarrow> in_set (''-='' @ [CHR 0x0D, CHR 0x0A]) (char_of_int x)"

lemma boundary_scan_all:
  assumes "list_all boundary_or_newline (drop i (buf_data b))" "len b \<le> length (octets b)" "i \<le> len b"
  shows "\<exists>q. boundary_scan i hyphens qp b = Inr (len b, hyphens \<and> list_all hyphen_like (drop i (buf_data b)), q)"
  using assms
proof (induction i hyphens qp b rule: boundary_scan.induct)
  case (1 i hyphens qp b)
  show ?case
  proof (cases "i < len b")
    case True
    have d: "drop i (buf_data b) = octets b ! i # drop (i + 1) (buf_data b)"
      using True 1(3) by (simp add: buf_data_def Cons_nth_drop_Suc [symmetric])
    have peek: "buf_peek i b = Inr (octets b ! i)" "buf_peek (i - 1) b = Inr (octets b ! (i - 1))"
      using True 1(3) by (simp_all add: buf_peek_def)
    have x: "\<not> (\<not> mimeIsBoundaryChar (octets b ! i) \<and> \<not> in_set [CHR 0x0D, CHR 0x0A] (char_of_int (octets b ! i)))"
      using 1(2) by (auto simp: d boundary_or_newline_def)
    obtain q where q: "boundary_scan (i + 1) (hyphens \<and> in_set (''-='' @ [CHR 0x0D, CHR 0x0A]) (char_of_int (octets b ! i)))
        (qp \<or> is_xdigit (octets b ! i) \<and> octets b ! (i - 1) = 61) b =
      Inr (len b, (hyphens \<and> in_set (''-='' @ [CHR 0x0D, CHR 0x0A]) (char_of_int (octets b ! i))) \<and>
        list_all hyphen_like (drop (i + 1) (buf_data b)), q)"
      using 1(1) [OF True peek(1) x peek(2)] 1(2-) True by (auto simp: d)
    have "boundary_scan i hyphens qp b = Inr (len b, (hyphens \<and> hyphen_like (octets b ! i)) \<and>
        list_all hyphen_like (drop (i + 1) (buf_data b)), q)"
      by (subst boundary_scan.simps, unfold if_P [OF True] peek andthen_simps if_not_P [OF x] q) (simp add: hyphen_like_def)
    then show ?thesis by (simp add: d)
  next
    case False
    then show ?thesis using 1(4) by (subst boundary_scan.simps) (simp add: buf_data_def)
  qed
qed

text \<open>The end of a boundary line.\<close>

lemma boundary_line_end:
  assumes "mime_room m" "source_state m = Boundary" "encoding m \<noteq> MIME_QUOTED_PRINTABLE"
    "list_all boundary_or_newline (drop 2 (buf_data (source m)))" "\<not> list_all hyphen_like (drop 2 (buf_data (source m)))"
    "2 \<le> len (source m)"
  shows "runs (\<lambda>m'. source_state m' = HdrStart \<and> len (source m') = 0 \<and> mime_ok m' \<and>
      mime_part_number m' = mime_part_number m + 1 \<and>
      octets_at SourceFlush m' = octets_at SourceFlush m \<and> decoded m' = decoded m \<and> held m' = [] \<and> len (decode m') = 0 \<and>
      octets_at DecodeFlush m' = octets_at DecodeFlush m @ buf_data (decode m) \<and>
      last (trace m') = Event BodyFinish [] (hooks_at BodyFinish m)) (mimeStateBoundary ASCII_LF m)"
proof -
  have "\<exists>q. boundary_scan 2 True False (source m) = Inr (len (source m), True \<and> list_all hyphen_like (drop 2 (buf_data (source m))), q)"
    by (rule boundary_scan_all) (use assms mime_room_len [OF assms(1)] in auto)
  then obtain q where scan: "boundary_scan 2 True False (source m) = Inr (len (source m), False, q)" using assms(5) by auto
  let ?e = "m\<lparr>decode_state_cr := False, decode_state := DecodeAdd\<rparr>"
  have "decode_room m" using assms(1) by (simp add: mime_room_def)
  then have e: "mime_room ?e" "\<not> in_header ?e" "held ?e = []" "decode_room ?e"
    using assms(1,2) by (auto simp: cr_room decode_add_room in_header_def mimeIsAnyHeader_def held_def decode_room_def)
  have "runs (\<lambda>n. (same_mode ?e n \<and> held n = [] \<and> len (decode n) = 0) \<and> gives [] ?e n) (mimeDecodeState EOF ?e)"
  proof (rule mimeDecodeState_runs [OF _ e(4)])
    let ?h = "mimeDoHookOctet SourceOctet EOF ?e"
    have "decode_room ?h" using e(4) by (simp add: source_octet_gives)
    from mimeDecodeAdd_gives [OF this, of EOF]
    show "runs (\<lambda>n. (same_mode ?e n \<and> held n = [] \<and> len (decode n) = 0) \<and> gives [] ?h n) (decode_fn (decode_state ?e) EOF ?h)"
      by (auto simp: decode_fn_def same_mode_def source_octet_gives elim!: runs_mono)
  qed
  then obtain n where n: "mimeDecodeState EOF ?e = Inr n" "held n = []" "len (decode n) = 0" "gives [] ?e n"
      "decode_state n = DecodeAdd" by (auto simp: runs_iff same_mode_def)
  have room: "mime_room n" using gives_mime_room [OF n(4) _ e(1,2)] n(4,5) by (auto simp: gives_def decode_ok_def)
  have side: "source n = source m" "source_state n = Boundary" "mime_part_number n = mime_part_number m" "hooks n = hooks m"
      "mimeIsAnyHeader n = False"
    using n(4) assms(2) source_sideD [of n ?e] by (auto simp: gives_def mimeIsAnyHeader_def)
  have eq: "mimeStateBoundary ASCII_LF m = Inr (boundary_found n)"
    unfolding mimeStateBoundary_eq [OF assms(1) refl scan] using assms(3) n(1) discard_boundary [OF mime_room_nonempty [OF room]]
    by simp
  have at: "octets_at pt (boundary_found n) = octets_at pt n" "decode (boundary_found n) = decode n" for pt
    by (simp_all add: boundary_found_def Let_def mimeBodyFinish_def mimeDoHook_def octets_at_def hook_view_def)
  have rest: "source_state (boundary_found n) = HdrStart" "mime_part_number (boundary_found n) = mime_part_number n + 1"
      "held (boundary_found n) = held n" "last (trace (boundary_found n)) = Event BodyFinish [] (hooks_at BodyFinish m)"
    using side by (simp_all add: boundary_found_def Let_def mimeBodyFinish_def mimeDoHook_def held_def hook_view_def hooks_at_def
        mimeIsAnyHeader_def)
  have bf: "body_room (boundary_found n)" "len (source (boundary_found n)) = 0" using boundary_found_room [OF room n(5)] .
  have "octets_at SourceFlush n = octets_at SourceFlush m" "decoded n = decoded m"
      "octets_at DecodeFlush n = octets_at DecodeFlush m @ buf_data (decode m)"
    using n(2,3,4) assms(2) e(3) by (auto simp: gives_def octets_at_def decoded_def buf_data_def mimeIsAnyHeader_def)
  then show ?thesis unfolding eq runs_simps
    using rest bf side n(2,3) by (simp add: at decoded_def body_room_def mime_ok_def mime_room_size Suc_leI)
qed

lemma mimeFeed_append: "mimeFeed (xs @ ys) m = andthen (mimeFeed xs m) (mimeFeed ys)"
proof (induction xs arbitrary: m)
  case (Cons x xs)
  then show ?case by (cases "mimeNextCh (Some m) x") auto
qed simp

lemma arrive_facts:
  assumes "mime_ok m" "octet ch"
  shows "entered (arrive ch m)" "source_state (arrive ch m) = source_state m" "encoding (arrive ch m) = encoding m"
    "mime_part_number (arrive ch m) = mime_part_number m" "hooks (arrive ch m) = hooks m" "decode (arrive ch m) = decode m"
    "octets_at pt (arrive ch m) = octets_at pt m" "buf_data (source (arrive ch m)) = buf_data (source m) @ [ch]"
    "len (source (arrive ch m)) = len (source m) + 1" "length (octets (source (arrive ch m))) = length (octets (source m))"
  using assms
  by (auto simp: arrive_def entered_def mime_ok_def mime_room_def in_header_def mimeIsAnyHeader_def decode_ok_def decode_room_def
      list_all_update octets_at_def buf_data_def take_Suc_update simp del: decode_ok_room)

text \<open>The end of the line before a boundary: its newline stays in the buffer.\<close>

lemma flush_line_crlf:
  assumes "mime_room m" "len (source m) = n + 2" "octets (source m) ! n = ASCII_CR" "octets (source m) ! (n + 1) = ASCII_LF"
  shows "runs (\<lambda>m'. mime_room m' \<and> same_but_source m m' \<and> buf_data (source m') = [ASCII_CR, ASCII_LF] \<and>
      len (source m') = 2 \<and> length (octets (source m')) = length (octets (source m)) \<and>
      octets_at SourceFlush m' = octets_at SourceFlush m @ take n (octets (source m)) \<and>
      filter (\<lambda>e. point e \<noteq> SourceFlush) (trace m') = filter (\<lambda>e. point e \<noteq> SourceFlush) (trace m)) (flush_line m)"
proof -
  let ?os = "octets (source m)"
  let ?l = "line_flushed \<lparr>len = n, octets = ?os\<rparr> [ASCII_CR, ASCII_LF] m"
  have room: "2 \<le> length ?os" "n + 2 < length ?os" "list_all octet ?os" using assms(1,2) by (auto simp: mime_room_def)
  have eq: "flush_line m = Inr ?l" using assms room by (simp add: flush_line_eq)
  have same: "same_but_source m ?l" unfolding same_but_source_def using line_flushed_form by blast
  have "runs (\<lambda>m'. mime_room m' \<and> same_but_source m m' \<and> 0 < len (source m') \<and> len (source m') \<le> len (source m) \<and>
    (octets (source m) ! (len (source m) - 1) = ASCII_LF \<longrightarrow>
     octets_at SourceFlush m' @ buf_data (source m') = octets_at SourceFlush m @ buf_data (source m)) \<and>
    filter (\<lambda>e. point e \<noteq> SourceFlush) (trace m') = filter (\<lambda>e. point e \<noteq> SourceFlush) (trace m)) (flush_line m)"
    using assms(1,2) by (intro flush_line_room) auto
  then show ?thesis using line_flushed_facts [of "\<lparr>len = n, octets = ?os\<rparr>" "[ASCII_CR, ASCII_LF]" m] room same
    by (simp add: eq buf_data_def)
qed

text \<open>A carriage return and a newline in the body of a multipart message.\<close>

lemma crlf_step:
  assumes "mime_ok m" "source_state m = Bdy" "is_multipart m" "decode_state m = DecodeAdd" "held m = []"
    "len (source m) + 3 \<le> length (octets (source m))" "6 \<le> length (octets (source m))"
  shows "\<exists>m'. mimeFeed [ASCII_CR, ASCII_LF] m = Inr m' \<and> mime_ok m' \<and> source_state m' = BdyLF \<and> is_multipart m' \<and>
    encoding m' = encoding m \<and> decode m' = decode m \<and> decoded m' = decoded m \<and> mime_part_number m' = mime_part_number m \<and>
    hooks m' = hooks m \<and> len (source m') = 2 \<and> length (octets (source m')) = length (octets (source m)) \<and>
    buf_data (source m') = [ASCII_CR, ASCII_LF] \<and>
    octets_at SourceFlush m' = octets_at SourceFlush m @ buf_data (source m) \<and>
    octets_at DecodeFlush m' = octets_at DecodeFlush m"
proof -
  let ?L = "len (source m)" and ?N = "length (octets (source m))"
  define m1 where "m1 = (mimeDoHookOctet SourceOctet ASCII_CR (arrive ASCII_CR m))\<lparr>decode_state_cr := True\<rparr>"
  define m2 where "m2 = arrive ASCII_LF m1"
  have cr: "\<not> decode_state_cr m" using assms(5) by (auto simp: held_def)
  have room: "?L + 2 < ?N" "?L < ?N" "mime_room m" using assms(1,6) by (auto simp: mime_ok_def)
  have s1: "len (source m1) = ?L + 1" "octets (source m1) = (octets (source m))[?L := ASCII_CR]"
    by (simp_all add: m1_def arrive_def mimeDoHookOctet_def)
  have s2: "len (source m2) = ?L + 2" "octets (source m2) = (octets (source m))[?L := ASCII_CR, ?L + 1 := ASCII_LF]"
    using s1 by (simp_all add: m2_def arrive_def)
  have "source_fn 2 ASCII_CR (arrive ASCII_CR m) = Inr m1"
    using assms(2,4) cr
    by (simp add: numeral_2_eq_2 arrive_def m1_def mimeStateBdy_def mimeDecodeState_def decode_fn_def mimeDecodeAdd_def Let_def
        mimeDoHookOctet_def ascii_defs hooks_at_def)
  then have next1: "mimeNextCh (Some m) ASCII_CR = Inr (MIME_ERROR_OK, m1)"
    using room assms(6) s1 by (auto simp: mimeNextCh_arrive)
  have fields: "source_state m2 = Bdy" "is_multipart m2" "encoding m2 = encoding m" "decode m2 = decode m" "decoded m2 = decoded m"
      "mime_part_number m2 = mime_part_number m" "hooks m2 = hooks m" "octets_at SourceFlush m2 = octets_at SourceFlush m"
      "octets_at DecodeFlush m2 = octets_at DecodeFlush m" "decode_state m2 = DecodeAdd"
    using assms(2,3,4) by (simp_all add: m2_def m1_def arrive_def mimeDoHookOctet_def decoded_def octets_at_def)
  have m2: "mime_room m2"
    using room(3) room s2 fields(1,4,10) by (simp add: mime_room_def list_all_update in_header_def mimeIsAnyHeader_def
        decode_ok_def decode_room_def del: decode_ok_room)
  have "runs (\<lambda>m'. mime_room m' \<and> same_but_source m2 m' \<and> buf_data (source m') = [ASCII_CR, ASCII_LF] \<and>
      len (source m') = 2 \<and> length (octets (source m')) = length (octets (source m2)) \<and>
      octets_at SourceFlush m' = octets_at SourceFlush m2 @ take ?L (octets (source m2)) \<and>
      filter (\<lambda>e. point e \<noteq> SourceFlush) (trace m') = filter (\<lambda>e. point e \<noteq> SourceFlush) (trace m2)) (flush_line m2)"
    by (rule flush_line_crlf [OF m2]) (use s2 room in auto)
  then obtain m3 where m3: "flush_line m2 = Inr m3" "mime_room m3" "same_but_source m2 m3"
      "buf_data (source m3) = [ASCII_CR, ASCII_LF]" "len (source m3) = 2" "length (octets (source m3)) = ?N"
      "octets_at SourceFlush m3 = octets_at SourceFlush m @ buf_data (source m)"
      "filter (\<lambda>e. point e \<noteq> SourceFlush) (trace m3) = filter (\<lambda>e. point e \<noteq> SourceFlush) (trace m2)"
    using s2 fields(8) by (auto simp: runs_iff buf_data_def)
  let ?m4 = "m3\<lparr>source_state := BdyLF\<rparr>"
  have "source_fn 2 ASCII_LF m2 = Inr ?m4"
    using fields(1,2) m3(1) same_but_sourceD(2) [OF m3(3)] by (simp add: numeral_2_eq_2 mimeStateBdy_def)
  then have next2: "mimeNextCh (Some m1) ASCII_LF = Inr (MIME_ERROR_OK, ?m4)"
  proof -
    have "\<not> length (octets (source ?m4)) - 1 \<le> len (source ?m4)" using assms(7) m3(5,6) by simp
    moreover have "len (source m1) < length (octets (source m1))" using room s1 by simp
    ultimately show ?thesis using \<open>source_fn 2 ASCII_LF m2 = Inr ?m4\<close> by (simp add: mimeNextCh_arrive m2_def)
  qed
  have "mime_ok ?m4" using m3(2,5,6) assms(7) by (simp add: mime_ok_def source_state_room)
  moreover have "octets_at pt ?m4 = octets_at pt m3" "decoded ?m4 = decoded m3" for pt by (simp_all add: octets_at_def decoded_def)
  ultimately show ?thesis
    using next1 next2 m3 fields same_but_sourceD [OF m3(3)] octets_at_other [OF m3(8)]
    by (intro exI [of _ ?m4]) (simp add: decoded_def)
qed

text \<open>C40: A boundary line ends a part. In the body of a multipart message whose text is passed on as it is, in a part that
  is not quoted-printable and with no carriage return held back, a CRLF, a line of two hyphens and at least one boundary
  character, not all of them hyphens or equal signs, and its CRLF are taken out of the message when the source buffer
  has room for the first CRLF behind its contents and for the whole line: the application receives the body
  before them, in the source call-backs and in the decoding call-backs, and then the end of the part; the part number
  goes up and the parser expects the headers of the next part.\<close>

theorem mime_boundary_line:
  assumes "mime_ok m" "source_state m = Bdy" "is_multipart m" "decode_state m = DecodeAdd" "held m = []"
    "encoding m \<noteq> MIME_QUOTED_PRINTABLE" "bs \<noteq> []" "list_all octet bs" "list_all mimeIsBoundaryChar bs"
    "\<not> list_all hyphen_like bs" "len (source m) + 3 \<le> length (octets (source m))"
    "length bs + 7 \<le> length (octets (source m))"
  shows "\<exists>m'. mimeFeed ([ASCII_CR, ASCII_LF, 45, 45] @ bs @ [ASCII_CR, ASCII_LF]) m = Inr m' \<and> mime_ok m' \<and>
    source_state m' = HdrStart \<and> len (source m') = 0 \<and> len (decode m') = 0 \<and>
    mime_part_number m' = mime_part_number m + 1 \<and>
    octets_at SourceFlush m' = octets_at SourceFlush m @ buf_data (source m) \<and>
    octets_at DecodeFlush m' = octets_at DecodeFlush m @ buf_data (decode m) \<and>
    last (trace m') = Event BodyFinish [] (hooks_at BodyFinish m)"
proof -
  let ?N = "length (octets (source m))"
  obtain m1 where m1: "mimeFeed [ASCII_CR, ASCII_LF] m = Inr m1" "mime_ok m1" "source_state m1 = BdyLF" "is_multipart m1"
      "encoding m1 = encoding m" "decode m1 = decode m" "mime_part_number m1 = mime_part_number m" "hooks m1 = hooks m"
      "len (source m1) = 2" "length (octets (source m1)) = ?N" "buf_data (source m1) = [ASCII_CR, ASCII_LF]"
      "octets_at SourceFlush m1 = octets_at SourceFlush m @ buf_data (source m)"
      "octets_at DecodeFlush m1 = octets_at DecodeFlush m"
    using crlf_step [OF assms(1-5,11)] assms(12) by auto
  obtain b bs' where bs: "bs = b # bs'" using assms(7) by (cases bs) auto
  have b: "octet b" "\<not> is_space b" "mimeIsBoundaryChar b" using assms(8,9) boundary_char_not_space by (auto simp: bs)
  have f1: "source_fn 2 45 (arrive 45 m1) = Inr ((arrive 45 m1)\<lparr>source_state := Dash1\<rparr>)"
    using m1(3,4) by (simp add: numeral_2_eq_2 arrive_def mimeStateBdyLF_def)
  obtain m2 where m2: "mimeNextCh (Some m1) 45 = Inr (MIME_ERROR_OK, m2)" "gathered Dash1 [45] m1 m2"
    using quiet_step [OF m1(2) octet_consts(4) f1] m1(9,10) assms(12) by auto
  have ok2: "mime_ok m2" by (rule gathered_ok [OF m2(2) m1(2)]) (use m1(9,10) assms(12) in auto)
  have f2: "source_fn 2 45 (arrive 45 m2) = Inr ((arrive 45 m2)\<lparr>source_state := Dash2\<rparr>)"
    using gatheredD(1) [OF m2(2)] by (simp add: numeral_2_eq_2 arrive_def mimeStateDash1_def)
  obtain m3 where m3: "mimeNextCh (Some m2) 45 = Inr (MIME_ERROR_OK, m3)" "gathered Dash2 [45] m2 m3"
    using quiet_step [OF ok2 octet_consts(4) f2] m1(9,10) m2(2) assms(12) by (auto simp: gathered_def)
  have g3: "gathered Dash2 [45, 45] m1 m3" using gathered_trans [OF m2(2) m3(2)] by simp
  have ok3: "mime_ok m3" by (rule gathered_ok [OF g3 m1(2)]) (use m1(9,10) assms(12) in auto)
  have f3: "source_fn 2 b (arrive b m3) = Inr ((arrive b m3)\<lparr>source_state := Boundary\<rparr>)"
    using gatheredD(1) [OF m3(2)] b by (simp add: numeral_2_eq_2 arrive_def mimeStateDash2_def)
  obtain m4 where m4: "mimeNextCh (Some m3) b = Inr (MIME_ERROR_OK, m4)" "gathered Boundary [b] m3 m4"
    using quiet_step [OF ok3 b(1) f3] m1(9,10) g3 assms(12) by (auto simp: gathered_def bs)
  have g4: "gathered Boundary [45, 45, b] m1 m4" using gathered_trans [OF g3 m4(2)] by simp
  have ok4: "mime_ok m4" by (rule gathered_ok [OF g4 m1(2)]) (use m1(9,10) assms(12) in \<open>auto simp: bs\<close>)
  have nl: "ASCII_LF \<notin> set bs" using assms(8,9) boundary_char_not_newline by (auto simp: list_all_iff)
  have "\<exists>m'. mimeFeed (bs' @ [ASCII_CR]) m4 = Inr m' \<and> gathered Boundary (bs' @ [ASCII_CR]) m4 m'"
    using g4 m1(9,10) assms(8,12) nl gatheredD(1) [OF g4]
    by (intro boundary_gathers [OF ok4]) (auto simp: bs gathered_def ascii_defs octet_def)
  then obtain m5 where m5: "mimeFeed (bs' @ [ASCII_CR]) m4 = Inr m5" "gathered Boundary (bs' @ [ASCII_CR]) m4 m5" by blast
  have g5: "gathered Boundary ([45, 45] @ bs @ [ASCII_CR]) m1 m5" using gathered_trans [OF g4 m5(2)] by (simp add: bs)
  have ok5: "mime_ok m5" by (rule gathered_ok [OF g5 m1(2)]) (use m1(9,10) assms(12) in auto)
  let ?m6 = "arrive ASCII_LF m5"
  have room5: "len (source m5) = length bs + 5" "length (octets (source m5)) = ?N" using g5 m1(9,10) by (simp_all add: gathered_def)
  note a = arrive_facts [OF ok5 octet_consts(2)] and g = gatheredD [OF g5]
  have m6: "mime_room ?m6" "source_state ?m6 = Boundary" "encoding ?m6 = encoding m" "mime_part_number ?m6 = mime_part_number m"
      "hooks_at BodyFinish ?m6 = hooks_at BodyFinish m" "octets_at SourceFlush ?m6 = octets_at SourceFlush m @ buf_data (source m)"
      "octets_at DecodeFlush ?m6 = octets_at DecodeFlush m" "decode ?m6 = decode m" "len (source ?m6) = length bs + 6"
    using a g m1 room5 by (simp_all add: entered_def hooks_at_def)
  have data: "buf_data (source ?m6) = [ASCII_CR, ASCII_LF, 45, 45] @ bs @ [ASCII_CR, ASCII_LF]"
    using a(8) g5 m1(11) by (simp add: gathered_def)
  have "boundary_or_newline 45 \<and> boundary_or_newline ASCII_CR \<and> boundary_or_newline ASCII_LF" by code_simp
  then have line: "list_all boundary_or_newline (drop 2 (buf_data (source ?m6)))"
      "\<not> list_all hyphen_like (drop 2 (buf_data (source ?m6)))"
    using assms(9,10) unfolding data by (auto simp: list_all_iff boundary_or_newline_def)
  have "encoding ?m6 \<noteq> MIME_QUOTED_PRINTABLE" "2 \<le> len (source ?m6)" using m6(3,9) assms(6) by simp_all
  from boundary_line_end [OF m6(1,2) this(1) line this(2)] obtain m7 where m7:
      "mimeStateBoundary ASCII_LF ?m6 = Inr m7" "source_state m7 = HdrStart" "len (source m7) = 0" "mime_ok m7"
      "mime_part_number m7 = mime_part_number m + 1" "octets_at SourceFlush m7 = octets_at SourceFlush m @ buf_data (source m)"
      "len (decode m7) = 0" "octets_at DecodeFlush m7 = octets_at DecodeFlush m @ buf_data (decode m)"
      "last (trace m7) = Event BodyFinish [] (hooks_at BodyFinish m)"
    unfolding m6(4-8) by (auto simp: runs_iff)
  have "mimeNextCh (Some m5) ASCII_LF = Inr (MIME_ERROR_OK, m7)"
  proof -
    have "\<not> length (octets (source m7)) - 1 \<le> len (source m7)"
      using m7(3,4) by (auto simp: mime_ok_def mime_room_def)
    moreover have "source_fn 2 ASCII_LF ?m6 = Inr m7" using m6(2) m7(1) by (simp add: numeral_2_eq_2)
    moreover have "len (source m5) < length (octets (source m5))" using ok5 by (simp add: mime_ok_def)
    ultimately show ?thesis by (simp add: mimeNextCh_arrive)
  qed
  then have f: "mimeFeed [45] m1 = Inr m2" "mimeFeed [45] m2 = Inr m3" "mimeFeed [b] m3 = Inr m4" "mimeFeed [ASCII_LF] m5 = Inr m7"
    using m2(1) m3(1) m4(1) by simp_all
  have "mimeFeed ([ASCII_CR, ASCII_LF] @ [45] @ [45] @ [b] @ (bs' @ [ASCII_CR]) @ [ASCII_LF]) m = Inr m7"
    by (simp only: mimeFeed_append m1(1) f andthen_simps m5(1) [unfolded mimeFeed_append])
  then have "mimeFeed ([ASCII_CR, ASCII_LF, 45, 45] @ bs @ [ASCII_CR, ASCII_LF]) m = Inr m7" by (simp add: bs)
  then show ?thesis using m7 by blast
qed

definition demo_multipart :: mime where
  "demo_multipart = (mimeZero 32)\<lparr>source_state := Bdy, is_multipart := True\<rparr>"

lemma demo_multipart_facts: "mime_ok demo_multipart" "source_state demo_multipart = Bdy" "is_multipart demo_multipart"
  "decode_state demo_multipart = DecodeAdd" "held demo_multipart = []" "encoding demo_multipart \<noteq> MIME_QUOTED_PRINTABLE"
  "len (source demo_multipart) = 0" "length (octets (source demo_multipart)) = 32" "mime_part_number demo_multipart = 0"
  by (simp_all add: demo_multipart_def mimeZero_def mime_ok_def mime_room_def in_header_def mimeIsAnyHeader_def decode_ok_def
      decode_room_def held_def list_all_replicate octet_def)

theorem mime_boundary_line_witness:
  "\<exists>m'. mimeFeed [ASCII_CR, ASCII_LF, 45, 45, 97, ASCII_CR, ASCII_LF] demo_multipart = Inr m' \<and>
    source_state m' = HdrStart \<and> mime_part_number m' = 1"
proof -
  have "list_all octet [97] \<and> list_all mimeIsBoundaryChar [97] \<and> \<not> list_all hyphen_like [97]" by code_simp
  with mime_boundary_line [OF demo_multipart_facts(1-6), of "[97]"] demo_multipart_facts(7-9)
  show ?thesis by (auto simp del: mimeFeed.simps)
qed

section \<open>Behaviour the comments do not promise\<close>

definition codes :: "string \<Rightarrow> int list" where
  "codes s = map (\<lambda>c. int (ord c)) s"

definition decoded_text :: "mime_stop + mime \<Rightarrow> int list option" where
  "decoded_text r = (case r of Inr m \<Rightarrow> Some (octets_at DecodeFlush m @ buf_data (decode m)) | Inl e \<Rightarrow> None)"

text \<open>A body that starts with a hyphen gets a newline that was not sent.\<close>

lemma mime_first_hyphen:
  "decoded_text (mimeFeed (codes ''A: b'' @ [10, 10] @ codes ''-ello'') (mimeZero 32)) = Some ([10] @ codes ''-ello'')"
  by code_simp

text \<open>A boundary line right after a line that starts with two hyphens is not seen.\<close>

lemma mime_boundary_missed:
  "decoded_text (mimeFeed ([10] @ codes ''--a@'' @ [10] @ codes ''--b'' @ [10]) demo_multipart)
    = Some ([10] @ codes ''--a@'' @ [10] @ codes ''--b'')"
  by code_simp

text \<open>Octets of a first line that starts with a hyphen and is no header are lost.\<close>

lemma mime_replay_loses:
  "decoded_text (mimeFeed (codes ''-foo bar'' @ [10]) (mimeZero 32)) = Some ([10] @ codes ''-bar'' @ [10])"
  by code_simp

text \<open>What the conditions of \<open>mime_body_decoded\<close> and \<open>mime_boundary_line\<close> are for. A carriage return that
  is held at the end of the input is lost when Base64 text ends without padding; in a multipart the last newline
  is never decoded; a boundary whose line looks like a quoted-printable escape is not seen in a quoted-printable part;
  and a carriage return held before the newline of a boundary line is given to the decoding call-backs for good.\<close>

definition decoded_at_end :: "int list \<Rightarrow> mime \<Rightarrow> int list option" where
  "decoded_at_end cs m =
     (case mimeFeed cs m of
        Inl e \<Rightarrow> None
      | Inr n \<Rightarrow> (case mimeNextCh (Some n) EOF of Inl e \<Rightarrow> None | Inr (rc, n') \<Rightarrow> Some (octets_at DecodeFlush n')))"

lemma mime_base64_loses_cr:
  assumes "decode_state m = DecodeBase64" "st (b64_state m) = DECODE_A"
  shows "mimeDecodeState EOF m =
    Inr ((mimeDoHookOctet SourceOctet EOF m)\<lparr>b64_state := (b64_state m)\<lparr>st := DECODE_PAD3\<rparr>\<rparr>)"
  using assms by (simp add: mimeDecodeState_def decode_fn_def mimeStateBase64_def mimeDoHookOctet_def b64Decode_def decode_value_def b64_codes EOF_def Let_def PAD_def ord_def)

lemma mime_multipart_loses_lf:
  "decoded_at_end (codes ''ab'' @ [ASCII_LF]) demo_multipart = Some (codes ''ab'')"
  by code_simp

lemma mime_qp_boundary_missed:
  "map_option mime_part_number (case mimeFeed ([ASCII_CR, ASCII_LF] @ codes ''--=ABx'' @ [ASCII_CR, ASCII_LF])
     (demo_multipart\<lparr>encoding := MIME_QUOTED_PRINTABLE, decode_state := QpLiteral\<rparr>) of Inl e \<Rightarrow> None | Inr m \<Rightarrow> Some m) = Some 0"
  by code_simp

lemma mime_boundary_keeps_cr:
  "decoded_text (mimeFeed (codes ''x'' @ [ASCII_CR, ASCII_CR, ASCII_LF] @ codes ''--b'' @ [ASCII_CR, ASCII_LF]) demo_multipart)
    = Some (codes ''x'' @ [ASCII_CR, ASCII_CR])"
  by code_simp

end
