(* ===== verification/HashTables.thy ===== *)
theory HashTables
  imports TextOps
begin

text \<open>
  \<^verbatim>\<open>type/Hash.c\<close>, a table of objects, and \<^verbatim>\<open>type/hash2.c\<close>, a table of strings. Both keep an array of
  chains; a chain is the list of its items, and the pointer to a pointer that \<^verbatim>\<open>HashFetch\<close> and
  \<^verbatim>\<open>hash_fetch\<close> return is the number of the chain with a position in it, the length of the chain when
  nothing was found. The objects of \<open>Hash.c\<close> bring their own \<open>hashcode\<close> and \<open>equals\<close> methods, which are
  arguments; the objects and values destroyed are recorded in order.
\<close>

section \<open>Chains\<close>

text \<open>The position of the first item that satisfies a test.\<close>

primrec chain_find :: "('e \<Rightarrow> bool) \<Rightarrow> 'e list \<Rightarrow> nat" where
  "chain_find P [] = 0"
| "chain_find P (e # es) = (if P e then 0 else Suc (chain_find P es))"

definition chain_drop :: "nat \<Rightarrow> 'e list \<Rightarrow> 'e list" where
  "chain_drop j es = take j es @ drop (Suc j) es"

text \<open>The walk over a chain: the call-back says stop (0), delete the item (-1) or go on; the results are
  whether it stopped, the items kept, the items deleted and the call-back's data.\<close>

primrec walk_chain :: "('e \<Rightarrow> 'd \<Rightarrow> int \<times> 'd) \<Rightarrow> 'e list \<Rightarrow> 'd \<Rightarrow> bool \<times> 'e list \<times> 'e list \<times> 'd" where
  "walk_chain f [] d = (False, [], [], d)"
| "walk_chain f (e # es) d =
     (let (r, d) = f e d
      in if r = 0 then (True, e # es, [], d)
         else let (stop, es, gone, d) = walk_chain f es d
              in if r = -1 then (stop, es, e # gone, d) else (stop, e # es, gone, d))"

primrec walk_buckets ::
  "('e \<Rightarrow> 'd \<Rightarrow> int \<times> 'd) \<Rightarrow> 'e list list \<Rightarrow> 'd \<Rightarrow> 'e list list \<times> 'e list \<times> 'd" where
  "walk_buckets f [] d = ([], [], d)"
| "walk_buckets f (b # bs) d =
     (let (stop, b, gone, d) = walk_chain f b d
      in if stop then (b # bs, gone, d)
         else let (bs, gone', d) = walk_buckets f bs d in (b # bs, gone @ gone', d))"

text \<open>The walk of \<open>HashAll\<close> and \<open>HashSome\<close>: it ends at the first answer \<open>r\<close>.\<close>

primrec answer_loop :: "int \<Rightarrow> ('e \<Rightarrow> 'd \<Rightarrow> int \<times> 'd) \<Rightarrow> 'e list \<Rightarrow> 'd \<Rightarrow> bool \<times> 'd" where
  "answer_loop r f [] d = (False, d)"
| "answer_loop r f (e # es) d = (let (x, d) = f e d in if x = r then (True, d) else answer_loop r f es d)"

section \<open>Tables of objects\<close>

definition TABLE_SIZE :: nat where "TABLE_SIZE = 4093"

record 'o hash_entry =
  entry_key :: 'o
  entry_value :: 'o

record 'o obj_hash =
  obj_base :: "'o hash_entry list list"
  obj_size :: nat
  destroyed :: "'o list"

text \<open>\<open>(unsigned long) key->hashcode(key)\<close> and the remainder.\<close>

definition obj_index :: "('o \<Rightarrow> int) \<Rightarrow> 'o \<Rightarrow> nat" where
  "obj_index hashcode k = nat (hashcode k mod 2 ^ 64) mod TABLE_SIZE"

definition HashFetch :: "('o \<Rightarrow> int) \<Rightarrow> ('o \<Rightarrow> 'o \<Rightarrow> bool) \<Rightarrow> 'o obj_hash \<Rightarrow> 'o \<Rightarrow> nat \<times> nat" where
  "HashFetch hashcode equals self k =
     (let h = obj_index hashcode k
      in (h, chain_find (\<lambda>e. equals k (entry_key e)) (obj_base self ! h)))"

definition HashGet :: "('o \<Rightarrow> int) \<Rightarrow> ('o \<Rightarrow> 'o \<Rightarrow> bool) \<Rightarrow> 'o obj_hash \<Rightarrow> 'o \<Rightarrow> 'o option" where
  "HashGet hashcode equals self k =
     (let (h, j) = HashFetch hashcode equals self k; es = obj_base self ! h
      in if j = length es then None else Some (entry_value (es ! j)))"

definition HashRemove :: "('o \<Rightarrow> int) \<Rightarrow> ('o \<Rightarrow> 'o \<Rightarrow> bool) \<Rightarrow> 'o obj_hash \<Rightarrow> 'o \<Rightarrow> int \<times> 'o obj_hash" where
  "HashRemove hashcode equals self k =
     (let (h, j) = HashFetch hashcode equals self k; es = obj_base self ! h
      in if j = length es then (-1, self)
         else (0, self\<lparr>obj_base := (obj_base self)[h := chain_drop j es], obj_size := obj_size self - 1,
                       destroyed := destroyed self @ [entry_value (es ! j), entry_key (es ! j)]\<rparr>))"

definition entry_objects :: "'o hash_entry list \<Rightarrow> 'o list" where
  "entry_objects es = concat (map (\<lambda>e. [entry_value e, entry_key e]) es)"

definition HashRemoveAll :: "'o obj_hash \<Rightarrow> 'o obj_hash" where
  "HashRemoveAll self =
     self\<lparr>obj_base := replicate (length (obj_base self)) [], obj_size := 0,
          destroyed := destroyed self @ entry_objects (concat (obj_base self))\<rparr>"

text \<open>\<open>malloc_ok\<close> is the answer of \<open>malloc\<close>; a null key or value is \<open>None\<close>. The old value and key are
  destroyed unless they are the same objects.\<close>

definition HashPut ::
  "('o \<Rightarrow> int) \<Rightarrow> ('o \<Rightarrow> 'o \<Rightarrow> bool) \<Rightarrow> bool \<Rightarrow> 'o obj_hash \<Rightarrow> 'o option \<Rightarrow> 'o option \<Rightarrow> int \<times> 'o obj_hash" where
  "HashPut hashcode equals malloc_ok self ko vo =
     (case (ko, vo) of
        (Some k, Some v) \<Rightarrow>
          let (h, j) = HashFetch hashcode equals self k; es = obj_base self ! h;
              new = \<lparr>entry_key = k, entry_value = v\<rparr>
          in if j = length es then
               if \<not> malloc_ok then (-1, self)
               else (0, self\<lparr>obj_base := (obj_base self)[h := es @ [new]], obj_size := obj_size self + 1\<rparr>)
             else (0, self\<lparr>obj_base := (obj_base self)[h := es[j := new]],
                           destroyed := destroyed self
                             @ (if v \<noteq> entry_value (es ! j) then [entry_value (es ! j)] else [])
                             @ (if k \<noteq> entry_key (es ! j) then [entry_key (es ! j)] else [])\<rparr>)
      | _ \<Rightarrow> (-1, self))"

definition HashSize :: "'o obj_hash option \<Rightarrow> nat" where
  "HashSize self = (case self of Some t \<Rightarrow> obj_size t | None \<Rightarrow> 0)"

definition HashIsEmpty :: "'o obj_hash option \<Rightarrow> bool" where
  "HashIsEmpty self = (case self of Some t \<Rightarrow> obj_size t = 0 | None \<Rightarrow> True)"

definition HashWalk :: "('o \<Rightarrow> 'o \<Rightarrow> 'd \<Rightarrow> int \<times> 'd) \<Rightarrow> 'o obj_hash \<Rightarrow> 'd \<Rightarrow> int \<times> 'o obj_hash \<times> 'd" where
  "HashWalk f self d =
     (let (bs, gone, d) = walk_buckets (\<lambda>e. f (entry_key e) (entry_value e)) (obj_base self) d
      in (0, self\<lparr>obj_base := bs, obj_size := obj_size self - length gone,
                  destroyed := destroyed self @ entry_objects gone\<rparr>, d))"

definition HashAll :: "('o \<Rightarrow> 'o \<Rightarrow> 'd \<Rightarrow> int \<times> 'd) \<Rightarrow> 'o obj_hash \<Rightarrow> 'd \<Rightarrow> int \<times> 'd" where
  "HashAll f self d =
     (let (no, d) = answer_loop 0 (\<lambda>e. f (entry_key e) (entry_value e)) (concat (obj_base self)) d
      in (if no then 0 else 1, d))"

definition HashSome :: "('o \<Rightarrow> 'o \<Rightarrow> 'd \<Rightarrow> int \<times> 'd) \<Rightarrow> 'o obj_hash \<Rightarrow> 'd \<Rightarrow> int \<times> 'd" where
  "HashSome f self d =
     (let (yes, d) = answer_loop 1 (\<lambda>e. f (entry_key e) (entry_value e)) (concat (obj_base self)) d
      in (if yes then 1 else 0, d))"

definition HashCreate :: "bool \<Rightarrow> bool \<Rightarrow> 'o obj_hash option" where
  "HashCreate malloc_ok calloc_ok =
     (if malloc_ok \<and> calloc_ok
      then Some \<lparr>obj_base = replicate TABLE_SIZE [], obj_size = 0, destroyed = []\<rparr> else None)"

text \<open>\<open>HashDestroy\<close> frees the table; what is left is the record of the objects destroyed.\<close>

definition HashDestroy :: "'o obj_hash \<Rightarrow> 'o list" where
  "HashDestroy self = destroyed (HashRemoveAll self)"

section \<open>Tables of strings\<close>

text \<open>An item is one block: the structure and behind it the key's characters. A value is a pointer; the
  call-back for destroying values is recorded.\<close>

record 'v hash_item =
  item_key :: string
  item_value :: 'v

record 'v str_hash =
  str_base :: "'v hash_item list list"
  str_length :: nat
  freed :: "'v list"

definition SIZE_MAX :: nat where "SIZE_MAX = 2 ^ 64 - 1"
definition ITEM_SIZE :: nat where "ITEM_SIZE = 24"

definition djb_hash :: "string \<Rightarrow> u64" where
  "djb_hash s = foldl (\<lambda>hash c. (push_bit 5 hash + hash) XOR of_nat (ord c)) 5381 s"

definition djb_hash_index :: "string \<Rightarrow> nat \<Rightarrow> nat \<Rightarrow> fault + nat" where
  "djb_hash_index k klen table_size =
     (if table_size = 0 then Inl DivByZero else Inr (unat (djb_hash (take klen k)) mod table_size))"

text \<open>\<open>strncmp (s, buf, n) == 0\<close>, where \<open>buf\<close> is the block behind the item.\<close>

fun strncmp_eq :: "nat \<Rightarrow> string \<Rightarrow> string \<Rightarrow> fault + bool" where
  "strncmp_eq n s [] = (if n = 0 then Inr True else Inl OutOfBounds)"
| "strncmp_eq n s (c # b) =
     (if n = 0 then Inr True
      else if deref s \<noteq> c then Inr False
      else if c = NUL then Inr True
      else strncmp_eq (n - 1) (tl s) b)"

primrec hash_fetch_loop :: "string \<Rightarrow> nat \<Rightarrow> 'v hash_item list \<Rightarrow> fault + nat" where
  "hash_fetch_loop k klen [] = Inr 0"
| "hash_fetch_loop k klen (e # es) =
     andthen (strncmp_eq klen k (item_key e)) (\<lambda>eq.
     if eq then Inr 0 else andthen (hash_fetch_loop k klen es) (\<lambda>j. Inr (Suc j)))"

definition hash_fetch :: "'v str_hash \<Rightarrow> string \<Rightarrow> nat \<Rightarrow> fault + nat \<times> nat" where
  "hash_fetch self k klen =
     andthen (djb_hash_index k klen (length (str_base self))) (\<lambda>h.
     andthen (hash_fetch_loop k klen (str_base self ! h)) (\<lambda>j. Inr (h, j)))"

text \<open>\<open>(*item)->value\<close> with a null \<open>*item\<close> is a fault.\<close>

definition hash_getk :: "'v str_hash \<Rightarrow> string \<Rightarrow> nat \<Rightarrow> fault + 'v" where
  "hash_getk self k klen =
     andthen (hash_fetch self k klen) (\<lambda>(h, j).
     if j = length (str_base self ! h) then Inl OutOfBounds else Inr (item_value (str_base self ! h ! j)))"

definition hash_get :: "'v str_hash \<Rightarrow> string \<Rightarrow> fault + 'v" where
  "hash_get self k = hash_getk self k SIZE_MAX"

definition hash_removek :: "'v str_hash \<Rightarrow> string \<Rightarrow> nat \<Rightarrow> fault + int \<times> 'v str_hash" where
  "hash_removek self k klen =
     andthen (hash_fetch self k klen) (\<lambda>(h, j).
     let es = str_base self ! h
     in if j = length es then Inr (-1, self)
        else Inr (0, self\<lparr>str_base := (str_base self)[h := chain_drop j es], str_length := str_length self - 1,
                          freed := freed self @ [item_value (es ! j)]\<rparr>))"

definition hash_remove :: "'v str_hash \<Rightarrow> string \<Rightarrow> fault + int \<times> 'v str_hash" where
  "hash_remove self k = hash_removek self k SIZE_MAX"

definition hash_remove_all :: "'v str_hash \<Rightarrow> 'v str_hash" where
  "hash_remove_all self =
     self\<lparr>str_base := replicate (length (str_base self)) [], str_length := 0,
          freed := freed self @ map item_value (concat (str_base self))\<rparr>"

text \<open>The block for an item: \<open>sizeof (*curr) + klen + 1\<close> wraps around like every \<open>size_t\<close>, and so does the
  size given to \<open>TextCopy\<close>. What \<open>malloc\<close> leaves in the block is not read.\<close>

definition new_item :: "string \<Rightarrow> nat \<Rightarrow> 'v \<Rightarrow> fault + 'v hash_item" where
  "new_item k klen v =
     (let block = (ITEM_SIZE + klen + 1) mod 2 ^ 64; tsize = (klen + 1) mod 2 ^ 64; room = block - ITEM_SIZE
      in if block < ITEM_SIZE \<or> room < min tsize (length k + 1) then Inl OutOfBounds
         else Inr \<lparr>item_key = fst (TextCopy (replicate room NUL) tsize k), item_value = v\<rparr>)"

definition hash_putk ::
  "bool \<Rightarrow> 'v str_hash \<Rightarrow> string option \<Rightarrow> nat \<Rightarrow> 'v \<Rightarrow> fault + int \<times> 'v str_hash" where
  "hash_putk malloc_ok self ko klen v =
     (case ko of
        None \<Rightarrow> Inr (-1, self)
      | Some k \<Rightarrow>
          andthen (hash_fetch self k klen) (\<lambda>(h, j).
          let es = str_base self ! h
          in if j = length es then
               if \<not> malloc_ok then Inr (-1, self)
               else andthen (new_item k klen v) (\<lambda>e.
                    Inr (0, self\<lparr>str_base := (str_base self)[h := es @ [e]], str_length := str_length self + 1\<rparr>))
             else Inr (0, self\<lparr>str_base := (str_base self)[h := es[j := (es ! j)\<lparr>item_value := v\<rparr>]],
                               freed := freed self @ (if v \<noteq> item_value (es ! j) then [item_value (es ! j)] else [])\<rparr>)))"

definition hash_put :: "bool \<Rightarrow> 'v str_hash \<Rightarrow> string option \<Rightarrow> 'v \<Rightarrow> fault + int \<times> 'v str_hash" where
  "hash_put malloc_ok self ko v = hash_putk malloc_ok self ko SIZE_MAX v"

definition hash_walk :: "(string \<Rightarrow> 'v \<Rightarrow> 'd \<Rightarrow> int \<times> 'd) \<Rightarrow> 'v str_hash \<Rightarrow> 'd \<Rightarrow> int \<times> 'v str_hash \<times> 'd" where
  "hash_walk f self d =
     (let (bs, gone, d) = walk_buckets (\<lambda>e. f (item_key e) (item_value e)) (str_base self) d
      in (0, self\<lparr>str_base := bs, str_length := str_length self - length gone,
                  freed := freed self @ map item_value gone\<rparr>, d))"

definition hash_destroy :: "'v str_hash \<Rightarrow> 'v list" where
  "hash_destroy self = freed (hash_remove_all self)"

definition hash_create_size :: "bool \<Rightarrow> bool \<Rightarrow> nat \<Rightarrow> 'v str_hash option" where
  "hash_create_size malloc_ok calloc_ok prime_size =
     (if malloc_ok \<and> calloc_ok
      then Some \<lparr>str_base = replicate prime_size [], str_length = 0, freed = []\<rparr> else None)"

definition hash_create :: "bool \<Rightarrow> bool \<Rightarrow> 'v str_hash option" where
  "hash_create malloc_ok calloc_ok = hash_create_size malloc_ok calloc_ok 1021"

end
