(* ===== verification/HashMaps.thy ===== *)
theory HashMaps
  imports HashTables "HOL-Library.Multiset" "HOL-Library.Sublist"
begin

text \<open>
  The two hash tables of \<^verbatim>\<open>src/type\<close> implement maps. The lemmas on chains are proved once for all keys in
  locale \<open>key_class\<close>; locale \<open>key_map\<close> is the contract of a table with its clients, interpreted on both tables.
\<close>

section \<open>Chains and tables in general\<close>

lemma chain_find_cases:
  obtains (absent) "chain_find P es = length es" "\<forall>e \<in> set es. \<not> P e"
  | (found) pre e post where "es = pre @ e # post" "chain_find P es = length pre" "\<forall>x \<in> set pre. \<not> P x" "P e"
proof (induction es arbitrary: thesis)
  case Nil
  then show ?case by simp
next
  case (Cons a es)
  show ?case
  proof (cases "P a")
    case True
    then show ?thesis using Cons(3) [of "[]" a es] by simp
  next
    case False
    show ?thesis
    proof (rule Cons(1))
      assume "chain_find P es = length es" "\<forall>e \<in> set es. \<not> P e"
      then show thesis using Cons(2) False by simp
    next
      fix pre e post
      assume "es = pre @ e # post" "chain_find P es = length pre" "\<forall>x \<in> set pre. \<not> P x" "P e"
      then show thesis using Cons(3) [of "a # pre" e post] False by simp
    qed
  qed
qed

lemma chain_drop_split [simp]: "chain_drop (length pre) (pre @ e # post) = pre @ post"
  by (simp add: chain_drop_def)

lemma length_concat_update:
  "h < length bs \<Longrightarrow> length (concat (bs[h := b])) + length (bs ! h) = length (concat bs) + length b"
proof (induction bs arbitrary: h)
  case (Cons a bs)
  then show ?case by (cases h) (simp_all add: add.assoc add.left_commute add.commute)
qed simp

text \<open>The keys a table is used with: \<open>same\<close> says when two keys are equal, \<open>index\<close> which chain a key
  belongs to.\<close>

locale key_class =
  fixes index :: "'k \<Rightarrow> nat"
    and same :: "'k \<Rightarrow> 'k \<Rightarrow> bool"
  assumes same_refl: "same a a"
    and same_sym: "same a b \<Longrightarrow> same b a"
    and same_trans: "same a b \<Longrightarrow> same b c \<Longrightarrow> same a c"
    and same_index: "same a b \<Longrightarrow> index a = index b"

definition chain_ok :: "('k \<Rightarrow> 'k \<Rightarrow> bool) \<Rightarrow> ('e \<Rightarrow> 'k) \<Rightarrow> 'e list \<Rightarrow> bool" where
  "chain_ok same key es \<longleftrightarrow> sorted_wrt (\<lambda>x y. \<not> same (key x) (key y)) es"

definition table_ok :: "('k \<Rightarrow> nat) \<Rightarrow> ('k \<Rightarrow> 'k \<Rightarrow> bool) \<Rightarrow> ('e \<Rightarrow> 'k) \<Rightarrow> 'e list list \<Rightarrow> bool" where
  "table_ok index same key bs \<longleftrightarrow>
     (\<forall>h < length bs. (\<forall>e \<in> set (bs ! h). index (key e) = h) \<and> chain_ok same key (bs ! h))"

definition table_view ::
  "('k \<Rightarrow> nat) \<Rightarrow> ('k \<Rightarrow> 'k \<Rightarrow> bool) \<Rightarrow> ('e \<Rightarrow> 'k) \<Rightarrow> ('e \<Rightarrow> 'v) \<Rightarrow> 'e list list \<Rightarrow> 'k \<Rightarrow> 'v option" where
  "table_view index same key val bs k = map_option val (find (\<lambda>e. same k (key e)) (bs ! index k))"

lemma find_append [simp]: "find P (xs @ ys) = (case find P xs of None \<Rightarrow> find P ys | Some x \<Rightarrow> Some x)"
  by (induction xs) auto

lemma find_none [simp]: "\<forall>x \<in> set xs. \<not> P x \<Longrightarrow> find P xs = None"
  by (simp add: find_None_iff)

context key_class begin

lemma view_same: "same a b \<Longrightarrow> table_view index same key val bs a = table_view index same key val bs b"
proof -
  assume ab: "same a b"
  then have "same a (key e) \<longleftrightarrow> same b (key e)" for e using same_sym same_trans by blast
  then show ?thesis using same_index [OF ab] by (simp add: table_view_def)
qed

lemma view_absent:
  "table_view index same key val bs k = None \<longleftrightarrow> (\<forall>e \<in> set (bs ! index k). \<not> same k (key e))"
  by (auto simp: table_view_def find_None_iff)

text \<open>A new item at the end of its chain, a new item in the place of an old one, an item taken out.\<close>

lemma table_add:
  assumes "table_ok index same key bs" "index k < length bs" "\<forall>e \<in> set (bs ! index k). \<not> same k (key e)" "key n = k"
  shows "table_ok index same key (bs[index k := bs ! index k @ [n]])"
    "table_view index same key val (bs[index k := bs ! index k @ [n]]) k' =
      (if same k' k then Some (val n) else table_view index same key val bs k')"
    "length (concat (bs[index k := bs ! index k @ [n]])) = length (concat bs) + 1"
proof -
  have "\<not> same (key e) k" if "e \<in> set (bs ! index k)" for e using assms(3) that same_sym by blast
  then show "table_ok index same key (bs[index k := bs ! index k @ [n]])"
    using assms by (auto simp: table_ok_def chain_ok_def sorted_wrt_append nth_list_update)
  have "\<not> same k' (key e)" if "same k' k" "e \<in> set (bs ! index k)" for e
    using assms(3) that same_sym same_trans by blast
  then show "table_view index same key val (bs[index k := bs ! index k @ [n]]) k' =
      (if same k' k then Some (val n) else table_view index same key val bs k')"
    using assms(2,4) same_index [of k' k] same_sym
    by (cases "index k' = index k") (auto simp: table_view_def split: option.splits)
  show "length (concat (bs[index k := bs ! index k @ [n]])) = length (concat bs) + 1"
    using length_concat_update [OF assms(2), of "bs ! index k @ [n]"] by simp
qed

lemma table_replace:
  assumes "table_ok index same key bs" "index k < length bs" "bs ! index k = pre @ e # post"
    "\<forall>x \<in> set pre. \<not> same k (key x)" "same k (key e)" "same k (key n)"
  shows "table_ok index same key (bs[index k := pre @ n # post])"
    "table_view index same key val (bs[index k := pre @ n # post]) k' =
      (if same k' k then Some (val n) else table_view index same key val bs k')"
    "length (concat (bs[index k := pre @ n # post])) = length (concat bs)"
proof -
  have en: "same (key e) x \<longleftrightarrow> same (key n) x" "same x (key e) \<longleftrightarrow> same x (key n)" for x
    using assms(5,6) same_sym same_trans by blast+
  show "table_ok index same key (bs[index k := pre @ n # post])"
    using assms(1,2,3) en same_index [OF assms(6)]
    by (auto simp: table_ok_def chain_ok_def sorted_wrt_append nth_list_update)
  have "\<not> same k' (key x)" if "same k' k" "x \<in> set pre" for x using assms(4) that same_sym same_trans by blast
  moreover have "same k' (key e) \<longleftrightarrow> same k' k" "same k' (key n) \<longleftrightarrow> same k' k"
    using assms(5,6) same_sym same_trans by blast+
  ultimately show "table_view index same key val (bs[index k := pre @ n # post]) k' =
      (if same k' k then Some (val n) else table_view index same key val bs k')"
    using assms(2,3) same_index [of k' k]
    by (cases "index k' = index k") (auto simp: table_view_def split: option.splits)
  show "length (concat (bs[index k := pre @ n # post])) = length (concat bs)"
    using length_concat_update [OF assms(2), of "pre @ n # post"] assms(3) by simp
qed

lemma table_take_out:
  assumes "table_ok index same key bs" "index k < length bs" "bs ! index k = pre @ e # post"
    "\<forall>x \<in> set pre. \<not> same k (key x)" "same k (key e)"
  shows "table_ok index same key (bs[index k := pre @ post])"
    "table_view index same key val (bs[index k := pre @ post]) k' =
      (if same k' k then None else table_view index same key val bs k')"
    "length (concat (bs[index k := pre @ post])) = length (concat bs) - 1" "0 < length (concat bs)"
proof -
  show "table_ok index same key (bs[index k := pre @ post])"
    using assms(1,2,3) by (auto simp: table_ok_def chain_ok_def sorted_wrt_append nth_list_update)
  have "\<not> same (key e) (key x)" if "x \<in> set post" for x
    using assms(1,2,3) that by (auto simp: table_ok_def chain_ok_def sorted_wrt_append)
  then have "\<not> same k' (key x)" if "same k' k" "x \<in> set pre \<union> set post" for x
    using assms(4,5) that same_sym same_trans by blast
  moreover have "same k' (key e) \<longleftrightarrow> same k' k" using assms(5) same_sym same_trans by blast
  ultimately show "table_view index same key val (bs[index k := pre @ post]) k' =
      (if same k' k then None else table_view index same key val bs k')"
    using assms(2,3) same_index [of k' k]
    by (cases "index k' = index k") (auto simp: table_view_def split: option.splits)
  show "length (concat (bs[index k := pre @ post])) = length (concat bs) - 1"
    using length_concat_update [OF assms(2), of "pre @ post"] assms(3) by simp
  have "e \<in> set (concat bs)" using assms(2,3) by auto (metis in_set_conv_decomp nth_mem)
  then show "0 < length (concat bs)" by (cases "concat bs") auto
qed

end

lemma table_ok_empty [simp]: "table_ok index same key (replicate n [])"
  by (simp add: table_ok_def chain_ok_def)

section \<open>The contract of a table\<close>

text \<open>What a table of keys and values promises: the values it answers with (\<open>view\<close>) after \<open>put\<close> and \<open>del\<close>, and
  the number of keys.\<close>

locale key_map =
  fixes ok :: "'t \<Rightarrow> bool"
    and key_ok :: "'k \<Rightarrow> bool"
    and same :: "'k \<Rightarrow> 'k \<Rightarrow> bool"
    and view :: "'t \<Rightarrow> 'k \<Rightarrow> 'v option"
    and count :: "'t \<Rightarrow> nat"
    and put :: "'t \<Rightarrow> 'k \<Rightarrow> 'v \<Rightarrow> fault + 't"
    and del :: "'t \<Rightarrow> 'k \<Rightarrow> fault + 't"
  assumes same_refl: "ok t \<Longrightarrow> same k k"
    and put_ok: "ok t \<Longrightarrow> key_ok k \<Longrightarrow>
      runs (\<lambda>t'. ok t' \<and> (\<forall>k'. view t' k' = (if same k' k then Some v else view t k')) \<and>
        count t' = (if view t k = None then count t + 1 else count t)) (put t k v)"
    and del_ok: "ok t \<Longrightarrow> key_ok k \<Longrightarrow>
      runs (\<lambda>t'. ok t' \<and> (\<forall>k'. view t' k' = (if same k' k then None else view t k')) \<and>
        count t' = (if view t k = None then count t else count t - 1)) (del t k)"

text \<open>A client that puts one binding after the other, and what it finds: the last value put under the key.\<close>

primrec put_all :: "('t \<Rightarrow> 'k \<Rightarrow> 'v \<Rightarrow> fault + 't) \<Rightarrow> ('k \<times> 'v) list \<Rightarrow> 't \<Rightarrow> fault + 't" where
  "put_all put [] t = Inr t"
| "put_all put (kv # kvs) t = andthen (put t (fst kv) (snd kv)) (put_all put kvs)"

primrec last_value :: "('k \<Rightarrow> 'k \<Rightarrow> bool) \<Rightarrow> 'k \<Rightarrow> ('k \<times> 'v) list \<Rightarrow> 'v option" where
  "last_value same k [] = None"
| "last_value same k (kv # kvs) =
     (case last_value same k kvs of Some v \<Rightarrow> Some v | None \<Rightarrow> if same k (fst kv) then Some (snd kv) else None)"

context key_map begin

lemma put_all_view:
  assumes "ok t" "\<forall>kv \<in> set kvs. key_ok (fst kv)"
  shows "runs (\<lambda>t'. ok t' \<and> (\<forall>k. view t' k = (case last_value same k kvs of Some v \<Rightarrow> Some v | None \<Rightarrow> view t k)))
    (put_all put kvs t)"
  using assms
proof (induction kvs arbitrary: t)
  case (Cons kv kvs)
  have "key_ok (fst kv)" using Cons.prems(2) by simp
  with Cons.prems(1) obtain t1 where t1: "put t (fst kv) (snd kv) = Inr t1" "ok t1"
      "\<forall>k'. view t1 k' = (if same k' (fst kv) then Some (snd kv) else view t k')"
    using put_ok [of t "fst kv" "snd kv"] by (auto simp: runs_iff)
  obtain t2 where t2: "put_all put kvs t1 = Inr t2" "ok t2"
      "\<And>k. view t2 k = (case last_value same k kvs of Some v \<Rightarrow> Some v | None \<Rightarrow> view t1 k)"
    using Cons.IH [OF t1(2)] Cons.prems(2) unfolding runs_iff by auto
  show ?case using t1(1,3) t2 by (simp split: option.split)
qed simp

lemma put_all_count:
  assumes "ok t" "\<forall>kv \<in> set kvs. key_ok (fst kv)" "\<forall>kv \<in> set kvs. view t (fst kv) = None"
    "sorted_wrt (\<lambda>a b. \<not> same (fst b) (fst a)) kvs"
  shows "runs (\<lambda>t'. count t' = count t + length kvs) (put_all put kvs t)"
  using assms
proof (induction kvs arbitrary: t)
  case (Cons kv kvs)
  have "key_ok (fst kv)" "view t (fst kv) = None" using Cons.prems(2,3) by simp_all
  with Cons.prems(1) obtain t1 where t1: "put t (fst kv) (snd kv) = Inr t1" "ok t1" "count t1 = count t + 1"
      "\<forall>k'. view t1 k' = (if same k' (fst kv) then Some (snd kv) else view t k')"
    using put_ok [of t "fst kv" "snd kv"] by (auto simp: runs_iff)
  have "\<forall>x \<in> set kvs. view t1 (fst x) = None" using Cons.prems(3,4) t1(4) by auto
  then show ?case using Cons.IH [OF t1(2)] Cons.prems(2,4) t1 by (auto elim!: runs_mono)
qed simp

lemma put_del:
  assumes "ok t" "key_ok k" "view t k = None"
  shows "runs (\<lambda>t'. ok t' \<and> count t' = count t) (andthen (put t k v) (\<lambda>t. del t k))"
proof -
  obtain t1 where t1: "put t k v = Inr t1" "ok t1" "count t1 = count t + 1" "view t1 k = Some v"
    using put_ok [OF assms(1,2), of v] assms(3) same_refl [OF assms(1)] by (auto simp: runs_iff)
  then show ?thesis using del_ok [OF t1(2) assms(2)] by (auto elim!: runs_mono)
qed

end

section \<open>The table of objects\<close>

definition obj_ok :: "('o \<Rightarrow> int) \<Rightarrow> ('o \<Rightarrow> 'o \<Rightarrow> bool) \<Rightarrow> 'o obj_hash \<Rightarrow> bool" where
  "obj_ok hashcode equals t \<longleftrightarrow> key_class (obj_index hashcode) equals \<and> length (obj_base t) = TABLE_SIZE \<and>
     table_ok (obj_index hashcode) equals entry_key (obj_base t) \<and> obj_size t = length (concat (obj_base t))"

definition obj_view :: "('o \<Rightarrow> int) \<Rightarrow> ('o \<Rightarrow> 'o \<Rightarrow> bool) \<Rightarrow> 'o obj_hash \<Rightarrow> 'o \<Rightarrow> 'o option" where
  "obj_view hashcode equals t = table_view (obj_index hashcode) equals entry_key entry_value (obj_base t)"

lemma obj_index_less [simp]: "obj_index hashcode k < TABLE_SIZE"
  by (simp add: obj_index_def TABLE_SIZE_def)

lemma HashGet_view: "HashGet hashcode equals t k = obj_view hashcode equals t k"
proof -
  let ?P = "\<lambda>e. equals k (entry_key e)" and ?es = "obj_base t ! obj_index hashcode k"
  show ?thesis
    by (rule chain_find_cases [of ?P ?es])
      (simp_all add: HashGet_def HashFetch_def obj_view_def table_view_def Let_def)
qed

lemma HashPut_ok:
  assumes "obj_ok hashcode equals t"
  shows "\<exists>t'. HashPut hashcode equals True t (Some k) (Some v) = (0, t') \<and> obj_ok hashcode equals t' \<and>
    (\<forall>k'. obj_view hashcode equals t' k' = (if equals k' k then Some v else obj_view hashcode equals t k')) \<and>
    obj_size t' = (if obj_view hashcode equals t k = None then obj_size t + 1 else obj_size t)"
proof -
  let ?h = "obj_index hashcode k" and ?new = "\<lparr>entry_key = k, entry_value = v\<rparr>"
  have kc: "key_class (obj_index hashcode) equals" and ok: "table_ok (obj_index hashcode) equals entry_key (obj_base t)"
      "?h < length (obj_base t)" "length (obj_base t) = TABLE_SIZE" "obj_size t = length (concat (obj_base t))"
    using assms by (simp_all add: obj_ok_def)
  note refl = key_class.same_refl [OF kc]
  show ?thesis
  proof (rule chain_find_cases [of "\<lambda>e. equals k (entry_key e)" "obj_base t ! ?h"])
    assume c: "chain_find (\<lambda>e. equals k (entry_key e)) (obj_base t ! ?h) = length (obj_base t ! ?h)"
      "\<forall>e \<in> set (obj_base t ! ?h). \<not> equals k (entry_key e)"
    note add = key_class.table_add [OF kc ok(1,2) c(2), of ?new]
    show ?thesis using add(1) add(2) [where val = entry_value] add(3) ok c key_class.view_absent [OF kc, of entry_key entry_value "obj_base t" k]
      by (simp add: HashPut_def HashFetch_def Let_def obj_ok_def obj_view_def kc)
  next
    fix pre e post
    assume c: "obj_base t ! ?h = pre @ e # post" "chain_find (\<lambda>e. equals k (entry_key e)) (obj_base t ! ?h) = length pre"
      "\<forall>x \<in> set pre. \<not> equals k (entry_key x)" "equals k (entry_key e)"
    note rep = key_class.table_replace [OF kc ok(1,2) c(1,3,4), of ?new]
    show ?thesis using rep(1) rep(2) [where val = entry_value] rep(3) ok c refl key_class.view_absent [OF kc, of entry_key entry_value "obj_base t" k]
      by (simp add: HashPut_def HashFetch_def Let_def obj_ok_def obj_view_def kc)
  qed
qed

lemma HashRemove_ok:
  assumes "obj_ok hashcode equals t"
  shows "\<exists>t'. HashRemove hashcode equals t k = (if obj_view hashcode equals t k = None then -1 else 0, t') \<and>
    obj_ok hashcode equals t' \<and>
    (\<forall>k'. obj_view hashcode equals t' k' = (if equals k' k then None else obj_view hashcode equals t k')) \<and>
    obj_size t' = (if obj_view hashcode equals t k = None then obj_size t else obj_size t - 1)"
proof -
  let ?h = "obj_index hashcode k"
  have kc: "key_class (obj_index hashcode) equals" and ok: "table_ok (obj_index hashcode) equals entry_key (obj_base t)"
      "?h < length (obj_base t)" "length (obj_base t) = TABLE_SIZE" "obj_size t = length (concat (obj_base t))"
    using assms by (simp_all add: obj_ok_def)
  note same = key_class.view_same [OF kc, of _ k entry_key entry_value "obj_base t"]
  show ?thesis
  proof (rule chain_find_cases [of "\<lambda>e. equals k (entry_key e)" "obj_base t ! ?h"])
    assume c: "chain_find (\<lambda>e. equals k (entry_key e)) (obj_base t ! ?h) = length (obj_base t ! ?h)"
      "\<forall>e \<in> set (obj_base t ! ?h). \<not> equals k (entry_key e)"
    show ?thesis using c assms same key_class.view_absent [OF kc, of entry_key entry_value "obj_base t" k]
      by (auto simp: HashRemove_def HashFetch_def Let_def obj_view_def)
  next
    fix pre e post
    assume c: "obj_base t ! ?h = pre @ e # post" "chain_find (\<lambda>e. equals k (entry_key e)) (obj_base t ! ?h) = length pre"
      "\<forall>x \<in> set pre. \<not> equals k (entry_key x)" "equals k (entry_key e)"
    note out = key_class.table_take_out [OF kc ok(1,2) c(1,3,4)]
    show ?thesis using out(1) out(2) [where val = entry_value] out(3) ok c key_class.view_absent [OF kc, of entry_key entry_value "obj_base t" k]
      by (auto simp: HashRemove_def HashFetch_def Let_def obj_ok_def obj_view_def kc)
  qed
qed

interpretation obj: key_map "obj_ok hashcode equals" "\<lambda>k. True" equals "obj_view hashcode equals" obj_size
  "\<lambda>t k v. Inr (snd (HashPut hashcode equals True t (Some k) (Some v)))" "\<lambda>t k. Inr (snd (HashRemove hashcode equals t k))"
  for hashcode equals
proof (unfold_locales, goal_cases)
  case (1 t k)
  then show ?case using key_class.same_refl [of "obj_index hashcode" equals k] by (simp add: obj_ok_def)
next
  case (2 t k v)
  then show ?case using HashPut_ok [OF 2(1), of k v] by auto
next
  case (3 t k)
  then show ?case using HashRemove_ok [OF 3(1), of k] by auto
qed

section \<open>The table of strings\<close>

definition str_index :: "nat \<Rightarrow> string \<Rightarrow> nat" where
  "str_index n k = unat (djb_hash k) mod n"

abbreviation item_name :: "'v hash_item \<Rightarrow> string" where
  "item_name e \<equiv> cstring_of (item_key e)"

definition str_ok :: "'v str_hash \<Rightarrow> bool" where
  "str_ok t \<longleftrightarrow> str_base t \<noteq> [] \<and> (\<forall>e \<in> set (concat (str_base t)). NUL \<in> set (item_key e)) \<and>
     table_ok (str_index (length (str_base t))) (=) item_name (str_base t) \<and> str_length t = length (concat (str_base t))"

definition str_view :: "'v str_hash \<Rightarrow> string \<Rightarrow> 'v option" where
  "str_view t = table_view (str_index (length (str_base t))) (=) item_name item_value (str_base t)"

interpretation strings: key_class "str_index n" "(=)" for n
  by unfold_locales simp_all

lemma strncmp_eq_exact:
  assumes "NUL \<in> set b" "NUL \<notin> set s" "length s < n"
  shows "strncmp_eq n s b = Inr (s = cstring_of b)"
  using assms
proof (induction n s b rule: strncmp_eq.induct)
  case (2 n s c b)
  then show ?case by (cases s) (auto simp: cstring_of_def)
qed simp

lemma hash_fetch_loop_exact:
  assumes "\<forall>e \<in> set es. NUL \<in> set (item_key e)" "NUL \<notin> set k" "length k < klen"
  shows "hash_fetch_loop k klen es = Inr (chain_find (\<lambda>e. k = item_name e) es)"
  using assms by (induction es) (auto simp: strncmp_eq_exact)

text \<open>The keys that fit: nothing wraps around.\<close>

definition key_fits :: "string \<Rightarrow> nat \<Rightarrow> bool" where
  "key_fits k klen \<longleftrightarrow> NUL \<notin> set k \<and> length k < klen \<and> klen + ITEM_SIZE + 1 < 2 ^ 64"

lemma hash_fetch_exact:
  assumes "str_ok t" "NUL \<notin> set k" "length k < klen"
  shows "hash_fetch t k klen = Inr (str_index (length (str_base t)) k,
    chain_find (\<lambda>e. k = item_name e) (str_base t ! str_index (length (str_base t)) k))"
proof -
  have "str_index (length (str_base t)) k < length (str_base t)" using assms(1) by (simp add: str_ok_def str_index_def)
  then have "\<forall>e \<in> set (str_base t ! str_index (length (str_base t)) k). NUL \<in> set (item_key e)"
    using assms(1) by (auto simp: str_ok_def)
  then show ?thesis using assms
    by (simp add: hash_fetch_def djb_hash_index_def str_ok_def hash_fetch_loop_exact str_index_def)
qed

lemma new_item_ok:
  assumes "key_fits k klen"
  shows "\<exists>e. new_item k klen v = Inr e \<and> item_name e = k \<and> NUL \<in> set (item_key e) \<and> item_value e = v"
proof -
  have k: "NUL \<notin> set k" "length k < klen" "klen + ITEM_SIZE + 1 < 2 ^ 64" using assms by (simp_all add: key_fits_def)
  let ?b = "fst (TextCopy (replicate (klen + 1) NUL) (klen + 1) k)"
  have "cstring_of ?b = k" using TextCopy_cstring [OF k(1), of "klen + 1"] k(2) by simp
  moreover have "length ?b = klen + 1" using k(1,2) by (simp add: TextCopy_def textcopy_loop_eq Let_def)
  moreover have "NUL \<in> set ?b"
  proof (rule ccontr)
    assume "NUL \<notin> set ?b"
    then have "cstring_of ?b = ?b" by (auto simp: cstring_of_def takeWhile_eq_all_conv)
    with calculation k(2) show False by simp
  qed
  moreover have "new_item k klen v = Inr \<lparr>item_key = ?b, item_value = v\<rparr>" using k by (simp add: new_item_def Let_def)
  ultimately show ?thesis by simp
qed

lemma str_ok_chain:
  assumes "str_ok t"
  shows "str_index (length (str_base t)) k < length (str_base t)"
    "table_ok (str_index (length (str_base t))) (=) item_name (str_base t)"
    "\<forall>e \<in> set (concat (str_base t)). NUL \<in> set (item_key e)" "str_length t = length (concat (str_base t))"
  using assms by (simp_all add: str_ok_def str_index_def)

lemma concat_update_all:
  assumes "h < length bs" "\<forall>e \<in> set (concat bs). P e" "(\<forall>e \<in> set (bs ! h). P e) \<Longrightarrow> \<forall>e \<in> set b. P e"
  shows "\<forall>e \<in> set (concat (bs[h := b])). P e"
proof -
  have "\<forall>e \<in> set (bs ! h). P e" using assms(1,2) by auto
  then show ?thesis using assms set_update_subset_insert [of bs h b] by auto
qed

lemma hash_getk_view:
  assumes "str_ok t" "NUL \<notin> set k" "length k < klen"
  shows "hash_getk t k klen = (case str_view t k of Some v \<Rightarrow> Inr v | None \<Rightarrow> Inl OutOfBounds)"
proof -
  let ?es = "str_base t ! str_index (length (str_base t)) k"
  note fetch = hash_fetch_exact [OF assms]
  show ?thesis
  proof (rule chain_find_cases [of "\<lambda>e. k = item_name e" ?es])
    assume "chain_find (\<lambda>e. k = item_name e) ?es = length ?es" "\<forall>e \<in> set ?es. k \<noteq> item_name e"
    then show ?thesis by (simp add: hash_getk_def fetch str_view_def table_view_def)
  next
    fix pre e post
    assume c: "?es = pre @ e # post" "chain_find (\<lambda>e. k = item_name e) ?es = length pre"
      "\<forall>x \<in> set pre. k \<noteq> item_name x" "k = item_name e"
    show ?thesis using c(1-3) c(4) [symmetric] by (simp add: hash_getk_def fetch str_view_def table_view_def)
  qed
qed

lemma hash_putk_ok:
  assumes "str_ok t" "key_fits k klen"
  shows "\<exists>t'. hash_putk True t (Some k) klen v = Inr (0, t') \<and> str_ok t' \<and>
    (\<forall>k'. str_view t' k' = (if k' = k then Some v else str_view t k')) \<and>
    str_length t' = (if str_view t k = None then str_length t + 1 else str_length t)"
proof -
  let ?h = "str_index (length (str_base t)) k" and ?bs = "str_base t"
  note ok = str_ok_chain [OF assms(1)]
  obtain e' where e': "new_item k klen v = Inr e'" "item_name e' = k" "NUL \<in> set (item_key e')" "item_value e' = v"
    using new_item_ok [OF assms(2), of v] by blast
  have "NUL \<notin> set k" "length k < klen" using assms(2) by (simp_all add: key_fits_def)
  note fetch = hash_fetch_exact [OF assms(1) this]
  note all = concat_update_all [OF ok(1,3)] and absent = strings.view_absent [of "length ?bs" item_name item_value ?bs k]
  show ?thesis
  proof (rule chain_find_cases [of "\<lambda>e. k = item_name e" "?bs ! ?h"])
    assume c: "chain_find (\<lambda>e. k = item_name e) (?bs ! ?h) = length (?bs ! ?h)" "\<forall>e \<in> set (?bs ! ?h). k \<noteq> item_name e"
    note add = strings.table_add [OF ok(2,1) c(2) e'(2)]
    have "\<forall>e \<in> set (concat (?bs[?h := ?bs ! ?h @ [e']])). NUL \<in> set (item_key e)"
      by (rule all) (use e'(3) in auto)
    then have "str_ok (t\<lparr>str_base := ?bs[?h := ?bs ! ?h @ [e']], str_length := str_length t + 1\<rparr>)"
      using add(1,3) ok(1,4) by (auto simp: str_ok_def)
    then show ?thesis using add(2) [where val = item_value] c(1) e'(1,4) absent c(2)
      by (simp add: hash_putk_def fetch str_view_def)
  next
    fix pre e post
    assume c: "?bs ! ?h = pre @ e # post" "chain_find (\<lambda>e. k = item_name e) (?bs ! ?h) = length pre"
      "\<forall>x \<in> set pre. k \<noteq> item_name x" "k = item_name e"
    note rep = strings.table_replace [OF ok(2,1) c(1,3,4), of "e\<lparr>item_value := v\<rparr>"]
    have "\<forall>x \<in> set (concat (?bs[?h := pre @ e\<lparr>item_value := v\<rparr> # post])). NUL \<in> set (item_key x)"
      by (rule all) (simp add: c(1))
    then have "str_ok (t\<lparr>str_base := ?bs[?h := pre @ e\<lparr>item_value := v\<rparr> # post], freed := f\<rparr>)" for f
      using rep(1,3) c(4) ok(1,4) by (auto simp: str_ok_def)
    then show ?thesis using rep(2) [where val = item_value] c(1-3) c(4) [symmetric] absent
      by (simp add: hash_putk_def fetch Let_def str_view_def)
  qed
qed

lemma hash_removek_ok:
  assumes "str_ok t" "NUL \<notin> set k" "length k < klen"
  shows "\<exists>t'. hash_removek t k klen = Inr (if str_view t k = None then -1 else 0, t') \<and> str_ok t' \<and>
    (\<forall>k'. str_view t' k' = (if k' = k then None else str_view t k')) \<and>
    str_length t' = (if str_view t k = None then str_length t else str_length t - 1)"
proof -
  let ?h = "str_index (length (str_base t)) k" and ?bs = "str_base t"
  note ok = str_ok_chain [OF assms(1)] and fetch = hash_fetch_exact [OF assms]
  note all = concat_update_all [OF ok(1,3)] and absent = strings.view_absent [of "length ?bs" item_name item_value ?bs k]
  show ?thesis
  proof (rule chain_find_cases [of "\<lambda>e. k = item_name e" "?bs ! ?h"])
    assume c: "chain_find (\<lambda>e. k = item_name e) (?bs ! ?h) = length (?bs ! ?h)" "\<forall>e \<in> set (?bs ! ?h). k \<noteq> item_name e"
    then show ?thesis using assms(1) absent by (auto simp: hash_removek_def fetch Let_def str_view_def)
  next
    fix pre e post
    assume c: "?bs ! ?h = pre @ e # post" "chain_find (\<lambda>e. k = item_name e) (?bs ! ?h) = length pre"
      "\<forall>x \<in> set pre. k \<noteq> item_name x" "k = item_name e"
    note out = strings.table_take_out [OF ok(2,1) c(1,3,4)]
    have "\<forall>x \<in> set (concat (?bs[?h := pre @ post])). NUL \<in> set (item_key x)"
      by (rule all) (simp add: c(1))
    then have "str_ok (t\<lparr>str_base := ?bs[?h := pre @ post], str_length := str_length t - 1, freed := f\<rparr>)" for f
      using out(1,3) ok(1,4) by (auto simp: str_ok_def)
    then show ?thesis using out(2) [where val = item_value] c(1-3) c(4) [symmetric] absent
      by (auto simp: hash_removek_def fetch Let_def str_view_def)
  qed
qed

interpretation str: key_map str_ok "\<lambda>k. key_fits k (length k + 1)" "(=)" str_view str_length
  "\<lambda>t k v. andthen (hash_putk True t (Some k) (length k + 1) v) (\<lambda>(_, t). Inr t)"
  "\<lambda>t k. andthen (hash_remove t k) (\<lambda>(_, t). Inr t)"
proof (unfold_locales, goal_cases)
  case (2 t k v)
  then show ?case using hash_putk_ok [OF 2, of v] by auto
next
  case (3 t k)
  then have "NUL \<notin> set k" "length k < SIZE_MAX" by (auto simp: key_fits_def SIZE_MAX_def)
  then show ?case using hash_removek_ok [OF 3(1)] by (fastforce simp: hash_remove_def)
qed simp

section \<open>Nothing is lost or destroyed twice\<close>

definition obj_contents :: "'o obj_hash \<Rightarrow> 'o multiset" where
  "obj_contents t = mset (entry_objects (concat (obj_base t)))"

lemma entry_objects_simps [simp]:
  "entry_objects [] = []" "entry_objects (e # es) = entry_value e # entry_key e # entry_objects es"
  "entry_objects (es @ fs) = entry_objects es @ entry_objects fs"
  by (simp_all add: entry_objects_def)

lemma mset_objects_update:
  assumes "h < length bs"
  shows "mset (entry_objects (concat (bs[h := b]))) + mset (entry_objects (bs ! h)) =
    mset (entry_objects (concat bs)) + mset (entry_objects b)"
proof -
  have "bs = take h bs @ bs ! h # drop (Suc h) bs" using assms by (rule id_take_nth_drop)
  moreover have "bs[h := b] = take h bs @ b # drop (Suc h) bs" using assms by (rule upd_conv_take_nth_drop)
  ultimately show ?thesis by (smt (verit) concat.simps(2) concat_append entry_objects_simps(3) mset_append union_ac)
qed

lemma HashPut_conserves:
  assumes "obj_ok hashcode equals t" "v \<notin># obj_contents t" "k \<notin># obj_contents t"
    "HashPut hashcode equals ma t (Some k) (Some v) = (0, t')"
  shows "mset (destroyed t') + obj_contents t' = mset (destroyed t) + obj_contents t + {#k, v#}"
proof -
  let ?h = "obj_index hashcode k" and ?new = "\<lparr>entry_key = k, entry_value = v\<rparr>"
  have h: "?h < length (obj_base t)" using assms(1) by (simp add: obj_ok_def)
  note upd = mset_objects_update [OF h]
  show ?thesis
  proof (rule chain_find_cases [of "\<lambda>e. equals k (entry_key e)" "obj_base t ! ?h"])
    assume c: "chain_find (\<lambda>e. equals k (entry_key e)) (obj_base t ! ?h) = length (obj_base t ! ?h)"
    show ?thesis using assms(4) c upd [of "obj_base t ! ?h @ [?new]"]
      by (auto simp: HashPut_def HashFetch_def Let_def obj_contents_def split: if_splits)
  next
    fix pre e post
    assume c: "obj_base t ! ?h = pre @ e # post" "chain_find (\<lambda>e. equals k (entry_key e)) (obj_base t ! ?h) = length pre"
    have "set (obj_base t ! ?h) \<subseteq> set (concat (obj_base t))" using nth_mem [OF h] by auto
    then have "entry_value e \<in># obj_contents t" "entry_key e \<in># obj_contents t"
      using c(1) by (auto simp: obj_contents_def entry_objects_def)
    then have "v \<noteq> entry_value e" "k \<noteq> entry_key e" using assms(2,3) by auto
    then show ?thesis using assms(4) c upd [of "pre @ ?new # post"]
      by (auto simp: HashPut_def HashFetch_def Let_def obj_contents_def add_mset_commute split: if_splits)
  qed
qed

lemma HashRemove_conserves:
  assumes "obj_ok hashcode equals t"
  shows "mset (destroyed (snd (HashRemove hashcode equals t k))) + obj_contents (snd (HashRemove hashcode equals t k)) =
    mset (destroyed t) + obj_contents t"
proof -
  let ?h = "obj_index hashcode k"
  have h: "?h < length (obj_base t)" using assms by (simp add: obj_ok_def)
  show ?thesis
  proof (rule chain_find_cases [of "\<lambda>e. equals k (entry_key e)" "obj_base t ! ?h"])
    assume "chain_find (\<lambda>e. equals k (entry_key e)) (obj_base t ! ?h) = length (obj_base t ! ?h)"
    then show ?thesis by (simp add: HashRemove_def HashFetch_def Let_def)
  next
    fix pre e post
    assume c: "obj_base t ! ?h = pre @ e # post" "chain_find (\<lambda>e. equals k (entry_key e)) (obj_base t ! ?h) = length pre"
    then show ?thesis using mset_objects_update [OF h, of "pre @ post"]
      by (auto simp: HashRemove_def HashFetch_def Let_def obj_contents_def add_mset_commute)
  qed
qed

lemma walk_chain_conserves:
  "walk_chain f es d = (stop, kept, gone, d') \<Longrightarrow>
     mset (entry_objects kept) + mset (entry_objects gone) = mset (entry_objects es) \<and> length kept + length gone = length es"
  by (induction es arbitrary: d stop kept gone d') (force simp: Let_def split: prod.splits if_splits)+

lemma walk_buckets_conserves:
  "walk_buckets f bs d = (bs', gone, d') \<Longrightarrow>
     mset (entry_objects (concat bs')) + mset (entry_objects gone) = mset (entry_objects (concat bs)) \<and>
     length (concat bs') + length gone = length (concat bs)"
proof (induction bs arbitrary: d bs' gone d')
  case (Cons b bs)
  obtain stop b' gone1 d1 where w: "walk_chain f b d = (stop, b', gone1, d1)" by (metis prod_cases4)
  note c = walk_chain_conserves [OF w]
  show ?case
  proof (cases stop)
    case True
    then show ?thesis using Cons.prems c w by auto
  next
    case False
    obtain bs2 gone2 d2 where r: "walk_buckets f bs d1 = (bs2, gone2, d2)" by (metis prod_cases3)
    then show ?thesis using Cons.prems Cons.IH [OF r] c w False by (auto simp: union_ac)
  qed
qed simp

lemma walk_chain_subseq: "walk_chain f es d = (stop, kept, gone, d') \<Longrightarrow> subseq kept es"
  by (induction es arbitrary: d stop kept gone d') (auto simp: Let_def split: prod.splits if_splits)

lemma walk_buckets_subseq: "walk_buckets f bs d = (bs', gone, d') \<Longrightarrow> list_all2 subseq bs' bs"
proof (induction bs arbitrary: d bs' gone d')
  case (Cons b bs)
  obtain stop b' gone1 d1 where w: "walk_chain f b d = (stop, b', gone1, d1)" by (metis prod_cases4)
  note b' = walk_chain_subseq [OF w]
  show ?case
  proof (cases stop)
    case True
    then show ?thesis using Cons.prems b' w by (auto intro: list_all2_refl)
  next
    case False
    obtain bs2 gone2 d2 where r: "walk_buckets f bs d1 = (bs2, gone2, d2)" by (metis prod_cases3)
    then show ?thesis using Cons.prems Cons.IH [OF r] b' w False by auto
  qed
qed simp

lemma chain_ok_subseq: "subseq xs ys \<Longrightarrow> chain_ok same key ys \<Longrightarrow> chain_ok same key xs"
  unfolding chain_ok_def by (induction rule: list_emb.induct) (auto dest: list_emb_set)

lemma table_ok_subseq:
  assumes "list_all2 subseq bs' bs" "table_ok index same key bs"
  shows "table_ok index same key bs'"
  unfolding table_ok_def
proof (intro allI impI conjI)
  fix h assume h: "h < length bs'"
  then have sub: "subseq (bs' ! h) (bs ! h)" "h < length bs"
    using assms(1) by (auto simp: list_all2_conv_all_nth)
  then have "set (bs' ! h) \<subseteq> set (bs ! h)" by (auto elim: list_emb_set)
  then show "\<forall>e \<in> set (bs' ! h). index (key e) = h" using assms(2) sub(2) by (auto simp: table_ok_def)
  show "chain_ok same key (bs' ! h)" using chain_ok_subseq [OF sub(1)] assms(2) sub(2) by (auto simp: table_ok_def)
qed

lemma HashWalk_ok:
  assumes "obj_ok hashcode equals t" "HashWalk f t d = (rc, t', d')"
  shows "rc = 0" "obj_ok hashcode equals t'" "mset (destroyed t') + obj_contents t' = mset (destroyed t) + obj_contents t"
proof -
  obtain bs gone d1 where w: "walk_buckets (\<lambda>e. f (entry_key e) (entry_value e)) (obj_base t) d = (bs, gone, d1)"
    by (metis prod_cases3)
  note c = walk_buckets_conserves [OF w] and s = walk_buckets_subseq [OF w]
  have r: "rc = 0" "t' = t\<lparr>obj_base := bs, obj_size := obj_size t - length gone, destroyed := destroyed t @ entry_objects gone\<rparr>"
    using assms(2) w by (auto simp: HashWalk_def)
  then show "rc = 0" "mset (destroyed t') + obj_contents t' = mset (destroyed t) + obj_contents t"
    using c by (auto simp: obj_contents_def union_ac)
  show "obj_ok hashcode equals t'" using assms(1) r(2) c table_ok_subseq [OF s] list_all2_lengthD [OF s]
    by (auto simp: obj_ok_def)
qed

lemma concat_replicate_Nil [simp]: "concat (replicate n []) = []"
  by (induction n) auto

lemma HashRemoveAll_ok:
  assumes "obj_ok hashcode equals t"
  shows "obj_ok hashcode equals (HashRemoveAll t)" "obj_contents (HashRemoveAll t) = {#}"
    "mset (destroyed (HashRemoveAll t)) = mset (destroyed t) + obj_contents t"
  using assms by (auto simp: HashRemoveAll_def obj_ok_def obj_contents_def)

lemma HashCreate_ok:
  assumes "key_class (obj_index hashcode) equals" "HashCreate True True = Some t"
  shows "obj_ok hashcode equals t" "obj_contents t = {#}" "destroyed t = []" "obj_view hashcode equals t k = None"
  using assms
  by (auto simp: HashCreate_def obj_ok_def obj_contents_def obj_view_def table_view_def)

text \<open>The operations that change a table, and a client that performs some of them; \<open>given\<close> are the objects that
  \<open>HashPut\<close> took.\<close>

datatype 'o hash_op = OpPut bool 'o 'o | OpRemove 'o | OpWalk "'o \<Rightarrow> 'o \<Rightarrow> int" | OpRemoveAll

primrec hash_step :: "('o \<Rightarrow> int) \<Rightarrow> ('o \<Rightarrow> 'o \<Rightarrow> bool) \<Rightarrow> 'o hash_op \<Rightarrow> 'o obj_hash \<times> 'o list \<Rightarrow> 'o obj_hash \<times> 'o list" where
  "hash_step hashcode equals (OpPut malloc_ok k v) s =
     (let (rc, t) = HashPut hashcode equals malloc_ok (fst s) (Some k) (Some v)
      in (t, if rc = 0 then snd s @ [k, v] else snd s))"
| "hash_step hashcode equals (OpRemove k) s = (snd (HashRemove hashcode equals (fst s) k), snd s)"
| "hash_step hashcode equals (OpWalk f) s = (fst (snd (HashWalk (\<lambda>k v d. (f k v, d)) (fst s) ())), snd s)"
| "hash_step hashcode equals OpRemoveAll s = (HashRemoveAll (fst s), snd s)"

primrec op_objects :: "'o hash_op \<Rightarrow> 'o list" where
  "op_objects (OpPut malloc_ok k v) = [k, v]"
| "op_objects (OpRemove k) = []"
| "op_objects (OpWalk f) = []"
| "op_objects OpRemoveAll = []"

definition owned :: "('o \<Rightarrow> int) \<Rightarrow> ('o \<Rightarrow> 'o \<Rightarrow> bool) \<Rightarrow> 'o obj_hash \<times> 'o list \<Rightarrow> bool" where
  "owned hashcode equals s \<longleftrightarrow> obj_ok hashcode equals (fst s) \<and>
     mset (destroyed (fst s)) + obj_contents (fst s) = mset (snd s)"

lemma HashPut_malloc_fails:
  "fst (HashPut hashcode equals False t (Some k) (Some v)) = 0 \<Longrightarrow>
    HashPut hashcode equals False t (Some k) (Some v) = HashPut hashcode equals True t (Some k) (Some v)"
  "fst (HashPut hashcode equals False t (Some k) (Some v)) \<noteq> 0 \<Longrightarrow>
    HashPut hashcode equals False t (Some k) (Some v) = (-1, t)"
  by (auto simp: HashPut_def Let_def split: prod.splits if_splits)

lemma hash_step_owned:
  assumes "owned hashcode equals s" "set (op_objects x) \<inter> set (snd s) = {}"
  shows "owned hashcode equals (hash_step hashcode equals x s)"
    "set (snd (hash_step hashcode equals x s)) \<subseteq> set (snd s) \<union> set (op_objects x)"
proof -
  obtain t g where s: "s = (t, g)" by (cases s)
  have ok: "obj_ok hashcode equals t" and eq: "mset (destroyed t) + obj_contents t = mset g"
    using assms(1) by (simp_all add: s owned_def)
  show "owned hashcode equals (hash_step hashcode equals x s)"
  proof (cases x)
    case (OpPut ma k v)
    obtain rc t' where put: "HashPut hashcode equals ma t (Some k) (Some v) = (rc, t')" by fastforce
    have "obj_contents t \<subseteq># mset g" using eq by (metis mset_subset_eq_add_right)
    then have fresh: "k \<notin># obj_contents t" "v \<notin># obj_contents t"
      using assms(2) by (auto simp: s OpPut dest: mset_subset_eqD)
    show ?thesis
    proof (cases "rc = 0")
      case True
      have "obj_ok hashcode equals t'"
        using HashPut_ok [OF ok, of k v] HashPut_malloc_fails(1) [of hashcode equals t k v] put True by (cases ma) auto
      moreover have "mset (destroyed t') + obj_contents t' = mset (destroyed t) + obj_contents t + {#k, v#}"
        using HashPut_conserves [OF ok fresh(2,1)] put True by simp
      ultimately show ?thesis using True put eq by (simp add: s OpPut owned_def)
    next
      case False
      then have "t' = t" using HashPut_ok [OF ok, of k v] HashPut_malloc_fails(2) [of hashcode equals t k v] put by (cases ma) auto
      then show ?thesis using False put ok eq by (simp add: s OpPut owned_def)
    qed
  next
    case (OpRemove k)
    then show ?thesis using HashRemove_ok [OF ok, of k] HashRemove_conserves [OF ok, of k] eq by (auto simp: s owned_def)
  next
    case (OpWalk f)
    obtain rc t' d where w: "HashWalk (\<lambda>k v d. (f k v, d)) t () = (rc, t', d)" by (metis prod_cases3)
    then show ?thesis using HashWalk_ok [OF ok w] eq by (simp add: s owned_def OpWalk)
  next
    case OpRemoveAll
    then show ?thesis using HashRemoveAll_ok [OF ok] eq by (simp add: s owned_def)
  qed
  show "set (snd (hash_step hashcode equals x s)) \<subseteq> set (snd s) \<union> set (op_objects x)"
    by (cases x) (auto simp: s split: prod.splits)
qed

section \<open>Evidence: tables of strings\<close>

lemmas hash_evidence_defs = hash_getk_def hash_get_def hash_fetch_def djb_hash_index_def hash_putk_def hash_put_def new_item_def
  SIZE_MAX_def ITEM_SIZE_def TextCopy_def

lemma hash_getk_missing:
  "hash_getk \<lparr>str_base = [[]], str_length = 0, freed = []\<rparr> ''key'' 4 = (Inl OutOfBounds :: fault + nat)"
  by (simp add: hash_evidence_defs)

text \<open>\<open>hash_put\<close> asks for a block of \<open>sizeof (HashItem)\<close> octets, because \<open>SIZE_MAX + 1\<close> is 0: the key of the item
  points behind the block and is never written.\<close>

lemma hash_put_no_key:
  "hash_put True \<lparr>str_base = [[]], str_length = 0, freed = []\<rparr> (Some ''key'') (5::nat)
    = Inr (0, \<lparr>str_base = [[\<lparr>item_key = [], item_value = 5\<rparr>]], str_length = 1, freed = []\<rparr>)"
  "hash_get \<lparr>str_base = [[\<lparr>item_key = [], item_value = 5 :: nat\<rparr>]], str_length = 1, freed = []\<rparr> ''key'' = Inl OutOfBounds"
  by (simp_all add: hash_evidence_defs)

text \<open>A length that excludes the null compares prefixes only: a shorter key replaces the value of a longer one
  of the same chain.\<close>

lemma hash_putk_prefix:
  "andthen (hash_putk True \<lparr>str_base = [[]], str_length = 0, freed = []\<rparr> (Some ''host1'') 5 (1::nat)) (\<lambda>(_, t).
   andthen (hash_putk True t (Some ''host'') 4 2) (\<lambda>(_, t).
   andthen (hash_get t ''host1'') (\<lambda>v. Inr (v, str_length t, freed t)))) = Inr (2, 1, [1])"
proof -
  have "replicate 6 NUL = [NUL, NUL, NUL, NUL, NUL, NUL]" by code_simp
  then show ?thesis by (simp add: hash_evidence_defs)
qed

section \<open>Properties\<close>

text \<open>C34: A table of objects implements a map: when \<open>equals\<close> is an equivalence and equal objects have equal hash
  codes, \<open>HashPut\<close> returns 0 and changes the value found under the key, and under every equal key, and no other;
  \<open>HashRemove\<close> returns 0 exactly when the key was found and removes it; the size is adjusted; and both keep the
  table's chains in order.\<close>

theorem Hash_implements_map:
  assumes "obj_ok hashcode equals t"
  shows "\<exists>t1 t2. HashPut hashcode equals True t (Some k) (Some v) = (0, t1) \<and>
    HashRemove hashcode equals t k = (if HashGet hashcode equals t k = None then -1 else 0, t2) \<and>
    obj_ok hashcode equals t1 \<and> obj_ok hashcode equals t2 \<and>
    HashGet hashcode equals t1 k' = (if equals k' k then Some v else HashGet hashcode equals t k') \<and>
    HashGet hashcode equals t2 k' = (if equals k' k then None else HashGet hashcode equals t k') \<and>
    HashSize (Some t1) = HashSize (Some t) + (if HashGet hashcode equals t k = None then 1 else 0) \<and>
    HashSize (Some t2) = HashSize (Some t) - (if HashGet hashcode equals t k = None then 0 else 1)"
  using HashPut_ok [OF assms, of k v] HashRemove_ok [OF assms, of k] by (auto simp: HashGet_view HashSize_def)

theorem Hash_implements_map_witness:
  "HashGet (\<lambda>x. int x) (=) (snd (HashPut (\<lambda>x. int x) (=) True
     \<lparr>obj_base = replicate TABLE_SIZE [], obj_size = 0, destroyed = []\<rparr> (Some 7) (Some (9::nat)))) 7 = Some 9"
proof -
  have "key_class (obj_index int) ((=) :: nat \<Rightarrow> nat \<Rightarrow> bool)" by unfold_locales auto
  then have "obj_ok int (=) (\<lparr>obj_base = replicate TABLE_SIZE [], obj_size = 0, destroyed = []\<rparr> :: nat obj_hash)"
    by (rule HashCreate_ok) (simp add: HashCreate_def)
  from Hash_implements_map [OF this, of 7 9 7] show ?thesis by auto
qed

text \<open>C35: No object is lost or destroyed twice: whatever puts, removals and walks a client performs on a new table,
  with objects that are all different, destroying the table leaves every object that \<open>HashPut\<close> took destroyed
  exactly once, and no other.\<close>

theorem Hash_destroys_once:
  assumes "key_class (obj_index hashcode) equals" "HashCreate True True = Some t"
    "distinct (concat (map op_objects ops))"
  shows "let (t', given) = fold (hash_step hashcode equals) ops (t, [])
    in mset (HashDestroy t') = mset given"
proof -
  have "owned hashcode equals (fold (hash_step hashcode equals) ops s) "
    if "owned hashcode equals s" "distinct (concat (map op_objects ops))" "set (concat (map op_objects ops)) \<inter> set (snd s) = {}" for s
    using that
  proof (induction ops arbitrary: s)
    case (Cons x ops)
    have fresh: "set (op_objects x) \<inter> set (snd s) = {}" using Cons.prems(3) by auto
    note st = hash_step_owned [OF Cons.prems(1) fresh]
    have "set (concat (map op_objects ops)) \<inter> set (snd (hash_step hashcode equals x s)) = {}"
      using Cons.prems(2,3) st(2) by fastforce
    then show ?case using Cons.IH [OF st(1)] Cons.prems(2) by simp
  qed simp
  moreover have "owned hashcode equals (t, [])" using HashCreate_ok [OF assms(1,2)] by (simp add: owned_def)
  ultimately have "owned hashcode equals (fold (hash_step hashcode equals) ops (t, []))" using assms(3) by simp
  then show ?thesis using HashRemoveAll_ok(3) [of hashcode equals] by (force simp: owned_def HashDestroy_def split: prod.splits)
qed

theorem Hash_destroys_once_witness:
  "let (t', given) = fold (hash_step (\<lambda>x. 3) (=)) [OpPut True 1 2, OpRemove (1::nat), OpPut True 4 5]
     (\<lparr>obj_base = replicate TABLE_SIZE [], obj_size = 0, destroyed = []\<rparr>, [])
   in mset (HashDestroy t') = mset given"
proof (rule Hash_destroys_once)
  show "key_class (obj_index (\<lambda>x. 3)) ((=) :: nat \<Rightarrow> nat \<Rightarrow> bool)" by unfold_locales (auto simp: obj_index_def)
qed (simp_all add: HashCreate_def)

text \<open>C36: A table of strings finds what was put in: after any sequence of \<open>hash_putk\<close> with lengths that include the
  null, \<open>hash_get\<close> returns the last value put under the key; for a key that was never put it follows a null
  pointer.\<close>

theorem hash2_finds_last:
  assumes "hash_create_size True True n = Some t" "0 < n" "\<forall>kv \<in> set kvs. key_fits (fst kv) (length (fst kv) + 1)"
    "NUL \<notin> set k" "length k < SIZE_MAX"
  shows "\<exists>t'. put_all (\<lambda>t k v. andthen (hash_putk True t (Some k) (length k + 1) v) (\<lambda>(_, t). Inr t)) kvs t = Inr t' \<and>
    hash_get t' k = (case last_value (=) k kvs of Some v \<Rightarrow> Inr v | None \<Rightarrow> Inl OutOfBounds)"
proof -
  have t: "t = \<lparr>str_base = replicate n [], str_length = 0, freed = []\<rparr>" using assms(1) by (simp add: hash_create_size_def)
  have ok: "str_ok t" using assms(2) by (simp add: t str_ok_def)
  have none: "str_view t k = None" using assms(2) by (simp add: t str_view_def table_view_def str_index_def)
  obtain t' where t': "put_all (\<lambda>t k v. andthen (hash_putk True t (Some k) (length k + 1) v) (\<lambda>(_, t). Inr t)) kvs t = Inr t'"
      "str_ok t'" "str_view t' k = (case last_value (=) k kvs of Some v \<Rightarrow> Some v | None \<Rightarrow> str_view t k)"
    using str.put_all_view [OF ok assms(3)] unfolding runs_iff by blast
  then show ?thesis using none hash_getk_view [OF t'(2) assms(4,5)] by (simp add: hash_get_def split: option.splits)
qed

theorem hash2_finds_last_witness:
  "\<exists>t'. put_all (\<lambda>t k v. andthen (hash_putk True t (Some k) (length k + 1) v) (\<lambda>(_, t). Inr t))
      [(''a'', 1), (''b'', 2), (''a'', 3::nat)] \<lparr>str_base = replicate 7 [], str_length = 0, freed = []\<rparr> = Inr t' \<and>
    hash_get t' ''a'' = Inr 3"
  using hash2_finds_last [of 7 "\<lparr>str_base = replicate 7 [], str_length = 0, freed = []\<rparr>" "[(''a'', 1), (''b'', 2), (''a'', 3::nat)]" "''a''"]
  by (simp add: hash_create_size_def key_fits_def ITEM_SIZE_def SIZE_MAX_def)

end
