(* ===== verification/TreeHeap.thy ===== *)
theory TreeHeap
  imports CPrelude "HOL-Library.Tree" "HOL-Library.Multiset"
begin

text \<open>
  \<^verbatim>\<open>type/tree.c\<close>: binary search trees with parent pointers, on an explicit heap of nodes. A pointer is an
  address or null; reading or writing through a null or freed pointer is a fault. The recursive operations
  and the loops carry fuel, one unit for each level of the tree; a walk returns the calls it makes. The
  comparison function is the caller's.
\<close>

section \<open>Nodes\<close>

record 'd tree_node =
  node_data :: 'd
  left :: "nat option"
  right :: "nat option"
  parent :: "nat option"

type_synonym 'd nodes = "nat \<Rightarrow> 'd tree_node option"

definition node_at :: "'d nodes \<Rightarrow> nat option \<Rightarrow> fault + 'd tree_node" where
  "node_at h p = (case p of None \<Rightarrow> Inl OutOfBounds
     | Some a \<Rightarrow> (case h a of None \<Rightarrow> Inl OutOfBounds | Some n \<Rightarrow> Inr n))"

definition node_update :: "nat option \<Rightarrow> ('d tree_node \<Rightarrow> 'd tree_node) \<Rightarrow> 'd nodes \<Rightarrow> fault + 'd nodes" where
  "node_update p f h = andthen (node_at h p) (\<lambda>n. Inr (h(the p \<mapsto> f n)))"

text \<open>\<open>calloc\<close> answers with the unused address \<open>new\<close>, or fails.\<close>

definition tree_node :: "bool \<Rightarrow> nat \<Rightarrow> 'd \<Rightarrow> 'd nodes \<Rightarrow> nat option \<times> 'd nodes" where
  "tree_node calloc_ok new d h =
     (if calloc_ok
      then (Some new, h(new \<mapsto> \<lparr>node_data = d, left = None, right = None, parent = None\<rparr>))
      else (None, h))"

section \<open>Insertion and search\<close>

primrec tree_insert ::
  "nat \<Rightarrow> ('d \<Rightarrow> 'd \<Rightarrow> int) \<Rightarrow> bool \<Rightarrow> nat \<Rightarrow> 'd \<Rightarrow> nat option \<Rightarrow> 'd nodes \<Rightarrow> fault + nat option \<times> 'd nodes" where
  "tree_insert 0 cmp calloc_ok new d p h = Inl NoReturn"
| "tree_insert (Suc fuel) cmp calloc_ok new d p h =
     (if p = None then Inr (tree_node calloc_ok new d h)
      else andthen (node_at h p) (\<lambda>n.
        if cmp d (node_data n) < 0 then
          andthen (tree_insert fuel cmp calloc_ok new d (left n) h) (\<lambda>(q, h).
          andthen (node_update p (\<lambda>n. n\<lparr>left := q\<rparr>) h) (\<lambda>h.
          andthen (node_update q (\<lambda>n. n\<lparr>parent := p\<rparr>) h) (\<lambda>h. Inr (p, h))))
        else
          andthen (tree_insert fuel cmp calloc_ok new d (right n) h) (\<lambda>(q, h).
          andthen (node_update p (\<lambda>n. n\<lparr>right := q\<rparr>) h) (\<lambda>h.
          andthen (node_update q (\<lambda>n. n\<lparr>parent := p\<rparr>) h) (\<lambda>h. Inr (p, h))))))"

primrec tree_find :: "nat \<Rightarrow> ('d \<Rightarrow> 'd \<Rightarrow> int) \<Rightarrow> 'd \<Rightarrow> 'd nodes \<Rightarrow> nat option \<Rightarrow> fault + nat option" where
  "tree_find 0 cmp d h p = Inl NoReturn"
| "tree_find (Suc fuel) cmp d h p =
     (if p = None then Inr None
      else andthen (node_at h p) (\<lambda>n.
        let diff = cmp d (node_data n)
        in if diff = 0 then Inr p
           else tree_find fuel cmp d h (if diff < 0 then left n else right n)))"

section \<open>Walks\<close>

text \<open>The calls of a walk: which of the three functions, and the node.\<close>

datatype walk_call = Pre nat | In nat | Post nat

definition call_if :: "bool \<Rightarrow> walk_call \<Rightarrow> walk_call list" where
  "call_if given c = (if given then [c] else [])"

primrec tree_walk :: "nat \<Rightarrow> bool \<Rightarrow> bool \<Rightarrow> bool \<Rightarrow> 'd nodes \<Rightarrow> nat option \<Rightarrow> fault + walk_call list" where
  "tree_walk 0 pre inn post h p = Inl NoReturn"
| "tree_walk (Suc fuel) pre inn post h p =
     (case p of
        None \<Rightarrow> Inr []
      | Some a \<Rightarrow>
          andthen (node_at h p) (\<lambda>n.
          andthen (tree_walk fuel pre inn post h (left n)) (\<lambda>l.
          andthen (tree_walk fuel pre inn post h (right n)) (\<lambda>r.
          Inr (call_if pre (Pre a) @ l @ call_if inn (In a) @ r @ call_if post (Post a))))))"

definition tree_pre_order :: "nat \<Rightarrow> 'd nodes \<Rightarrow> nat option \<Rightarrow> fault + walk_call list" where
  "tree_pre_order fuel h p = tree_walk fuel True False False h p"

definition tree_in_order :: "nat \<Rightarrow> 'd nodes \<Rightarrow> nat option \<Rightarrow> fault + walk_call list" where
  "tree_in_order fuel h p = tree_walk fuel False True False h p"

definition tree_post_order :: "nat \<Rightarrow> 'd nodes \<Rightarrow> nat option \<Rightarrow> fault + walk_call list" where
  "tree_post_order fuel h p = tree_walk fuel False False True h p"

primrec tree_size :: "nat \<Rightarrow> 'd nodes \<Rightarrow> nat option \<Rightarrow> fault + nat" where
  "tree_size 0 h p = Inl NoReturn"
| "tree_size (Suc fuel) h p =
     (if p = None then Inr 0
      else andthen (node_at h p) (\<lambda>n.
           andthen (tree_size fuel h (left n)) (\<lambda>l.
           andthen (tree_size fuel h (right n)) (\<lambda>r. Inr (l + r + 1)))))"

text \<open>Freeing a tree: the data given to \<open>free_data\<close>, and the heap left.\<close>

primrec tree_free :: "nat \<Rightarrow> nat option \<Rightarrow> 'd nodes \<Rightarrow> fault + 'd list \<times> 'd nodes" where
  "tree_free 0 p h = Inl NoReturn"
| "tree_free (Suc fuel) p h =
     (case p of
        None \<Rightarrow> Inr ([], h)
      | Some a \<Rightarrow>
          andthen (node_at h p) (\<lambda>n.
          andthen (tree_free fuel (right n) h) (\<lambda>(r, h).
          andthen (tree_free fuel (left n) h) (\<lambda>(l, h).
          andthen (node_at h p) (\<lambda>_. Inr (node_data n # r @ l, h(a := None)))))))"

section \<open>Neighbours and deletion\<close>

primrec leftmost :: "nat \<Rightarrow> 'd nodes \<Rightarrow> nat option \<Rightarrow> fault + nat option" where
  "leftmost 0 h p = Inl NoReturn"
| "leftmost (Suc fuel) h p = andthen (node_at h p) (\<lambda>n. if left n = None then Inr p else leftmost fuel h (left n))"

primrec rightmost :: "nat \<Rightarrow> 'd nodes \<Rightarrow> nat option \<Rightarrow> fault + nat option" where
  "rightmost 0 h p = Inl NoReturn"
| "rightmost (Suc fuel) h p = andthen (node_at h p) (\<lambda>n. if right n = None then Inr p else rightmost fuel h (right n))"

definition tree_successor :: "nat \<Rightarrow> 'd nodes \<Rightarrow> nat option \<Rightarrow> fault + nat option" where
  "tree_successor fuel h p =
     (if p = None then Inr None
      else andthen (node_at h p) (\<lambda>n. if right n = None then Inr None else leftmost fuel h (right n)))"

definition tree_predecessor :: "nat \<Rightarrow> 'd nodes \<Rightarrow> nat option \<Rightarrow> fault + nat option" where
  "tree_predecessor fuel h p =
     (if p = None then Inr None
      else andthen (node_at h p) (\<lambda>n. if left n = None then Inr None else rightmost fuel h (left n)))"

text \<open>\<open>tree_remove_node\<close> hangs \<open>child\<close> in the place of the node and frees the node alone.\<close>

definition tree_remove_node :: "nat option \<Rightarrow> nat option \<Rightarrow> 'd nodes \<Rightarrow> fault + 'd \<times> 'd nodes" where
  "tree_remove_node p child h =
     andthen (node_at h p) (\<lambda>n.
     andthen (if parent n \<noteq> None then
                andthen (node_at h (parent n)) (\<lambda>up.
                node_update (parent n) (\<lambda>x. if p = left up then x\<lparr>left := child\<rparr> else x\<lparr>right := child\<rparr>) h)
              else Inr h) (\<lambda>h.
     andthen (if child \<noteq> None then node_update child (\<lambda>x. x\<lparr>parent := parent n\<rparr>) h else Inr h) (\<lambda>h.
     andthen (node_update p (\<lambda>x. x\<lparr>left := None, right := None\<rparr>) h) (\<lambda>h.
     andthen (tree_free 2 p h) (\<lambda>(_, h). Inr (node_data n, h))))))"

text \<open>The comparison reads \<open>node->data\<close> before the test for null.\<close>

primrec tree_delete :: "nat \<Rightarrow> ('d \<Rightarrow> 'd \<Rightarrow> int) \<Rightarrow> 'd \<Rightarrow> nat option \<Rightarrow> 'd nodes \<Rightarrow> fault + 'd \<times> 'd nodes" where
  "tree_delete 0 cmp d p h = Inl NoReturn"
| "tree_delete (Suc fuel) cmp d p h =
     andthen (node_at h p) (\<lambda>n.
     let diff = cmp d (node_data n)
     in if diff < 0 then tree_delete fuel cmp d (left n) h
        else if 0 < diff then tree_delete fuel cmp d (right n) h
        else if left n \<noteq> None \<and> right n \<noteq> None then
          andthen (tree_successor fuel h p) (\<lambda>succ.
          andthen (node_at h succ) (\<lambda>sn.
          andthen (node_update p (\<lambda>x. x\<lparr>node_data := node_data sn\<rparr>) h) (\<lambda>h.
          andthen (tree_delete fuel cmp d succ h) (\<lambda>(_, h). Inr (node_data n, h)))))
        else if right n \<noteq> None then tree_remove_node p (left n) h
        else if left n \<noteq> None then tree_remove_node p (right n) h
        else tree_remove_node p None h)"

section \<open>The heap holds a tree\<close>

text \<open>\<open>tree_at h up p t\<close>: at \<open>p\<close> the heap holds \<open>t\<close>, whose nodes are the addresses with their data, and all
  parent pointers are right, that of the root being \<open>up\<close>.\<close>

primrec tree_at :: "'d nodes \<Rightarrow> nat option \<Rightarrow> nat option \<Rightarrow> (nat \<times> 'd) tree \<Rightarrow> bool" where
  "tree_at h up p Leaf \<longleftrightarrow> p = None"
| "tree_at h up p (Node l x r) \<longleftrightarrow>
     (\<exists>n. p = Some (fst x) \<and> h (fst x) = Some n \<and> node_data n = snd x \<and> parent n = up \<and>
        tree_at h (Some (fst x)) (left n) l \<and> tree_at h (Some (fst x)) (right n) r)"

definition addrs :: "(nat \<times> 'd) tree \<Rightarrow> nat list" where
  "addrs t = map fst (inorder t)"

lemma addrs_simps [simp]: "addrs Leaf = []" "addrs (Node l x r) = addrs l @ fst x # addrs r"
  by (simp_all add: addrs_def)

lemma tree_at_frame:
  "(\<And>a. a \<in> set (addrs t) \<Longrightarrow> h' a = h a) \<Longrightarrow> tree_at h' up p t = tree_at h up p t"
  by (induction t arbitrary: up p) auto

lemma tree_at_Some: "tree_at h up p t \<Longrightarrow> p = None \<longleftrightarrow> t = Leaf"
  by (cases t) auto

lemma node_at_simps [simp]: "h a = Some n \<Longrightarrow> node_at h (Some a) = Inr n" "node_at h None = Inl OutOfBounds"
  by (simp_all add: node_at_def)

lemma node_update_simp [simp]: "h a = Some n \<Longrightarrow> node_update (Some a) f h = Inr (h(a \<mapsto> f n))"
  by (simp add: node_update_def)

lemma tree_at_set_parent:
  assumes "tree_at h up (Some a) t" "distinct (addrs t)"
  shows "\<exists>n. h a = Some n \<and> tree_at (h(a \<mapsto> n\<lparr>parent := up'\<rparr>)) up' (Some a) t"
proof (cases t)
  case Leaf
  then show ?thesis using assms by simp
next
  case (Node l x r)
  then obtain n where n: "a = fst x" "h a = Some n" "node_data n = snd x" "tree_at h (Some a) (left n) l" "tree_at h (Some a) (right n) r"
    using assms(1) by auto
  have "tree_at (h(a \<mapsto> n\<lparr>parent := up'\<rparr>)) (Some a) (left n) l" "tree_at (h(a \<mapsto> n\<lparr>parent := up'\<rparr>)) (Some a) (right n) r"
    using n(4,5) assms(2) by (subst tree_at_frame [where h = h]; auto simp: Node n(1))+
  then show ?thesis using n by (simp add: Node)
qed

text \<open>Hanging a tree under a node: the pointer in the node, then the parent pointer.\<close>

lemma tree_at_hang:
  assumes "tree_at h up (Some q) t" "distinct (addrs t)" "a \<notin> set (addrs t)"
  shows "\<exists>m. h q = Some m \<and> q \<noteq> a \<and> q \<in> set (addrs t) \<and>
    tree_at (h(a \<mapsto> n, q \<mapsto> m\<lparr>parent := Some a\<rparr>)) (Some a) (Some q) t"
proof -
  have q: "q \<in> set (addrs t)" using assms(1) by (cases t) auto
  then have qa: "q \<noteq> a" using assms(3) by blast
  have "tree_at (h(a \<mapsto> n)) up (Some q) t" using assms(1,3) by (subst tree_at_frame [where h = h]) auto
  from tree_at_set_parent [OF this assms(2), of "Some a"] q qa show ?thesis by auto
qed

section \<open>Insertion\<close>

primrec bst_insert :: "('d \<Rightarrow> 'd \<Rightarrow> int) \<Rightarrow> nat \<times> 'd \<Rightarrow> (nat \<times> 'd) tree \<Rightarrow> (nat \<times> 'd) tree" where
  "bst_insert cmp x Leaf = Node Leaf x Leaf"
| "bst_insert cmp x (Node l y r) =
     (if cmp (snd x) (snd y) < 0 then Node (bst_insert cmp x l) y r else Node l y (bst_insert cmp x r))"

lemma bst_insert_inorder: "mset (inorder (bst_insert cmp x t)) = add_mset x (mset (inorder t))"
  by (induction t) auto

lemma bst_insert_addrs [simp]: "set (addrs (bst_insert cmp x t)) = insert (fst x) (set (addrs t))"
  by (induction t) auto

lemma bst_insert_distinct [simp]:
  "distinct (addrs (bst_insert cmp x t)) \<longleftrightarrow> fst x \<notin> set (addrs t) \<and> distinct (addrs t)"
  by (induction t) auto

lemma bst_insert_height: "height (bst_insert cmp x t) \<le> height t + 1"
  by (induction t) auto

lemma bst_insert_not_Leaf [simp]: "bst_insert cmp x t \<noteq> Leaf"
  by (cases t) auto

lemma tree_insert_ok:
  assumes "tree_at h up p t" "distinct (addrs t)" "new \<notin> set (addrs t)" "height t < fuel"
  shows "\<exists>q h'. tree_insert fuel cmp True new d p h = Inr (Some q, h') \<and>
    tree_at h' (if t = Leaf then None else up) (Some q) (bst_insert cmp (new, d) t) \<and>
    (\<forall>a. a \<notin> set (addrs t) \<union> {new} \<longrightarrow> h' a = h a)"
  using assms
proof (induction t arbitrary: fuel p up)
  case Leaf
  then show ?case by (cases fuel) (auto simp: tree_node_def)
next
  case (Node l x r)
  obtain f where f: "fuel = Suc f" using Node.prems(4) by (cases fuel) auto
  obtain n where n: "p = Some (fst x)" "h (fst x) = Some n" "node_data n = snd x" "parent n = up"
      "tree_at h (Some (fst x)) (left n) l" "tree_at h (Some (fst x)) (right n) r"
    using Node.prems(1) by auto
  have d: "distinct (addrs l)" "distinct (addrs r)" "set (addrs l) \<inter> set (addrs r) = {}" "fst x \<notin> set (addrs l)" "fst x \<notin> set (addrs r)"
      "new \<notin> set (addrs l)" "new \<notin> set (addrs r)" "new \<noteq> fst x"
    using Node.prems(2,3) by auto
  show ?case
  proof (cases "cmp d (snd x) < 0")
    case True
    have "height l < f" using Node.prems(4) f by simp
    from Node.IH(1) [OF n(5) d(1,6) this] obtain q h1 where q: "tree_insert f cmp True new d (left n) h = Inr (Some q, h1)"
        "tree_at h1 (if l = Leaf then None else Some (fst x)) (Some q) (bst_insert cmp (new, d) l)"
        "\<forall>a. a \<notin> set (addrs l) \<union> {new} \<longrightarrow> h1 a = h a" by blast
    let ?h2 = "h1(fst x \<mapsto> n\<lparr>left := Some q\<rparr>)"
    have x1: "h1 (fst x) = Some n" using q(3) d n(2) by simp
    have "distinct (addrs (bst_insert cmp (new, d) l))" "fst x \<notin> set (addrs (bst_insert cmp (new, d) l))" using d by auto
    then obtain m where "h1 q = Some m" and qx: "q \<noteq> fst x" and ql: "q \<in> set (addrs (bst_insert cmp (new, d) l))"
      and m2: "tree_at (?h2(q \<mapsto> m\<lparr>parent := Some (fst x)\<rparr>)) (Some (fst x)) (Some q) (bst_insert cmp (new, d) l)"
      using tree_at_hang [OF q(2)] by blast
    then have m: "?h2 q = Some m" by simp
    have "tree_at (?h2(q \<mapsto> m\<lparr>parent := Some (fst x)\<rparr>)) (Some (fst x)) (right n) r"
      using n(6) q(3) d ql by (subst tree_at_frame [where h = h]) auto
    moreover have "tree_insert fuel cmp True new d p h = Inr (p, ?h2(q \<mapsto> m\<lparr>parent := Some (fst x)\<rparr>))"
      using q(1) n m x1 True by (simp add: f)
    ultimately show ?thesis using n m2 q(3) ql qx True by auto
  next
    case False
    have "height r < f" using Node.prems(4) f by simp
    from Node.IH(2) [OF n(6) d(2,7) this] obtain q h1 where q: "tree_insert f cmp True new d (right n) h = Inr (Some q, h1)"
        "tree_at h1 (if r = Leaf then None else Some (fst x)) (Some q) (bst_insert cmp (new, d) r)"
        "\<forall>a. a \<notin> set (addrs r) \<union> {new} \<longrightarrow> h1 a = h a" by blast
    let ?h2 = "h1(fst x \<mapsto> n\<lparr>right := Some q\<rparr>)"
    have x1: "h1 (fst x) = Some n" using q(3) d n(2) by simp
    have "distinct (addrs (bst_insert cmp (new, d) r))" "fst x \<notin> set (addrs (bst_insert cmp (new, d) r))" using d by auto
    then obtain m where "h1 q = Some m" and qx: "q \<noteq> fst x" and qr: "q \<in> set (addrs (bst_insert cmp (new, d) r))"
      and m2: "tree_at (?h2(q \<mapsto> m\<lparr>parent := Some (fst x)\<rparr>)) (Some (fst x)) (Some q) (bst_insert cmp (new, d) r)"
      using tree_at_hang [OF q(2)] by blast
    then have m: "?h2 q = Some m" by simp
    have "tree_at (?h2(q \<mapsto> m\<lparr>parent := Some (fst x)\<rparr>)) (Some (fst x)) (left n) l"
      using n(5) q(3) d qr by (subst tree_at_frame [where h = h]) auto
    moreover have "tree_insert fuel cmp True new d p h = Inr (p, ?h2(q \<mapsto> m\<lparr>parent := Some (fst x)\<rparr>))"
      using q(1) n m x1 False by (simp add: f)
    ultimately show ?thesis using n m2 q(3) qr qx False by auto
  qed
qed

section \<open>Search and walks\<close>

lemma tree_walk_ok:
  assumes "tree_at h up p t" "height t < fuel"
  shows "tree_walk fuel False True False h p = Inr (map (\<lambda>x. In (fst x)) (inorder t))"
    "tree_walk fuel True False False h p = Inr (map (\<lambda>x. Pre (fst x)) (preorder t))"
    "tree_walk fuel False False True h p = Inr (map (\<lambda>x. Post (fst x)) (postorder t))"
    "tree_size fuel h p = Inr (size t)"
  using assms
  by (induction t arbitrary: fuel p up) (auto simp: call_if_def less_Suc_eq_0_disj gr0_conv_Suc elim!: Suc_lessE)

definition cmp_order :: "('d \<Rightarrow> 'd \<Rightarrow> int) \<Rightarrow> bool" where
  "cmp_order cmp \<longleftrightarrow> (\<forall>a b. cmp a b < 0 \<longleftrightarrow> 0 < cmp b a) \<and> (\<forall>a b c. cmp a b \<le> 0 \<longrightarrow> cmp b c \<le> 0 \<longrightarrow> cmp a c \<le> 0)"

definition in_order :: "('d \<Rightarrow> 'd \<Rightarrow> int) \<Rightarrow> (nat \<times> 'd) tree \<Rightarrow> bool" where
  "in_order cmp t \<longleftrightarrow> sorted_wrt (\<lambda>x y. cmp (snd x) (snd y) \<le> 0) (inorder t)"

lemma cmp_orderD:
  assumes "cmp_order cmp"
  shows "cmp a b < 0 \<longleftrightarrow> 0 < cmp b a" "cmp a b \<le> 0 \<Longrightarrow> cmp b c \<le> 0 \<Longrightarrow> cmp a c \<le> 0"
    "cmp a b < 0 \<Longrightarrow> cmp b c \<le> 0 \<Longrightarrow> cmp a c < 0" "cmp a b \<le> 0 \<Longrightarrow> cmp b c < 0 \<Longrightarrow> cmp a c < 0"
proof -
  have neg: "cmp x y < 0 \<longleftrightarrow> 0 < cmp y x" for x y using assms unfolding cmp_order_def by blast
  have tr: "cmp x y \<le> 0 \<Longrightarrow> cmp y z \<le> 0 \<Longrightarrow> cmp x z \<le> 0" for x y z using assms unfolding cmp_order_def by blast
  show "cmp a b < 0 \<longleftrightarrow> 0 < cmp b a" "cmp a b \<le> 0 \<Longrightarrow> cmp b c \<le> 0 \<Longrightarrow> cmp a c \<le> 0" by (fact neg, fact tr)
  show "cmp a b < 0 \<Longrightarrow> cmp b c \<le> 0 \<Longrightarrow> cmp a c < 0" using neg tr by (metis less_imp_le not_less)
  show "cmp a b \<le> 0 \<Longrightarrow> cmp b c < 0 \<Longrightarrow> cmp a c < 0" using neg tr by (metis less_imp_le not_less)
qed

lemma bst_insert_in_order:
  assumes "cmp_order cmp" "in_order cmp t"
  shows "in_order cmp (bst_insert cmp x t)"
proof -
  have "set (inorder (bst_insert cmp x t)) = insert x (set (inorder t))" for t
    using bst_insert_inorder [of cmp x t] by (metis set_mset_add_mset_insert set_mset_mset)
  then have mem: "y \<in> set_tree (bst_insert cmp x t) \<longleftrightarrow> y = x \<or> y \<in> set_tree t" for y t by simp
  have neg: "\<not> cmp a b < 0 \<Longrightarrow> cmp b a \<le> 0" for a b using cmp_orderD(1) [OF assms(1), of a b] by linarith
  show ?thesis using assms(2)
  proof (induction t)
    case (Node l y r)
    have via: "cmp a (snd y) \<le> 0 \<Longrightarrow> cmp (snd y) b \<le> 0 \<Longrightarrow> cmp a b \<le> 0" for a b by (rule cmp_orderD(2) [OF assms(1)])
    have sub: "in_order cmp l" "in_order cmp r" "\<forall>z \<in> set_tree l. cmp (snd z) (snd y) \<le> 0" "\<forall>z \<in> set_tree r. cmp (snd y) (snd z) \<le> 0"
      using Node.prems by (auto simp: in_order_def sorted_wrt_append)
    show ?case
    proof (cases "cmp (snd x) (snd y) < 0")
      case True
      then have "\<forall>z \<in> set_tree (bst_insert cmp x l). cmp (snd z) (snd y) \<le> 0" using sub(3) by (auto simp: mem)
      then show ?thesis using Node.IH(1) [OF sub(1)] sub True by (auto simp: in_order_def sorted_wrt_append intro: via)
    next
      case False
      then have "\<forall>z \<in> set_tree (bst_insert cmp x r). cmp (snd y) (snd z) \<le> 0" using sub(4) by (auto simp: mem neg)
      then show ?thesis using Node.IH(2) [OF sub(2)] sub False by (auto simp: in_order_def sorted_wrt_append intro: via)
    qed
  qed (simp add: in_order_def)
qed

lemma tree_find_ok:
  assumes "cmp_order cmp" "tree_at h up p t" "in_order cmp t" "height t < fuel"
  shows "\<exists>r. tree_find fuel cmp d h p = Inr r \<and>
    (case r of None \<Rightarrow> \<forall>x \<in> set_tree t. cmp d (snd x) \<noteq> 0 | Some a \<Rightarrow> \<exists>x \<in> set_tree t. fst x = a \<and> cmp d (snd x) = 0)"
  using assms(2-)
proof (induction t arbitrary: p up fuel)
  case Leaf
  then show ?case by (cases fuel) auto
next
  case (Node l x r)
  obtain f where f: "fuel = Suc f" using Node.prems(3) by (cases fuel) auto
  obtain n where n: "p = Some (fst x)" "h (fst x) = Some n" "node_data n = snd x" "tree_at h (Some (fst x)) (left n) l"
      "tree_at h (Some (fst x)) (right n) r" using Node.prems(1) by auto
  have o: "in_order cmp l" "in_order cmp r" "\<forall>y \<in> set_tree l. cmp (snd y) (snd x) \<le> 0" "\<forall>y \<in> set_tree r. cmp (snd x) (snd y) \<le> 0"
    using Node.prems(2) by (auto simp: in_order_def sorted_wrt_append)
  have ht: "height l < f" "height r < f" using Node.prems(3) f by auto
  show ?case
  proof (cases "cmp d (snd x)" "0 :: int" rule: linorder_cases)
    case less
    then have "\<forall>y \<in> set_tree r. cmp d (snd y) < 0" using o(4) cmp_orderD(3) [OF assms(1)] by blast
    then have "\<forall>y \<in> set_tree r. cmp d (snd y) \<noteq> 0" by auto
    with Node.IH(1) [OF n(4) o(1) ht(1)] less n show ?thesis by (fastforce simp: f split: option.splits)
  next
    case equal
    then show ?thesis using n by (simp add: f)
  next
    case greater
    then have "cmp (snd x) d < 0" using cmp_orderD(1) [OF assms(1)] by blast
    then have "\<forall>y \<in> set_tree l. cmp (snd y) d < 0" using o(3) cmp_orderD(4) [OF assms(1)] by blast
    then have "\<forall>y \<in> set_tree l. cmp d (snd y) \<noteq> 0" using cmp_orderD(1) [OF assms(1)] by force
    with Node.IH(2) [OF n(5) o(2) ht(2)] greater n show ?thesis by (fastforce simp: f split: option.splits)
  qed
qed

section \<open>Evidence: deletion\<close>

definition plain :: "'d \<Rightarrow> nat option \<Rightarrow> nat option \<Rightarrow> nat option \<Rightarrow> 'd tree_node" where
  "plain d l r up = \<lparr>node_data = d, left = l, right = r, parent = up\<rparr>"

definition minus_cmp :: "int \<Rightarrow> int \<Rightarrow> int" where
  "minus_cmp a b = a - b"

lemmas tree_evidence_defs = node_at_def node_update_def tree_remove_node_def tree_successor_def plain_def minus_cmp_def
  eval_nat_numeral fun_upd_apply

text \<open>A key that is not in the tree, a node with two children: a null pointer is followed.\<close>

lemma tree_delete_absent:
  "tree_delete 5 minus_cmp 9 (Some 0) [0 \<mapsto> plain 1 None None None] = Inl OutOfBounds"
  by (simp add: tree_evidence_defs)

lemma tree_delete_two_children:
  "tree_delete 5 minus_cmp 5 (Some 0)
     [0 \<mapsto> plain 5 (Some 1) (Some 2) None, 1 \<mapsto> plain 3 None None (Some 0), 2 \<mapsto> plain 8 None None (Some 0)] = Inl OutOfBounds"
  by (simp add: tree_evidence_defs)

text \<open>A node with one child is replaced by the other, null: the subtree is cut off.\<close>

lemma tree_delete_one_child:
  "tree_delete 5 minus_cmp 3 (Some 0)
     [0 \<mapsto> plain 5 (Some 1) None None, 1 \<mapsto> plain 3 None (Some 2) (Some 0), 2 \<mapsto> plain 4 None None (Some 1)]
   = Inr (3, [0 \<mapsto> plain 5 None None None, 2 \<mapsto> plain 4 None None (Some 1)])"
  by (simp add: tree_evidence_defs) (auto simp: fun_eq_iff)

section \<open>Properties\<close>

text \<open>C37: \<open>tree_insert\<close> keeps a search tree: in a heap that holds a tree in order, with every parent pointer right,
  it adds the new node, at an unused address, and the heap holds a tree of the old nodes and the new one, in order and
  with every parent pointer right; the other addresses are unchanged, an in-order walk calls each node in order, and
  \<open>tree_find\<close> finds a node equal to the new data.\<close>

theorem tree_insert_keeps_order:
  assumes "cmp_order cmp" "tree_at h None p t" "in_order cmp t" "distinct (addrs t)" "new \<notin> set (addrs t)" "height t + 1 < fuel"
  shows "\<exists>q h' t'. tree_insert fuel cmp True new d p h = Inr (q, h') \<and> tree_at h' None q t' \<and> in_order cmp t' \<and>
    mset (inorder t') = add_mset (new, d) (mset (inorder t)) \<and> (\<forall>a. a \<in> set (addrs t) \<or> a = new \<or> h' a = h a) \<and>
    tree_in_order fuel h' q = Inr (map (\<lambda>x. In (fst x)) (inorder t')) \<and> tree_size fuel h' q = Inr (size t + 1) \<and>
    (\<exists>x \<in> set_tree t'. tree_find fuel cmp d h' q = Inr (Some (fst x)) \<and> cmp d (snd x) = 0)"
proof -
  let ?t = "bst_insert cmp (new, d) t"
  obtain q h' where ins: "tree_insert fuel cmp True new d p h = Inr (Some q, h')" "tree_at h' None (Some q) ?t"
      "\<forall>a. a \<notin> set (addrs t) \<union> {new} \<longrightarrow> h' a = h a"
    using tree_insert_ok [OF assms(2,4,5), of fuel cmp d] assms(6) by (cases "t = Leaf") auto
  have o: "in_order cmp ?t" and m: "mset (inorder ?t) = add_mset (new, d) (mset (inorder t))"
    using bst_insert_in_order [OF assms(1,3)] bst_insert_inorder [of cmp "(new, d)" t] by simp_all
  have ht: "height ?t < fuel" using bst_insert_height [of cmp "(new, d)" t] assms(6) by linarith
  have sz: "size ?t = size t + 1" using arg_cong [OF m, of size] by simp
  have "(new, d) \<in> set_tree ?t" using arg_cong [OF m, of set_mset] by auto
  moreover have "cmp d d = 0" using cmp_orderD(1) [OF assms(1), of d d] by linarith
  ultimately obtain x where "x \<in> set_tree ?t" "tree_find fuel cmp d h' (Some q) = Inr (Some (fst x))" "cmp d (snd x) = 0"
    using tree_find_ok [OF assms(1) ins(2) o ht, of d] by (auto split: option.splits)
  then show ?thesis using ins o m tree_walk_ok(1,4) [OF ins(2) ht] sz by (intro exI [of _ "Some q"] exI [of _ h'] exI [of _ ?t])
      (auto simp: tree_in_order_def)
qed

theorem tree_insert_keeps_order_witness:
  "\<exists>q h' t'. tree_insert 4 minus_cmp True 7 2 (Some 0) [0 \<mapsto> plain 5 None None None] = Inr (q, h') \<and> tree_at h' None q t' \<and>
    in_order minus_cmp t' \<and> tree_size 4 h' q = Inr 2"
proof -
  have "cmp_order minus_cmp" by (auto simp: cmp_order_def minus_cmp_def)
  from tree_insert_keeps_order [OF this, of "[0 \<mapsto> plain 5 None None None]" "Some 0" "Node Leaf (0, 5) Leaf" 7 4 2]
  show ?thesis by (auto simp: plain_def in_order_def)
qed

end
