(* ===== verification/MailPath.thy ===== *)
theory MailPath
  imports NetSpan
begin

text \<open>
  \<^verbatim>\<open>mail/parsePath.c\<close>: the parser of envelope paths, which every mail filter built on the library uses for
  \<^verbatim>\<open>MAIL FROM\<close> and \<^verbatim>\<open>RCPT TO\<close>, and the formatter of the parts. Pointers into the path are offsets. The two
  copies of the address that the parser splits by storing nulls are the strings between those nulls.
\<close>

section \<open>The inner path\<close>

text \<open>The loop of \<open>findInnerPath\<close>: the rest of the path and its offset, the depth, whether inside quotes, and
  \<open>*start\<close> and \<open>*stop\<close>, which is null at first and compares below every pointer.\<close>

fun inner_loop :: "string \<Rightarrow> nat \<Rightarrow> int \<Rightarrow> bool \<Rightarrow> nat \<Rightarrow> nat option \<Rightarrow> int \<times> nat \<times> nat option \<times> nat" where
  "inner_loop [] i depth quote start stop = (depth, start, stop, i)"
| "inner_loop (c # s) i depth quote start stop =
     (if c = CHR 0x22 then inner_loop s (i + 1) depth (\<not> quote) start stop
      else if c = CHR 0x5C then
        (case s of [] \<Rightarrow> inner_loop [] (i + 1) depth quote start stop
         | d # s' \<Rightarrow> inner_loop s' (i + 2) depth quote start stop)
      else if c = CHR ''<'' \<and> \<not> quote then inner_loop s (i + 1) (depth + 1) quote i stop
      else if c = CHR ''>'' \<and> \<not> quote then
        inner_loop s (i + 1) (depth - 1) quote start
          (if (case stop of None \<Rightarrow> True | Some j \<Rightarrow> j \<le> start) then Some (i + 1) else stop)
      else inner_loop s (i + 1) depth quote start stop)"

definition findInnerPath :: "string option \<Rightarrow> int \<times> nat \<times> nat" where
  "findInnerPath po =
     (case po of
        None \<Rightarrow> (-1, 0, 0)
      | Some path \<Rightarrow>
          let (depth, start, stop, i) = inner_loop path 0 0 False 0 None
          in (if depth \<noteq> 0 then -1 else 0, start, case stop of None \<Rightarrow> i | Some j \<Rightarrow> j))"

section \<open>Parsing\<close>

definition STRICT_ANGLE_BRACKETS :: u64 where "STRICT_ANGLE_BRACKETS = 0x0001"
definition STRICT_LOCAL_LENGTH :: u64 where "STRICT_LOCAL_LENGTH = 0x0002"
definition STRICT_DOMAIN_LENGTH :: u64 where "STRICT_DOMAIN_LENGTH = 0x0004"
definition STRICT_LITERAL_PLUS :: u64 where "STRICT_LITERAL_PLUS = 0x0008"
definition STRICT_ADDR_SPEC :: u64 where "STRICT_ADDR_SPEC = 0x0010"
definition STRICT_MIN_DOTS :: u64 where "STRICT_MIN_DOTS = 0x0020"

definition SMTP_LOCAL_PART_LENGTH :: nat where "SMTP_LOCAL_PART_LENGTH = 64"
definition SMTP_DOMAIN_LENGTH :: nat where "SMTP_DOMAIN_LENGTH = 255"

text \<open>A string with its length, a null pointer being \<open>None\<close>.\<close>

record path_string =
  chars :: "string option"
  plength :: nat

record parse_path =
  address :: path_string
  sourceRoute :: path_string
  localLeft :: path_string
  localRight :: path_string
  domain :: path_string

definition path_text :: "string \<Rightarrow> path_string" where
  "path_text s = \<lparr>chars = Some s, plength = length s\<rparr>"

definition emptyString :: path_string where
  "emptyString = path_text []"

definition nullAddress :: parse_path where
  "nullAddress = \<lparr>address = emptyString, sourceRoute = emptyString, localLeft = emptyString,
     localRight = emptyString, domain = emptyString\<rparr>"

definition path_blanks :: string where
  "path_blanks = [CHR '' '', CHR 0x09, CHR 0x0D, CHR 0x0A, CHR 0x0C]"

text \<open>An error reply, or a path.\<close>

type_synonym path_result = "string + parse_path"

text \<open>From the copies of the address on. \<open>error\<close> is the reply for \<open>dots <= 0\<close> or not.\<close>

definition by_dots :: "int \<Rightarrow> string \<Rightarrow> string" where
  "by_dots dots s = (if dots \<le> 0 then ''5.1.3 invalid '' @ s else ''5.1.7 invalid '' @ s)"

definition split_local :: "u64 \<Rightarrow> int \<Rightarrow> string \<Rightarrow> string \<Rightarrow> string \<Rightarrow> path_result" where
  "split_local flags dots addr route loc =
     (let n = spanLocalPart loc;
          hasAtSign = (char_at loc n = CHR ''@'');
          isUnqualified = (char_at loc n = NUL);
          lp = take n loc;
          left = (if flags AND STRICT_LITERAL_PLUS \<noteq> 0 then n else strcspn lp ''+'');
          hasPlusSign = (left < n);
          dom = drop (n + (if hasAtSign then 1 else 0)) loc;
          right = drop (left + (if hasPlusSign then 1 else 0)) lp;
          dlen = spanDomain (Some dom) dots
      in if flags AND STRICT_LOCAL_LENGTH \<noteq> 0 \<and> SMTP_LOCAL_PART_LENGTH < n
         then Inl ''5.1.0 local-part too long, see RFC 2821 section 4.5.3.1''
         else if \<not> hasAtSign \<and> \<not> isUnqualified then Inl (by_dots dots ''local part'')
         else if flags AND STRICT_DOMAIN_LENGTH \<noteq> 0 \<and> SMTP_DOMAIN_LENGTH < dlen
         then Inl ''5.1.0 domain name too long, see RFC 2821 section 4.5.3.1''
         else if flags AND STRICT_MIN_DOTS \<noteq> 0 \<and> 0 < dots \<and> dlen \<le> 0 then Inl ''5.1.7 address incomplete''
         else if char_at dom dlen \<noteq> NUL then Inl (by_dots dots ''domain name'')
         else Inr \<lparr>address = path_text addr,
                   sourceRoute = \<lparr>chars = TextLower (Some route) (-1), plength = length route\<rparr>,
                   localLeft = \<lparr>chars = TextLower (Some (take left lp)) (-1), plength = left\<rparr>,
                   localRight = \<lparr>chars = Some right, plength = n - (left + (if hasPlusSign then 1 else 0))\<rparr>,
                   domain = \<lparr>chars = TextLower (Some dom) (-1), plength = dlen\<rparr>\<rparr>)"

definition parse_address :: "u64 \<Rightarrow> int \<Rightarrow> string \<Rightarrow> path_result" where
  "parse_address flags dots addr =
     (let n = spanSourceRoute addr
      in if 0 < n then
           if char_at addr n \<noteq> CHR '':'' then Inl ''5.1.0 invalid source route''
           else split_local flags dots addr (take n addr) (drop (n + 1) addr)
         else split_local flags dots addr [] addr)"

text \<open>With \<open>stop\<close> before \<open>start\<close> the length is negative, and \<open>strncpy\<close> with that length as a \<open>size_t\<close> writes far
  beyond the block. \<open>strlrspn\<close> with such an offset returns 0.\<close>

definition parsePath :: "bool \<Rightarrow> string option \<Rightarrow> u64 \<Rightarrow> int \<Rightarrow> fault + path_result" where
  "parsePath calloc_ok po flags dots =
     (case po of
        None \<Rightarrow> Inr (Inl ''4.0.0 internal error, invalid arguments'')
      | Some path \<Rightarrow>
          let (rc, start, stop) = findInnerPath po
          in if rc \<noteq> 0 then Inr (Inl ''5.1.0 imbalanced angle brackets in path'')
             else if flags AND STRICT_ANGLE_BRACKETS \<noteq> 0 \<and>
                (char_at path start \<noteq> CHR ''<'' \<or> start < stop \<and> char_at path (stop - 1) \<noteq> CHR ''>'')
             then Inr (Inl ''5.1.0 address does not conform to RFC 2821 syntax'')
             else
               let stop = (if start < stop \<and> char_at path (stop - 1) = CHR ''>'' then stop - 1 else stop);
                   start = (if char_at path start = CHR ''<'' then start + 1 else start);
                   skip = (if flags AND STRICT_ADDR_SPEC = 0 then strspn (drop start path) path_blanks else 0);
                   stop = (if flags AND STRICT_ADDR_SPEC = 0
                           then start + skip + strlrspn (drop (start + skip) path) (stop - (start + skip)) path_blanks
                           else stop);
                   start = start + skip
               in if \<not> calloc_ok then Inr (Inl ''4.3.0 internal error, out of memory'')
                  else if start = stop then Inr (Inr nullAddress)
                  else if stop < start then Inl OutOfBounds
                  else Inr (parse_address flags dots (take (stop - start) (drop start path))))"

section \<open>Formatting\<close>

definition text_of :: "path_string \<Rightarrow> string" where
  "text_of ps = (case chars ps of None \<Rightarrow> [] | Some s \<Rightarrow> s)"

text \<open>\<open>i += TextCopy (buffer + i, length - i, s)\<close>.\<close>

definition copy_at :: "string \<Rightarrow> nat \<Rightarrow> string \<Rightarrow> nat \<Rightarrow> string \<times> nat" where
  "copy_at s room buf i =
     (let (b, n) = TextCopy (drop i buf) (room - i) s in (take i buf @ b, i + n))"

text \<open>The directive \<open>d\<close> of \<open>formatPath\<close>, with \<open>i < room\<close>; and the loop, in which \<open>fmt++\<close> after a percent sign at
  the end leaves the string.\<close>

definition format_one :: "parse_path \<Rightarrow> char \<Rightarrow> nat \<Rightarrow> string \<Rightarrow> nat \<Rightarrow> fault + string \<times> nat" where
  "format_one p d room buf i =
     (if d = CHR ''%'' then andthen (store buf i d) (\<lambda>buf. Inr (buf, i + 1))
      else if d = CHR ''A'' then Inr (copy_at (text_of (address p)) room buf i)
      else if d = CHR ''D'' then Inr (copy_at (text_of (domain p)) room buf i)
      else if d = CHR ''L'' \<or> d = CHR ''P'' then
        (let (buf, i) = copy_at (text_of (localLeft p)) room buf i
         in if d = CHR ''P'' \<and> i + 1 < room \<and> text_of (localRight p) \<noteq> []
            then andthen (store buf i (CHR ''+'')) (\<lambda>buf. Inr (copy_at (text_of (localRight p)) room buf (i + 1)))
            else Inr (buf, i))
      else if d = CHR ''R'' then Inr (copy_at (text_of (localRight p)) room buf i)
      else if d = CHR ''S'' \<or> d = CHR ''T'' then
        (let (buf, i) = copy_at (text_of (sourceRoute p)) room buf i
         in if d = CHR ''T'' \<and> i + 1 < room \<and> text_of (sourceRoute p) \<noteq> []
            then andthen (store buf i (CHR '':'')) (\<lambda>buf. Inr (buf, i + 1))
            else Inr (buf, i))
      else Inr (buf, i))"

fun format_loop :: "parse_path \<Rightarrow> nat \<Rightarrow> string \<Rightarrow> string \<Rightarrow> nat \<Rightarrow> fault + string \<times> nat" where
  "format_loop p room [] buf i = Inr (buf, i)"
| "format_loop p room (c # fmt) buf i =
     (if \<not> i < room then Inr (buf, i)
      else if c \<noteq> CHR ''%'' then andthen (store buf i c) (\<lambda>buf. format_loop p room fmt buf (i + 1))
      else (case fmt of
              [] \<Rightarrow> Inl OutOfBounds
            | d # fmt' \<Rightarrow> andthen (format_one p d room buf i) (\<lambda>(buf, i). format_loop p room fmt' buf i)))"

definition formatPath :: "string option \<Rightarrow> int \<Rightarrow> string option \<Rightarrow> parse_path option \<Rightarrow> fault + string option \<times> int" where
  "formatPath bo room fo po =
     (case (bo, fo, po) of
        (Some buf, Some fmt, Some p) \<Rightarrow>
          if room \<le> 0 then Inr (bo, -1)
          else andthen (format_loop p (nat room) fmt buf 0) (\<lambda>(buf, i).
               andthen (store buf (if nat room \<le> i then i - 1 else i) NUL) (\<lambda>buf. Inr (Some buf, int i)))
      | _ \<Rightarrow> Inr (bo, -1))"

text \<open>\<open>formatPathLength\<close> has no test for null strings.\<close>

definition not_empty :: "path_string \<Rightarrow> fault + bool" where
  "not_empty ps = (case chars ps of None \<Rightarrow> Inl OutOfBounds | Some s \<Rightarrow> Inr (s \<noteq> []))"

definition format_length_one :: "parse_path \<Rightarrow> char \<Rightarrow> fault + nat" where
  "format_length_one p d =
     (if d = CHR ''%'' then Inr 1
      else if d = CHR ''A'' then Inr (plength (address p))
      else if d = CHR ''D'' then Inr (plength (domain p))
      else if d = CHR ''L'' then Inr (plength (localLeft p))
      else if d = CHR ''P'' then
        andthen (not_empty (localRight p)) (\<lambda>r.
        Inr (plength (localLeft p) + (if r then 1 + plength (localRight p) else 0)))
      else if d = CHR ''R'' then Inr (plength (localRight p))
      else if d = CHR ''S'' \<or> d = CHR ''T'' then
        andthen (not_empty (sourceRoute p)) (\<lambda>r.
        Inr (if r then plength (sourceRoute p) + (if d = CHR ''T'' then 1 else 0) else 0))
      else Inr 0)"

fun format_length_loop :: "parse_path \<Rightarrow> string \<Rightarrow> nat \<Rightarrow> fault + nat" where
  "format_length_loop p [] n = Inr n"
| "format_length_loop p (c # fmt) n =
     (if c \<noteq> CHR ''%'' then format_length_loop p fmt (n + 1)
      else (case fmt of
              [] \<Rightarrow> Inl OutOfBounds
            | d # fmt' \<Rightarrow> andthen (format_length_one p d) (\<lambda>k. format_length_loop p fmt' (n + k))))"

definition formatPathLength :: "string option \<Rightarrow> parse_path option \<Rightarrow> fault + nat" where
  "formatPathLength fo po =
     (case (fo, po) of (Some fmt, Some p) \<Rightarrow> format_length_loop p fmt 0 | _ \<Rightarrow> Inr 0)"

definition allocatePath :: "bool \<Rightarrow> string option \<Rightarrow> parse_path option \<Rightarrow> fault + string option" where
  "allocatePath malloc_ok fo po =
     (if fo = None \<or> po = None then Inr None
      else andthen (formatPathLength fo po) (\<lambda>n.
        if \<not> malloc_ok then Inr None
        else andthen (formatPath (Some (replicate (n + 1) NUL)) (int n + 1) fo po) (\<lambda>(buf, nbytes).
             Inr (if nbytes \<noteq> int n then None else buf))))"

section \<open>The inner path\<close>

definition plain_char :: "char \<Rightarrow> bool" where
  "plain_char c \<longleftrightarrow> c \<noteq> CHR 0x22 \<and> c \<noteq> CHR 0x5C \<and> c \<noteq> CHR ''<'' \<and> c \<noteq> CHR ''>''"

lemma inner_loop_plain:
  "list_all plain_char s \<Longrightarrow>
    inner_loop (s @ t) i depth quote start stop = inner_loop t (i + length s) depth quote start stop"
  by (induction s arbitrary: i) (auto simp: plain_char_def)

lemma inner_loop_open:
  "list_all (\<lambda>c. plain_char c \<or> c = CHR ''<'') s \<Longrightarrow>
    \<exists>start'. inner_loop (s @ t) i depth False start None =
      inner_loop t (i + length s) (depth + int (count_list s (CHR ''<''))) False start' None"
proof (induction s arbitrary: i depth start)
  case (Cons c s)
  show ?case
  proof (cases "c = CHR ''<''")
    case True
    then show ?thesis using Cons.IH [of "i + 1" "depth + 1" i] Cons.prems by (auto simp: plain_char_def algebra_simps)
  next
    case False
    then show ?thesis using Cons.IH [of "i + 1" depth start] Cons.prems by (auto simp: plain_char_def)
  qed
qed auto

lemma inner_loop_close:
  "list_all (\<lambda>c. plain_char c \<or> c = CHR ''>'') s \<Longrightarrow> start < j \<Longrightarrow>
    inner_loop s i depth False start (Some j) =
      (depth - int (count_list s (CHR ''>'')), start, Some j, i + length s)"
  by (induction s arbitrary: i depth) (auto simp: plain_char_def)

text \<open>In a text without quotes and backslashes the innermost path is the one between the last \<open><\<close> before the first
  \<open>>\<close> and that \<open>>\<close>; the result is 0 exactly when there are as many \<open>>\<close> behind it as \<open><\<close> before it.\<close>

lemma findInnerPath_inner:
  assumes "list_all (\<lambda>c. plain_char c \<or> c = CHR ''<'') pre" "list_all plain_char a"
    "list_all (\<lambda>c. plain_char c \<or> c = CHR ''>'') post"
  shows "findInnerPath (Some (pre @ ''<'' @ a @ ''>'' @ post)) =
    (if count_list pre (CHR ''<'') = count_list post (CHR ''>'') then 0 else -1, length pre, length pre + length a + 2)"
proof -
  obtain start where "inner_loop (pre @ ''<'' @ a @ ''>'' @ post) 0 0 False 0 None =
      inner_loop (''<'' @ a @ ''>'' @ post) (length pre) (int (count_list pre (CHR ''<''))) False start None"
    using inner_loop_open [OF assms(1), of "''<'' @ a @ ''>'' @ post" 0 0 0] by auto
  then show ?thesis
    using inner_loop_plain [OF assms(2), of "''>'' @ post" "length pre + 1" _ False "length pre" None] inner_loop_close [OF assms(3)]
    by (auto simp: findInnerPath_def)
qed

section \<open>The parts\<close>

lemma text_map_n_all: "int (length s) \<le> n \<Longrightarrow> text_map_n f s n = map f s"
  by (induction f s n rule: text_map_n.induct) auto

lemma TextLower_all: "int (length s) \<le> LONG_MAX \<Longrightarrow> TextLower (Some s) (-1) = Some (map tolower s)"
  by (simp add: TextLower_def text_length_arg_def text_map_n_all)

definition consistent :: "parse_path \<Rightarrow> bool" where
  "consistent p \<longleftrightarrow> (\<forall>part \<in> set [address p, sourceRoute p, localLeft p, localRight p, domain p].
     \<exists>s. part = path_text s)"

lemma char_at_NUL: "char_at s n = NUL \<Longrightarrow> n \<le> length s \<Longrightarrow> NUL \<notin> set s \<Longrightarrow> n = length s"
  using nth_mem [of n s] by (cases "n < length s") (auto simp: char_at_def)

lemma char_at_split: "char_at s n = c \<Longrightarrow> c \<noteq> NUL \<Longrightarrow> s = take n s @ [c] @ drop (Suc n) s"
  by (cases "n < length s") (auto simp: char_at_def id_take_nth_drop)

lemma strcspn_plus_split:
  "strcspn s ''+'' < length s \<Longrightarrow> s = take (strcspn s ''+'') s @ ''+'' @ drop (Suc (strcspn s ''+'')) s"
  by (induction s) (auto simp: strcspn_def)

lemma split_local_parts:
  assumes "split_local flags dots addr route loc = Inr p" "NUL \<notin> set loc" "int (length loc) \<le> LONG_MAX" "int (length route) \<le> LONG_MAX"
  shows "consistent p \<and> text_of (address p) = addr \<and> text_of (sourceRoute p) = map tolower route \<and>
    (\<exists>sep \<in> {'''', ''+''}. \<exists>at \<in> {'''', ''@''}.
      map tolower loc = text_of (localLeft p) @ sep @ map tolower (text_of (localRight p)) @ at @ text_of (domain p))"
proof -
  define n where "n = spanLocalPart loc"
  define lp where "lp = take n loc"
  define left where "left = (if flags AND STRICT_LITERAL_PLUS \<noteq> 0 then n else strcspn lp ''+'')"
  define dom where "dom = drop (n + (if char_at loc n = CHR ''@'' then 1 else 0)) loc"
  define right where "right = drop (left + (if left < n then 1 else 0)) lp"
  have n: "n \<le> length loc" "length lp = n" using spanLocalPart_le [of loc] by (simp_all add: n_def lp_def)
  have left: "left \<le> n" using strcspn_le [of lp "''+''"] n by (simp add: left_def)
  have dl: "spanDomain (Some dom) dots \<le> length dom" by (rule spanDomain_le)
  have r: "char_at loc n = CHR ''@'' \<or> char_at loc n = NUL" "char_at dom (spanDomain (Some dom) dots) = NUL"
    "p = \<lparr>address = path_text addr, sourceRoute = \<lparr>chars = TextLower (Some route) (-1), plength = length route\<rparr>,
          localLeft = \<lparr>chars = TextLower (Some (take left lp)) (-1), plength = left\<rparr>,
          localRight = \<lparr>chars = Some right, plength = n - (left + (if left < n then 1 else 0))\<rparr>,
          domain = \<lparr>chars = TextLower (Some dom) (-1), plength = spanDomain (Some dom) dots\<rparr>\<rparr>"
    using assms(1) unfolding split_local_def Let_def n_def [symmetric] lp_def [symmetric] left_def [symmetric] dom_def [symmetric]
    by (auto simp: right_def split: if_splits)
  have "NUL \<notin> set dom" using assms(2) by (auto simp: dom_def dest: in_set_dropD)
  then have "spanDomain (Some dom) dots = length dom" using char_at_NUL [OF r(2) dl] by simp
  moreover have "length right = n - (left + (if left < n then 1 else 0))" using n by (simp add: right_def)
  moreover have low: "TextLower (Some dom) (-1) = Some (map tolower dom)" "TextLower (Some route) (-1) = Some (map tolower route)"
      "TextLower (Some (take left lp)) (-1) = Some (map tolower (take left lp))"
    using assms(3,4) n by (simp_all add: TextLower_all dom_def)
  ultimately have p: "p = \<lparr>address = path_text addr, sourceRoute = path_text (map tolower route),
      localLeft = path_text (map tolower (take left lp)), localRight = path_text right, domain = path_text (map tolower dom)\<rparr>"
    using r(3) left n by (simp add: path_text_def)
  have "\<exists>sep \<in> {'''', ''+''}. lp = take left lp @ sep @ right"
  proof (cases "left < n")
    case True
    then have "left = strcspn lp ''+''" by (auto simp: left_def split: if_splits)
    then show ?thesis using strcspn_plus_split [of lp] True n by (simp add: right_def)
  qed (use left n in \<open>auto simp: right_def\<close>)
  then obtain sep where sep: "sep \<in> {'''', ''+''}" "lp = take left lp @ sep @ right" by blast
  have "\<exists>at \<in> {'''', ''@''}. loc = lp @ at @ dom"
    using r(1) char_at_split [of loc n "CHR ''@''"] by (auto simp: lp_def dom_def)
  then obtain at where at: "at \<in> {'''', ''@''}" "loc = lp @ at @ dom" by blast
  have "map tolower sep = sep" "map tolower at = at" using sep(1) at(1) by (auto simp: tolower_def ctype_defs ord_def)
  then have "map tolower loc = map tolower (take left lp) @ sep @ map tolower right @ at @ map tolower dom"
    by (subst at(2), subst sep(2)) simp
  then show ?thesis using sep(1) at(1) unfolding p by (auto simp: consistent_def text_of_def path_text_def)
qed

lemma parse_address_parts:
  assumes "parse_address flags dots addr = Inr p" "NUL \<notin> set addr" "int (length addr) \<le> LONG_MAX"
  shows "consistent p \<and> text_of (address p) = addr \<and>
    (\<exists>colon \<in> {'''', '':''}. \<exists>sep \<in> {'''', ''+''}. \<exists>at \<in> {'''', ''@''}.
      map tolower addr = text_of (sourceRoute p) @ colon @ text_of (localLeft p) @ sep @ map tolower (text_of (localRight p)) @
        at @ text_of (domain p))"
proof (cases "spanSourceRoute addr = 0")
  case True
  then have "split_local flags dots addr [] addr = Inr p" using assms(1) by (simp add: parse_address_def Let_def)
  from split_local_parts [OF this assms(2,3)] show ?thesis by (auto simp: LONG_MAX_def)
next
  case False
  define n where "n = spanSourceRoute addr"
  have n: "char_at addr n = CHR '':''" "split_local flags dots addr (take n addr) (drop (n + 1) addr) = Inr p" "n \<le> length addr"
    using assms(1) False spanSourceRoute_le [of addr] by (simp_all add: parse_address_def Let_def n_def split: if_splits)
  have "NUL \<notin> set (drop (n + 1) addr)" using assms(2) by (auto dest: in_set_dropD)
  note parts = split_local_parts [OF n(2) this]
  have "addr = take n addr @ '':'' @ drop (n + 1) addr" using char_at_split [OF n(1)] by simp
  then have "map tolower addr = map tolower (take n addr) @ map tolower '':'' @ map tolower (drop (n + 1) addr)"
    by (metis map_append)
  moreover have "map tolower '':'' = '':''" by (simp add: tolower_def ctype_defs ord_def)
  ultimately show ?thesis using parts assms(3) by (fastforce simp del: append.simps)
qed

section \<open>Formatting\<close>

text \<open>What a directive stands for, and a whole format.\<close>

definition expand_one :: "parse_path \<Rightarrow> char \<Rightarrow> string" where
  "expand_one p d =
     (if d = CHR ''%'' then ''%''
      else if d = CHR ''A'' then text_of (address p)
      else if d = CHR ''D'' then text_of (domain p)
      else if d = CHR ''L'' then text_of (localLeft p)
      else if d = CHR ''P'' then
        text_of (localLeft p) @ (if text_of (localRight p) = [] then [] else ''+'' @ text_of (localRight p))
      else if d = CHR ''R'' then text_of (localRight p)
      else if d = CHR ''S'' then text_of (sourceRoute p)
      else if d = CHR ''T'' then text_of (sourceRoute p) @ (if text_of (sourceRoute p) = [] then [] else '':'')
      else [])"

fun expand :: "parse_path \<Rightarrow> string \<Rightarrow> string" where
  "expand p [] = []"
| "expand p (c # fmt) =
     (if c \<noteq> CHR ''%'' then c # expand p fmt
      else (case fmt of [] \<Rightarrow> [] | d # fmt' \<Rightarrow> expand_one p d @ expand p fmt'))"

fun format_ok :: "string \<Rightarrow> bool" where
  "format_ok [] = True"
| "format_ok (c # fmt) = (if c \<noteq> CHR ''%'' then format_ok fmt else (case fmt of [] \<Rightarrow> False | d # fmt' \<Rightarrow> format_ok fmt'))"

definition null_free :: "parse_path \<Rightarrow> bool" where
  "null_free p \<longleftrightarrow> (\<forall>part \<in> set [address p, sourceRoute p, localLeft p, localRight p, domain p]. NUL \<notin> set (text_of part))"

text \<open>Appending to what has been written: \<open>out\<close>, and behind it the rest of the buffer. \<open>appends x b out rest s\<close>:
  the result \<open>x\<close> has \<open>s\<close> appended and a buffer of the same length.\<close>

definition appends :: "string \<Rightarrow> string \<Rightarrow> string \<Rightarrow> string \<times> nat \<Rightarrow> bool" where
  "appends out rest s x \<longleftrightarrow> (\<exists>rest'. x = (out @ s @ rest', length out + length s) \<and> length s + length rest' = length rest)"

lemma copy_at_appends:
  assumes "NUL \<notin> set s" "length out + length s < room" "room \<le> length out + length rest"
  shows "appends out rest s (copy_at s room (out @ rest) (length out))"
proof -
  have "length s < room - length out" "room - length out \<le> length rest" using assms by auto
  then show ?thesis using assms(1) by (simp add: copy_at_def TextCopy_def textcopy_loop_eq Let_def appends_def)
qed

lemma store_appends:
  assumes "rest \<noteq> []"
  shows "\<exists>buf. store (out @ rest) (length out) c = Inr buf \<and> appends out rest [c] (buf, length out + 1)"
  using assms by (cases rest) (auto simp: store_append appends_def)

text \<open>A part, and a part with a separator and, perhaps, another part behind it.\<close>

lemma copy_copy_appends:
  assumes "NUL \<notin> set s" "NUL \<notin> set t" "length out + length s + 1 + length t < room" "room \<le> length out + length rest"
    "copy_at s room (out @ rest) (length out) = (buf, i)"
  shows "\<exists>buf'. i + 1 < room \<and> store buf i c = Inr buf' \<and> appends out rest (s @ [c]) (buf', i + 1) \<and>
    appends out rest (s @ [c] @ t) (copy_at t room buf' (i + 1))"
proof -
  have "appends out rest s (buf, i)" using copy_at_appends [OF assms(1) _ assms(4)] assms(3,5) by simp
  then obtain r1 where r1: "buf = (out @ s) @ r1" "i = length (out @ s)" "length s + length r1 = length rest"
    by (auto simp: appends_def)
  have "r1 \<noteq> []" using r1(3) assms(3,4) by auto
  from store_appends [OF this, of "out @ s" c] obtain r2 where
    r2: "store buf i c = Inr ((out @ s @ [c]) @ r2)" "1 + length r2 = length r1"
    using r1 by (auto simp: appends_def)
  have "appends (out @ s @ [c]) r2 t (copy_at t room ((out @ s @ [c]) @ r2) (length (out @ s @ [c])))"
    by (rule copy_at_appends) (use assms(2,3,4) r1(3) r2(2) in auto)
  then show ?thesis using r1 r2 assms(3) by (auto simp: appends_def)
qed

lemma appends_nothing [simp]: "appends out rest [] (out @ rest, length out)"
  by (simp add: appends_def)

lemma null_freeD:
  "null_free p \<Longrightarrow> NUL \<notin> set (text_of (address p)) \<and> NUL \<notin> set (text_of (sourceRoute p)) \<and> NUL \<notin> set (text_of (localLeft p)) \<and>
    NUL \<notin> set (text_of (localRight p)) \<and> NUL \<notin> set (text_of (domain p))"
  by (simp add: null_free_def)

lemma format_one_appends:
  assumes "null_free p" "length out + length (expand_one p d) < room" "room \<le> length out + length rest"
  shows "runs (appends out rest (expand_one p d)) (format_one p d room (out @ rest) (length out))"
proof -
  note nul = null_freeD [OF assms(1)]
  have rest: "rest \<noteq> []" using assms(2,3) by auto
  consider "d = CHR ''%''" | "d = CHR ''P''" "text_of (localRight p) \<noteq> []" | "d = CHR ''T''" "text_of (sourceRoute p) \<noteq> []"
    | "d \<noteq> CHR ''%''" "d = CHR ''P'' \<longrightarrow> text_of (localRight p) = []" "d = CHR ''T'' \<longrightarrow> text_of (sourceRoute p) = []" by blast
  then show ?thesis
  proof cases
    case 1
    then show ?thesis using store_appends [OF rest, of out d] by (auto simp: format_one_def expand_one_def)
  next
    case 2
    obtain buf i where c: "copy_at (text_of (localLeft p)) room (out @ rest) (length out) = (buf, i)" by fastforce
    show ?thesis using copy_copy_appends [OF _ _ _ assms(3) c, of "text_of (localRight p)" "CHR ''+''"] nul assms(2) 2
      by (auto simp: format_one_def expand_one_def c)
  next
    case 3
    obtain buf i where c: "copy_at (text_of (sourceRoute p)) room (out @ rest) (length out) = (buf, i)" by fastforce
    show ?thesis using copy_copy_appends [OF _ _ _ assms(3) c, of "[]" "CHR '':''"] nul assms(2) 3
      by (auto simp: format_one_def expand_one_def c)
  next
    case 4
    have "format_one p d room (out @ rest) (length out) = Inr (if d \<in> set ''ADLPRST''
        then copy_at (expand_one p d) room (out @ rest) (length out) else (out @ rest, length out))"
      using 4 by (simp add: format_one_def expand_one_def case_prod_unfold)
    moreover have "NUL \<notin> set (expand_one p d)" using 4(1) nul by (simp add: expand_one_def)
    moreover have "expand_one p d = []" if "d \<notin> set ''ADLPRST''" using that 4(1) by (simp add: expand_one_def)
    ultimately show ?thesis using copy_at_appends [OF _ assms(2,3)] by auto
  qed
qed

lemma format_loop_appends:
  assumes "null_free p" "format_ok fmt" "length out + length (expand p fmt) < room" "room \<le> length out + length rest"
  shows "runs (appends out rest (expand p fmt)) (format_loop p room fmt (out @ rest) (length out))"
  using assms
proof (induction p fmt arbitrary: out rest rule: expand.induct)
  case (2 p c fmt)
  have rest: "rest \<noteq> []" using "2.prems"(3,4) by auto
  show ?case
  proof (cases "c = CHR ''%''")
    case False
    obtain r where r: "store (out @ rest) (length out) c = Inr ((out @ [c]) @ r)" "1 + length r = length rest"
      using store_appends [OF rest, of out c] by (auto simp: appends_def)
    have "runs (appends (out @ [c]) r (expand p fmt)) (format_loop p room fmt ((out @ [c]) @ r) (length (out @ [c])))"
      by (rule "2.IH"(1)) (use False "2.prems" r in auto)
    then show ?thesis using False r "2.prems"(3) by (auto simp: appends_def runs_iff)
  next
    case True
    then obtain d fmt' where f: "fmt = d # fmt'" using "2.prems"(2) by (cases fmt) auto
    have "length out + length (expand_one p d) < room" using "2.prems"(3) True f by simp
    from format_one_appends [OF "2.prems"(1) this "2.prems"(4)] obtain r where
      r: "format_one p d room (out @ rest) (length out) = Inr ((out @ expand_one p d) @ r, length (out @ expand_one p d))"
         "length (expand_one p d) + length r = length rest"
      by (auto simp: runs_iff appends_def)
    have "runs (appends (out @ expand_one p d) r (expand p fmt')) (format_loop p room fmt' ((out @ expand_one p d) @ r) (length (out @ expand_one p d)))"
      by (rule "2.IH"(2)) (use True f "2.prems" r in auto)
    then show ?thesis using True f r "2.prems"(3) by (auto simp: appends_def runs_iff)
  qed
qed simp

lemma format_length_loop_expands:
  assumes "consistent p" "format_ok fmt"
  shows "format_length_loop p fmt n = Inr (n + length (expand p fmt))"
proof -
  have part: "plength (address p) = length (text_of (address p))" "plength (sourceRoute p) = length (text_of (sourceRoute p))"
      "plength (localLeft p) = length (text_of (localLeft p))" "plength (localRight p) = length (text_of (localRight p))"
      "plength (domain p) = length (text_of (domain p))"
    using assms(1) by (auto simp: consistent_def path_text_def text_of_def)
  moreover have "not_empty (localRight p) = Inr (text_of (localRight p) \<noteq> [])"
      "not_empty (sourceRoute p) = Inr (text_of (sourceRoute p) \<noteq> [])"
    using assms(1) by (auto simp: consistent_def path_text_def text_of_def not_empty_def)
  ultimately have one: "format_length_one p d = Inr (length (expand_one p d))" for d
    by (simp add: format_length_one_def expand_one_def)
  show ?thesis using assms(2)
    by (induction fmt arbitrary: n rule: format_ok.induct) (auto simp: one split: list.splits if_splits)
qed

section \<open>Properties\<close>

text \<open>C14: The parts of a parsed path make up the address: when \<open>parsePath\<close> accepts a path, the address it reports is a
  part of the path without the brackets, and is, up to the case of letters, the source route, the local part to the left
  and to the right of the plus sign and the domain, with the separators between them; and every reported length is the
  length of its string.\<close>

theorem parsePath_parts:
  assumes "parsePath calloc_ok (Some path) flags dots = Inr (Inr p)" "NUL \<notin> set path" "int (length path) \<le> LONG_MAX"
  shows "consistent p \<and> sublist (text_of (address p)) path \<and>
    (\<exists>colon \<in> {'''', '':''}. \<exists>sep \<in> {'''', ''+''}. \<exists>at \<in> {'''', ''@''}.
      map tolower (text_of (address p)) = text_of (sourceRoute p) @ colon @ text_of (localLeft p) @ sep @
        map tolower (text_of (localRight p)) @ at @ text_of (domain p))"
proof -
  have "p = nullAddress \<or> (\<exists>i j. parse_address flags dots (take i (drop j path)) = Inr p)"
    using assms(1) by (auto simp: parsePath_def Let_def split: prod.splits if_splits)
  then consider "p = nullAddress" | i j where "parse_address flags dots (take i (drop j path)) = Inr p" by blast
  then show ?thesis
  proof cases
    case 1
    then show ?thesis by (auto simp: nullAddress_def emptyString_def consistent_def path_text_def text_of_def)
  next
    case 2
    have "NUL \<notin> set (take i (drop j path))" using assms(2) by (auto dest!: in_set_takeD in_set_dropD)
    moreover have "int (length (take i (drop j path))) \<le> LONG_MAX" using assms(3) by auto
    moreover have "sublist (take i (drop j path)) path" by (meson sublist_take sublist_drop sublist_order.order_trans)
    ultimately show ?thesis using parse_address_parts [OF 2] by auto
  qed
qed

theorem parsePath_parts_witness:
  "\<exists>p. parsePath True (Some ''<@A.b:Foo+Bar@C.org>'') 0 1 = Inr (Inr p) \<and> text_of (address p) = ''@A.b:Foo+Bar@C.org'' \<and>
    consistent p"
proof -
  obtain p where p: "parsePath True (Some ''<@A.b:Foo+Bar@C.org>'') 0 1 = Inr (Inr p)" "text_of (address p) = ''@A.b:Foo+Bar@C.org''"
  proof
    show "parsePath True (Some ''<@A.b:Foo+Bar@C.org>'') 0 1 = Inr (Inr
      \<lparr>address = path_text ''@A.b:Foo+Bar@C.org'', sourceRoute = path_text ''@a.b'', localLeft = path_text ''foo'',
       localRight = path_text ''Bar'', domain = path_text ''c.org''\<rparr>)" by code_simp
    show "text_of (address \<lparr>address = path_text ''@A.b:Foo+Bar@C.org'', sourceRoute = path_text ''@a.b'', localLeft = path_text ''foo'',
       localRight = path_text ''Bar'', domain = path_text ''c.org''\<rparr>) = ''@A.b:Foo+Bar@C.org''"
      by (simp add: text_of_def path_text_def)
  qed
  from parsePath_parts [OF p(1)] p show ?thesis by (auto simp: LONG_MAX_def)
qed

text \<open>C15: \<open>formatPath\<close> writes what the format stands for: for a format that does not end in a lone percent sign,
  and a path whose lengths are right, \<open>formatPathLength\<close> is the length of the expansion, \<open>allocatePath\<close> returns it, and
  \<open>formatPath\<close> leaves it with its null in every buffer that is larger, and returns its length.\<close>

theorem formatPath_expands:
  assumes "consistent p" "null_free p" "format_ok fmt" "length (expand p fmt) < room" "room \<le> length buf"
  shows "(\<exists>rest. formatPath (Some buf) (int room) (Some fmt) (Some p) = Inr (Some (expand p fmt @ NUL # rest), int (length (expand p fmt)))) \<and>
    formatPathLength (Some fmt) (Some p) = Inr (length (expand p fmt)) \<and>
    allocatePath True (Some fmt) (Some p) = Inr (Some (expand p fmt @ [NUL]))"
proof -
  have fp: "\<exists>rest. formatPath (Some b) (int n) (Some fmt) (Some p) = Inr (Some (expand p fmt @ NUL # rest), int (length (expand p fmt))) \<and>
      length (expand p fmt) + 1 + length rest = length b"
    if n: "length (expand p fmt) < n" "n \<le> length b" for n b
  proof -
    obtain r where r: "format_loop p n fmt b 0 = Inr (expand p fmt @ r, length (expand p fmt))" "length (expand p fmt) + length r = length b"
      using format_loop_appends [OF assms(2,3), of "[]" n b] n by (auto simp: runs_iff appends_def)
    obtain c r' where "r = c # r'" using r(2) n by (cases r) auto
    then show ?thesis using r n by (auto simp: formatPath_def list_update_append)
  qed
  have len: "formatPathLength (Some fmt) (Some p) = Inr (length (expand p fmt))"
    using format_length_loop_expands [OF assms(1,3), of 0] by (simp add: formatPathLength_def)
  obtain rest where "formatPath (Some (replicate (length (expand p fmt) + 1) NUL)) (int (length (expand p fmt) + 1)) (Some fmt) (Some p) =
      Inr (Some (expand p fmt @ NUL # rest), int (length (expand p fmt)))" "rest = []"
    using fp [of "length (expand p fmt) + 1" "replicate (length (expand p fmt) + 1) NUL"] by auto
  then have "allocatePath True (Some fmt) (Some p) = Inr (Some (expand p fmt @ [NUL]))"
    by (simp add: allocatePath_def len add.commute)
  then show ?thesis using fp [OF assms(4,5)] len by blast
qed

definition demo_path :: parse_path where
  "demo_path = \<lparr>address = path_text ''Foo+Bar@C.org'', sourceRoute = path_text [], localLeft = path_text ''foo'',
     localRight = path_text ''Bar'', domain = path_text ''c.org''\<rparr>"

theorem formatPath_expands_witness:
  "allocatePath True (Some ''%P@bulk.%D'') (Some demo_path) = Inr (Some (''foo+Bar@bulk.c.org'' @ [NUL]))"
proof -
  have e: "expand demo_path ''%P@bulk.%D'' = ''foo+Bar@bulk.c.org''" by code_simp
  show ?thesis
    using formatPath_expands [of demo_path "''%P@bulk.%D''" 40 "replicate 40 NUL", unfolded e]
    by (simp add: demo_path_def consistent_def null_free_def path_text_def text_of_def)
qed

section \<open>Mailboxes\<close>

text \<open>Local parts that are plain atoms with dots.\<close>

definition atom_char :: "char \<Rightarrow> bool" where
  "atom_char c \<longleftrightarrow> isalnum c \<or> c \<in> set atext_extra"

lemma atom_char_plain: "atom_char c \<Longrightarrow> plain_char c \<and> c \<noteq> CHR ''@'' \<and> c \<noteq> NUL \<and> c \<notin> set path_blanks"
  by (auto simp: atom_char_def plain_char_def atext_extra_def path_blanks_def ctype_defs ord_def)

lemma spanLocalPart_atom:
  assumes "list_all atom_char l" "l \<noteq> []"
  shows "spanLocalPart (l @ CHR ''@'' # rest) = length l"
proof -
  have "dot_string_loop (l @ CHR ''@'' # rest) = CHR ''@'' # rest"
    using assms(1)
  proof (induction l)
    case Nil
    show ?case by (simp add: ctype_defs ord_def atext_extra_def)
  next
    case (Cons c l)
    then have "isalnum c \<or> c \<in> set atext_extra" "c \<noteq> CHR 0x5C" using atom_char_plain [of c] by (auto simp: atom_char_def plain_char_def)
    with Cons show ?case by auto
  qed
  moreover have "deref l \<noteq> CHR 0x22" using assms by (cases l) (auto simp: atom_char_def atext_extra_def ctype_defs ord_def)
  ultimately show ?thesis using assms(2) by (simp add: spanLocalPart_def)
qed

lemma domain_char_plain: "domain_char c \<Longrightarrow> plain_char c \<and> c \<noteq> NUL \<and> c \<notin> set path_blanks"
  by (auto simp: domain_char_def plain_char_def path_blanks_def ctype_defs ord_def)

lemma strlrspn_last: "n \<noteq> 0 \<Longrightarrow> s ! (n - 1) \<notin> set ds \<Longrightarrow> strlrspn s n ds = n"
  by (cases n) auto

lemma strspn_none: "deref s \<notin> set ds \<Longrightarrow> strspn s ds = 0"
  by (cases s) (auto simp: strspn_def)

definition left_part :: "u64 \<Rightarrow> string \<Rightarrow> string" where
  "left_part flags l = (if flags AND STRICT_LITERAL_PLUS \<noteq> 0 then l else takeWhile (\<lambda>c. c \<noteq> CHR ''+'') l)"

definition right_part :: "u64 \<Rightarrow> string \<Rightarrow> string" where
  "right_part flags l = (if flags AND STRICT_LITERAL_PLUS \<noteq> 0 then [] else tl (dropWhile (\<lambda>c. c \<noteq> CHR ''+'') l))"

lemma strcspn_plus: "strcspn l ''+'' = length (takeWhile (\<lambda>c. c \<noteq> CHR ''+'') l)"
  by (simp add: strcspn_def)

lemma parse_address_mailbox:
  assumes "list_all atom_char l" "l \<noteq> []" "d \<noteq> []" "spanDomain (Some d) dots = length d"
    "length l \<le> 64" "length d \<le> 255"
  shows "parse_address flags dots (l @ CHR ''@'' # d) = Inr \<lparr>address = path_text (l @ CHR ''@'' # d), sourceRoute = emptyString,
    localLeft = path_text (map tolower (left_part flags l)), localRight = path_text (right_part flags l),
    domain = path_text (map tolower d)\<rparr>"
proof -
  let ?a = "l @ CHR ''@'' # d"
  have "deref l \<noteq> CHR ''@''" using assms(1,2) atom_char_plain by (cases l) auto
  then have route: "spanSourceRoute ?a = 0" using assms(2) by (subst spanSourceRoute_def, subst spanSourceRoute_loop.simps) simp
  have span: "spanLocalPart ?a = length l" using spanLocalPart_atom [OF assms(1,2), of d] by simp
  have low: "TextLower (Some []) (-1) = Some []" "TextLower (Some d) (-1) = Some (map tolower d)"
      "TextLower (Some (takeWhile P l)) (-1) = Some (map tolower (takeWhile P l))" "TextLower (Some l) (-1) = Some (map tolower l)" for P
    using assms(5,6) length_takeWhile_le [of P l] by (simp_all add: TextLower_all LONG_MAX_def)
  have take: "take (length (takeWhile P l)) l = takeWhile P l" "drop (length (takeWhile P l)) l = dropWhile P l" for P
    by (metis append_eq_conv_conj takeWhile_dropWhile_id)+
  have tl: "drop (Suc (length (takeWhile P l))) l = tl (dropWhile P l)" for P
    by (metis take(2) drop_Suc tl_drop drop_drop)
  have whole: "length (takeWhile P l) < length l \<or> dropWhile P l = [] \<and> length (takeWhile P l) = length l" for P
    by (metis append_Nil2 le_neq_implies_less length_takeWhile_le takeWhile_dropWhile_id append_eq_conv_conj take(2) drop_all order_refl)
  define left where "left = (if flags AND STRICT_LITERAL_PLUS \<noteq> 0 then length l else strcspn l ''+'')"
  let ?plus = "if left < length l then 1 else 0"
  have "char_at ?a (length l) = CHR ''@''" "take (length l) ?a = l" "drop (Suc (length l)) ?a = d" "char_at d (length d) = NUL"
    by (simp_all add: char_at_def)
  then have "parse_address flags dots ?a = Inr \<lparr>address = path_text ?a, sourceRoute = emptyString,
      localLeft = \<lparr>chars = TextLower (Some (take left l)) (-1), plength = left\<rparr>,
      localRight = \<lparr>chars = Some (drop (left + ?plus) l), plength = length l - (left + ?plus)\<rparr>,
      domain = path_text (map tolower d)\<rparr>"
    using assms(3,5,6)
    by (simp add: Let_def parse_address_def route split_local_def span assms(4) SMTP_LOCAL_PART_LENGTH_def SMTP_DOMAIN_LENGTH_def
        left_def low emptyString_def path_text_def)
  moreover have "take left l = left_part flags l \<and> left = length (left_part flags l) \<and> drop (left + ?plus) l = right_part flags l"
  proof (cases "flags AND STRICT_LITERAL_PLUS = 0")
    case True
    then have left: "left = length (takeWhile (\<lambda>c. c \<noteq> CHR ''+'') l)" by (simp add: left_def strcspn_plus)
    have "drop (left + ?plus) l = tl (dropWhile (\<lambda>c. c \<noteq> CHR ''+'') l)"
    proof (cases "left < length l")
      case True
      then show ?thesis using tl [of "\<lambda>c. c \<noteq> CHR ''+''"] left by simp
    next
      case False
      then have none: "dropWhile (\<lambda>c. c \<noteq> CHR ''+'') l = []" using whole [of "\<lambda>c. c \<noteq> CHR ''+''"] left by linarith
      show ?thesis unfolding none using False by simp
    qed
    then show ?thesis using True take(1) left by (simp add: left_part_def right_part_def)
  qed (simp add: left_def left_part_def right_part_def)
  then have "take left l = left_part flags l" "left = length (left_part flags l)" "drop (left + ?plus) l = right_part flags l" by blast+
  moreover have "TextLower (Some (left_part flags l)) (-1) = Some (map tolower (left_part flags l))"
    by (simp add: left_part_def low)
  moreover have "length (right_part flags l) = length l - (left + ?plus)" using calculation(4) by (metis length_drop)
  ultimately show ?thesis by (simp add: path_text_def)
qed

section \<open>Evidence\<close>

text \<open>A closing bracket before the opening one passes the balance test: with \<open>STRICT_ADDR_SPEC\<close> the copy of the
  address has a negative length, without it the path is taken for the null address.\<close>

lemma parsePath_swapped_brackets:
  "parsePath True (Some ''><b@c.d'') 0x10 1 = Inl OutOfBounds"
  "parsePath True (Some ''><b@c.d'') 0x01 1 = Inr (Inr nullAddress)"
  by code_simp+

text \<open>A plus sign at the end of the local part is not written back.\<close>

lemma formatPath_loses_plus:
  "parsePath True (Some ''<a+@b.c>'') 0 1 = Inr (Inr \<lparr>address = path_text ''a+@b.c'', sourceRoute = emptyString,
     localLeft = path_text ''a'', localRight = emptyString, domain = path_text ''b.c''\<rparr>)"
  "allocatePath True (Some ''%P@%D'') (Some \<lparr>address = path_text ''a+@b.c'', sourceRoute = emptyString,
     localLeft = path_text ''a'', localRight = emptyString, domain = path_text ''b.c''\<rparr>) = Inr (Some (''a@b.c'' @ [NUL]))"
  by code_simp+

text \<open>\<open>TextCopy\<close> returns the length of its source, so after a part that does not fit the null goes behind the buffer;
  a percent sign at the end of the format makes the loop leave it.\<close>

lemma formatPath_overrun:
  "formatPath (Some (replicate 4 NUL)) 4 (Some ''%A'') (Some demo_path) = Inl OutOfBounds"
  "formatPath (Some (replicate 40 NUL)) 40 (Some ''100%'') (Some demo_path) = Inl OutOfBounds"
  by code_simp+

text \<open>C13: \<open>parsePath\<close> takes a mailbox apart: in angle brackets, behind a text of plain characters
  (no quotes, backslashes or angle brackets) and opening angle brackets and before a text of plain characters and as many closing ones, a mailbox of an atom local part
  of at most 64 characters and a domain that \<open>spanDomain\<close> accepts, of at most 255, is found and accepted under every
  combination of flags; the address is the mailbox, the local part is split at its first plus sign unless
  \<open>STRICT_LITERAL_PLUS\<close> is set, and its left part and the domain are in lower case.\<close>

theorem parsePath_mailbox:
  assumes "list_all (\<lambda>c. plain_char c \<or> c = CHR ''<'') pre" "list_all (\<lambda>c. plain_char c \<or> c = CHR ''>'') post"
    "count_list pre (CHR ''<'') = count_list post (CHR ''>'')"
    "list_all atom_char l" "l \<noteq> []" "length l \<le> 64" "d \<noteq> []" "spanDomain (Some d) dots = length d" "length d \<le> 255"
  shows "parsePath True (Some (pre @ ''<'' @ (l @ CHR ''@'' # d) @ ''>'' @ post)) flags dots =
    Inr (Inr \<lparr>address = path_text (l @ CHR ''@'' # d), sourceRoute = emptyString,
      localLeft = path_text (map tolower (left_part flags l)), localRight = path_text (right_part flags l),
      domain = path_text (map tolower d)\<rparr>)"
proof -
  define a where "a = l @ CHR ''@'' # d"
  define path where "path = pre @ ''<'' @ a @ ''>'' @ post"
  have "list_all domain_char d" using spanDomain_sound [of d dots] assms(7,8) by (simp add: list_all_iff)
  then have plain: "list_all plain_char a" "last d \<notin> set path_blanks"
    using assms(4,7) atom_char_plain domain_char_plain by (auto simp: a_def list_all_iff plain_char_def)
  have inner: "findInnerPath (Some path) = (0, length pre, length pre + length a + 2)"
    using findInnerPath_inner [OF assms(1) plain(1) assms(2)] assms(3) by (simp add: path_def)
  have at: "char_at path (length pre) = CHR ''<''" "char_at path (Suc (length pre + length a)) = CHR ''>''"
    by (simp_all add: path_def char_at_def nth_append)
  have rest: "drop (Suc (length pre)) path = a @ ''>'' @ post" by (simp add: path_def)
  have "deref l \<notin> set path_blanks" using assms(4,5) atom_char_plain by (cases l) auto
  then have lead: "strspn (a @ ''>'' @ post) path_blanks = 0" using assms(5) by (intro strspn_none) (simp add: a_def)
  have "last a = last d" "a \<noteq> []" using assms(7) by (simp_all add: a_def)
  then have trail: "strlrspn (a @ ''>'' @ post) (length a) path_blanks = length a"
    by (intro strlrspn_last) (use plain(2) in \<open>auto simp: nth_append last_conv_nth\<close>)
  have "parsePath True (Some path) flags dots = Inr (parse_address flags dots a)"
    using at rest lead trail \<open>a \<noteq> []\<close> by (simp add: parsePath_def inner)
  then show ?thesis using parse_address_mailbox [OF assms(4,5,7,8,6,9), of flags] by (simp add: path_def a_def)
qed

theorem parsePath_mailbox_witness:
  "parsePath True (Some (''John <'' @ ''<'' @ (''Foo+Bar'' @ CHR ''@'' # ''C.org'') @ ''>'' @ '' x>'')) 0x21 1 =
    Inr (Inr \<lparr>address = path_text (''Foo+Bar'' @ CHR ''@'' # ''C.org''), sourceRoute = emptyString,
      localLeft = path_text (map tolower (left_part 0x21 ''Foo+Bar'')), localRight = path_text (right_part 0x21 ''Foo+Bar''),
      domain = path_text (map tolower ''C.org'')\<rparr>)"
proof (rule parsePath_mailbox)
  show "list_all atom_char ''Foo+Bar''" by code_simp
  show "spanDomain (Some ''C.org'') 1 = length ''C.org''" by code_simp
qed (simp_all add: plain_char_def)

end
