(* ===== verification/TopLevelDomains.thy ===== *)
theory TopLevelDomains
  imports TextOps
begin

text \<open>
  \<^verbatim>\<open>mail/tlds.c\<close>: the top level domains of one, two and three labels. The tables are lists of names;
  those built into the library are generated files, so a table is an argument everywhere.
\<close>

section \<open>Loading a table\<close>

text \<open>Counting words: a word starts at a character that is not white space behind one that is.\<close>

fun count_words :: "bool \<Rightarrow> string \<Rightarrow> nat" where
  "count_words after_space [] = 0"
| "count_words after_space (ch # s) =
     (if after_space \<and> \<not> isspace ch then 1 else 0) + count_words (isspace ch) s"

definition tld_blanks :: string where
  "tld_blanks = [CHR '' '', CHR 0x09, CHR 0x0C, CHR 0x0D, CHR 0x0A]"

text \<open>Cutting the words out of the buffer: \<open>rest\<close> is what lies between \<open>word\<close> and the null. When a word ends at
  that null, \<open>*word++\<close> leaves the buffer and the scan for the next word reads behind it.\<close>

primrec cut_words :: "nat \<Rightarrow> string \<Rightarrow> fault + string list" where
  "cut_words 0 rest = Inr []"
| "cut_words (Suc n) rest =
     (let k = strcspn rest tld_blanks
      in case drop k rest of
           [] \<Rightarrow> Inl OutOfBounds
         | c # r \<Rightarrow> andthen (cut_words n (drop (strspn r tld_blanks) r)) (\<lambda>ws. Inr (take k rest # ws)))"

text \<open>\<open>file\<close> is the content of the file when it can be opened, \<open>read_ok\<close> tells whether \<open>fread\<close> returns all of it. The
  result is the code returned and the new table.\<close>

definition tldLoadTable :: "string option \<Rightarrow> string option \<Rightarrow> bool \<Rightarrow> bool \<Rightarrow> string list option \<Rightarrow> fault + int \<times> string list option" where
  "tldLoadTable filepath file malloc_ok read_ok table =
     (if filepath = None \<or> filepath = Some [] then Inr (-1, table)
      else case file of
        None \<Rightarrow> Inr (-1, None)
      | Some s \<Rightarrow>
          if \<not> malloc_ok \<or> \<not> read_ok then Inr (-1, None)
          else andthen (cut_words (count_words True s) (drop (strspn s tld_blanks) s)) (\<lambda>ws. Inr (0, Some ws)))"

section \<open>Looking up a domain\<close>

definition MAX_TLD_LEVELS :: int where "MAX_TLD_LEVELS = 3"

text \<open>The loop over the labels from the right; \<open>lastdot - 1\<close> of \<open>lastdot = 0\<close> is the largest \<open>size_t\<close>, for which
  \<open>strlrcspn\<close> returns 0.\<close>

primrec back_labels :: "nat \<Rightarrow> string \<Rightarrow> nat \<Rightarrow> nat" where
  "back_labels 0 domain lastdot = lastdot"
| "back_labels (Suc n) domain lastdot =
     back_labels n domain (if lastdot = 0 then 0 else strlrcspn domain (lastdot - 1) ''.'')"

definition tld_matches :: "string \<Rightarrow> nat \<Rightarrow> string \<Rightarrow> bool" where
  "tld_matches domain len tld \<longleftrightarrow>
     TextInsensitiveCompareN (Some domain) (Some tld) (int len) = 0 \<and> (char_at tld len = NUL \<or> char_at tld len = CHR ''.'')"

definition indexValidNthTLD :: "(nat \<Rightarrow> string list) \<Rightarrow> string option \<Rightarrow> int \<Rightarrow> int" where
  "indexValidNthTLD nth_tld po level =
     (case po of
        None \<Rightarrow> -1
      | Some domain \<Rightarrow>
          if domain = [] \<or> level < 1 \<or> MAX_TLD_LEVELS < level then -1
          else
            let len = (if last domain = CHR ''.'' then length domain - 1 else length domain);
                lastdot = back_labels (nat level) domain len
            in if list_ex (tld_matches (drop lastdot domain) (len - lastdot)) (nth_tld (nat level))
               then int lastdot else -1)"

text \<open>\<open>indexValidTLD\<close> tries the levels from the highest to 1.\<close>

primrec index_levels :: "(nat \<Rightarrow> string list) \<Rightarrow> string option \<Rightarrow> nat \<Rightarrow> int" where
  "index_levels nth_tld po 0 = -1"
| "index_levels nth_tld po (Suc n) =
     (let offset = indexValidNthTLD nth_tld po (int (Suc n))
      in if 0 \<le> offset then offset else index_levels nth_tld po n)"

definition indexValidTLD :: "(nat \<Rightarrow> string list) \<Rightarrow> string option \<Rightarrow> int" where
  "indexValidTLD nth_tld po = (if po \<noteq> None \<and> po \<noteq> Some [] then index_levels nth_tld po (nat MAX_TLD_LEVELS) else -1)"

definition hasValidNthTLD :: "(nat \<Rightarrow> string list) \<Rightarrow> string option \<Rightarrow> int \<Rightarrow> bool" where
  "hasValidNthTLD nth_tld po level \<longleftrightarrow> indexValidNthTLD nth_tld po level \<noteq> -1"

definition hasValidTLD :: "(nat \<Rightarrow> string list) \<Rightarrow> string option \<Rightarrow> bool" where
  "hasValidTLD nth_tld po \<longleftrightarrow> indexValidTLD nth_tld po \<noteq> -1"

section \<open>Labels from the right\<close>

lemma strlrcspn_label:
  assumes "p \<le> n" "\<forall>i. p \<le> i \<and> i < n \<longrightarrow> s ! i \<noteq> CHR ''.''" "p = 0 \<or> s ! (p - 1) = CHR ''.''"
  shows "strlrcspn s n ''.'' = p"
  using assms(1,2)
proof (induction n)
  case 0
  then show ?case using assms(3) by simp
next
  case (Suc n)
  show ?case
  proof (cases "p \<le> n")
    case True
    then show ?thesis using Suc by simp
  next
    case False
    then have "p = Suc n" using Suc.prems(1) by simp
    then show ?thesis using assms(3) by simp
  qed
qed

definition label_ok :: "string \<Rightarrow> bool" where
  "label_ok l \<longleftrightarrow> l \<noteq> [] \<and> CHR ''.'' \<notin> set l \<and> NUL \<notin> set l"

abbreviation dotted :: "string list \<Rightarrow> string" where
  "dotted ls \<equiv> join_with ''.'' ls"

text \<open>The offset behind the dot that follows some labels.\<close>

definition behind :: "string list \<Rightarrow> nat" where
  "behind ls = (if ls = [] then 0 else length (dotted ls) + 1)"

lemma dotted_snoc: "dotted (ls @ [l]) = (if ls = [] then l else dotted ls @ ''.'' @ l)"
  by (simp add: join_with_snoc)

lemma last_label:
  assumes "label_ok l" "behind ls + length l \<le> Suc n" "n \<le> behind ls + length l" "behind ls \<le> n"
  shows "strlrcspn (dotted (ls @ [l]) @ rest) n ''.'' = behind ls"
proof (rule strlrcspn_label)
  let ?s = "dotted (ls @ [l]) @ rest"
  show "behind ls \<le> n" by fact
  have eq: "?s ! i = l ! (i - behind ls)" if "behind ls \<le> i" "i < behind ls + length l" for i
    using that by (auto simp: behind_def dotted_snoc nth_append split: if_splits)
  show "\<forall>i. behind ls \<le> i \<and> i < n \<longrightarrow> ?s ! i \<noteq> CHR ''.''"
    using eq assms(1,3) by (auto simp: label_ok_def) (metis add.commute less_diff_conv2 less_le_trans nth_mem)
  show "behind ls = 0 \<or> ?s ! (behind ls - 1) = CHR ''.''"
    by (auto simp: behind_def dotted_snoc nth_append)
qed

lemma back_labels_behind:
  assumes "list_all label_ok tls" "e = length (dotted (front @ tls)) \<or> e = Suc (length (dotted (front @ tls)))" "tls \<noteq> []"
  shows "back_labels (length tls) (dotted (front @ tls) @ rest) e = behind front"
  using assms
proof (induction tls arbitrary: e rest rule: rev_induct)
  case (snoc l tls)
  have l: "label_ok l" "length (dotted (front @ tls @ [l])) = behind (front @ tls) + length l"
    using snoc.prems(1) by (auto simp: behind_def dotted_snoc [of "front @ tls", simplified])
  obtain k where "length l = Suc k" using l(1) by (cases l) (auto simp: label_ok_def)
  then have step: "strlrcspn (dotted ((front @ tls) @ [l]) @ rest) (e - 1) ''.'' = behind (front @ tls)" "e \<noteq> 0"
    using snoc.prems(2) l last_label [OF l(1), of "front @ tls" "e - 1" rest] by auto
  show ?case
  proof (cases "tls = []")
    case True
    then show ?thesis using step by simp
  next
    case False
    have "dotted (front @ tls @ [l]) = dotted (front @ tls) @ ''.'' @ l" using False dotted_snoc [of "front @ tls" l] by simp
    moreover have "behind (front @ tls) = Suc (length (dotted (front @ tls)))" using False by (simp add: behind_def)
    ultimately show ?thesis using snoc.IH [of "behind (front @ tls)" "''.'' @ l @ rest"] snoc.prems(1) False step by simp
  qed
qed simp

section \<open>Properties\<close>

text \<open>The names that count as a table entry: the entry itself, or the part before a dot of it, up to case.\<close>

definition entry_of :: "string \<Rightarrow> string \<Rightarrow> bool" where
  "entry_of name tld \<longleftrightarrow> map tolower name = map tolower (take (length name) tld) \<and>
     (length tld = length name \<or> char_at tld (length name) = CHR ''.'')"

lemma tld_matches_entry:
  assumes "NUL \<notin> set tld" "NUL \<notin> set d" "len \<le> length d"
  shows "tld_matches d len tld \<longleftrightarrow> entry_of (take len d) tld"
proof -
  have "TextInsensitiveCompareN (Some d) (Some tld) (int len) = 0 \<longleftrightarrow> map tolower (take len d) = map tolower (take len tld)"
    using TextInsensitiveCompare_zero [OF assms(2,1)] by blast
  moreover have "len \<le> length tld" if "map tolower (take len d) = map tolower (take len tld)"
    using arg_cong [OF that, of length] assms(3) by simp
  moreover have "char_at tld len = NUL \<longleftrightarrow> length tld \<le> len" using assms(1) by (auto simp: char_at_def) (metis nth_mem)
  ultimately show ?thesis using assms(3) by (auto simp: tld_matches_def entry_of_def)
qed

lemma dotted_facts:
  assumes "list_all label_ok ls" "ls \<noteq> []"
  shows "dotted ls \<noteq> []" "last (dotted ls) \<noteq> CHR ''.''" "NUL \<notin> set (dotted ls)"
proof -
  obtain l ls' where ls: "ls = ls' @ [l]" using assms(2) by (metis rev_exhaust)
  then have l: "l \<noteq> []" "CHR ''.'' \<notin> set l" using assms(1) by (auto simp: label_ok_def)
  show "dotted ls \<noteq> []" using l by (simp add: ls dotted_snoc)
  have "last l \<noteq> CHR ''.''" using l by (metis last_in_set)
  then show "last (dotted ls) \<noteq> CHR ''.''" using l by (simp add: ls dotted_snoc)
  show "NUL \<notin> set (dotted ls)" using assms(1)
  proof (induction ls)
    case (Cons x xs)
    then show ?case by (cases "xs = []") (auto simp: join_with_Cons label_ok_def)
  qed simp
qed

lemma dotted_append: "xs \<noteq> [] \<Longrightarrow> ys \<noteq> [] \<Longrightarrow> dotted (xs @ ys) = dotted xs @ ''.'' @ dotted ys"
proof (induction xs)
  case (Cons x xs)
  then show ?case by (cases "xs = []") (simp_all add: join_with_Cons)
qed simp

lemma indexValidNthTLD_last_labels:
  assumes "list_all label_ok (front @ tls)" "tls \<noteq> []" "length tls \<le> 3" "root \<in> {'''', ''.''}"
    "list_all (\<lambda>tld. NUL \<notin> set tld) (nth_tld (length tls))"
  shows "indexValidNthTLD nth_tld (Some (dotted (front @ tls) @ root)) (int (length tls)) =
    (if list_ex (entry_of (dotted tls)) (nth_tld (length tls)) then int (behind front) else -1)"
proof -
  let ?d = "dotted (front @ tls)" and ?n = "length (dotted tls)"
  have tls: "list_all label_ok tls" and ne: "front @ tls \<noteq> []" using assms(1,2) by auto
  note f = dotted_facts [OF assms(1) ne] and g = dotted_facts [OF tls assms(2)]
  have b: "back_labels (length tls) (?d @ root) (length ?d) = behind front"
    by (rule back_labels_behind [OF tls _ assms(2)]) simp
  have split: "drop (behind front) (?d @ root) = dotted tls @ root" "length ?d - behind front = ?n" "behind front \<le> length ?d"
    using assms(2) by (auto simp: behind_def dotted_append)
  have "NUL \<notin> set (dotted tls @ root)" using g(3) assms(4) by auto
  then have m: "tld_matches (dotted tls @ root) ?n tld \<longleftrightarrow> entry_of (dotted tls) tld" if "tld \<in> set (nth_tld (length tls))" for tld
    using tld_matches_entry [of tld "dotted tls @ root" ?n] assms(5) that by (auto simp: list_all_iff)
  have len: "(if last (?d @ root) = CHR ''.'' then length (?d @ root) - 1 else length (?d @ root)) = length ?d"
    using f assms(4) by auto
  have "1 \<le> length tls" using assms(2) by (cases tls) auto
  then show ?thesis using f(1) assms(3) m
    unfolding indexValidNthTLD_def option.case len Let_def nat_int b split by (auto simp: MAX_TLD_LEVELS_def list_ex_iff)
qed

lemma back_labels_0: "back_labels k d 0 = 0"
  by (induction k) simp_all

lemma back_labels_add: "back_labels (j + k) d e = back_labels k d (back_labels j d e)"
  by (induction j arbitrary: e) simp_all

text \<open>C20: \<open>indexValidNthTLD\<close> decides whether the last labels are in the table. For a domain of labels, with or without
  the root dot, and a level from 1 to 3, take the last \<open>n\<close> labels, or all of them when there are fewer. When they are,
  up to case, an entry of the table of that level or the part of an entry before one of its dots, their offset is
  returned, otherwise -1.\<close>

theorem indexValidNthTLD_entry:
  assumes "list_all label_ok ls" "ls \<noteq> []" "n \<in> {1, 2, 3}" "root \<in> {'''', ''.''}"
    "list_all (\<lambda>tld. NUL \<notin> set tld) (nth_tld n)"
  shows "indexValidNthTLD nth_tld (Some (dotted ls @ root)) (int n) =
    (if list_ex (entry_of (dotted (drop (length ls - n) ls))) (nth_tld n)
     then int (behind (take (length ls - n) ls)) else -1)"
proof (cases "n \<le> length ls")
  case True
  then have tls: "length (drop (length ls - n) ls) = n" "drop (length ls - n) ls \<noteq> []" using assms(3) by auto
  show ?thesis
    using indexValidNthTLD_last_labels [of "take (length ls - n) ls" "drop (length ls - n) ls" root nth_tld]
      assms tls by auto
next
  case False
  let ?d = "dotted ls"
  note f = dotted_facts [OF assms(1,2)]
  have b0: "back_labels (length ls) (?d @ root) (length ?d) = behind []"
    using back_labels_behind [OF assms(1) _ assms(2), of _ "[]" root] by simp
  have "back_labels (length ls + (n - length ls)) (?d @ root) (length ?d) = 0"
    unfolding back_labels_add b0 by (simp add: behind_def back_labels_0)
  then have b: "back_labels n (?d @ root) (length ?d) = 0" using False by simp
  have len: "(if last (?d @ root) = CHR ''.'' then length (?d @ root) - 1 else length (?d @ root)) = length ?d"
    using f assms(4) by auto
  have "NUL \<notin> set (?d @ root)" using f(3) assms(4) by auto
  then have m: "tld_matches (?d @ root) (length ?d) tld \<longleftrightarrow> entry_of ?d tld" if "tld \<in> set (nth_tld n)" for tld
    using tld_matches_entry [of tld "?d @ root" "length ?d"] assms(5) that by (auto simp: list_all_iff)
  show ?thesis using f(1) assms(3) m False
    unfolding indexValidNthTLD_def option.case len Let_def nat_int b
    by (auto simp: MAX_TLD_LEVELS_def list_ex_iff behind_def)
qed

theorem indexValidNthTLD_entry_witness:
  "indexValidNthTLD (\<lambda>n. if n = 2 then [''org.uk'', ''co.uk''] else []) (Some (dotted [''www'', ''example'', ''CO'', ''uk''] @ ''.''))
    (int 2) = int (behind [''www'', ''example''])"
proof -
  let ?t = "\<lambda>n::nat. if n = 2 then [''org.uk'', ''co.uk''] else []"
  have e: "list_ex (entry_of (dotted [''CO'', ''uk''])) (?t 2)" by code_simp
  have "indexValidNthTLD ?t (Some (dotted [''www'', ''example'', ''CO'', ''uk''] @ ''.'')) (int 2) =
    (if list_ex (entry_of (dotted (drop (length [''www'', ''example'', ''CO'', ''uk''] - 2) [''www'', ''example'', ''CO'', ''uk'']))) (?t 2)
     then int (behind (take (length [''www'', ''example'', ''CO'', ''uk''] - 2) [''www'', ''example'', ''CO'', ''uk''])) else -1)"
    by (rule indexValidNthTLD_entry) (simp_all add: label_ok_def)
  with e show ?thesis by simp
qed

text \<open>The part of an entry before a dot counts as an entry, and a domain of one label can be found among the
  two-level ones.\<close>

lemma indexValidNthTLD_prefix:
  "indexValidNthTLD (\<lambda>_. [''com.br'']) (Some ''com'') 1 = 0"
  "indexValidNthTLD (\<lambda>_. [''uk.com'']) (Some ''uk'') 2 = 0"
  by code_simp+

section \<open>Evidence and the words of a file\<close>

text \<open>A file whose last word is not followed by white space: the scan reads behind the block.\<close>

lemma tldLoadTable_overrun:
  "tldLoadTable (Some ''/tlds'') (Some ''com org'') True True None = Inl OutOfBounds"
  by code_simp

text \<open>A vertical tab is counted as white space but does not separate words.\<close>

lemma tldLoadTable_vertical_tab:
  "tldLoadTable (Some ''/tlds'') (Some (''com'' @ [CHR 0x0B] @ ''org'' @ [CHR 0x0A])) True True None = Inl OutOfBounds"
  by code_simp

definition tld_word :: "string \<Rightarrow> bool" where
  "tld_word w \<longleftrightarrow> w \<noteq> [] \<and> list_all (\<lambda>c. \<not> isspace c) w"

definition tld_gap :: "string \<Rightarrow> bool" where
  "tld_gap g \<longleftrightarrow> g \<noteq> [] \<and> set g \<subseteq> set tld_blanks"

abbreviation file_of :: "(string \<times> string) list \<Rightarrow> string" where
  "file_of ws \<equiv> concat (map (\<lambda>(w, g). w @ g) ws)"

lemma blank_isspace: "c \<in> set tld_blanks \<Longrightarrow> isspace c"
  by (auto simp: tld_blanks_def ctype_defs ord_def)

lemma count_words_gap: "set g \<subseteq> set tld_blanks \<Longrightarrow> g \<noteq> [] \<Longrightarrow> count_words b (g @ s) = count_words True s"
proof (induction g arbitrary: b)
  case (Cons c g)
  then show ?case by (cases "g = []") (simp_all add: blank_isspace)
qed simp

lemma count_words_word:
  "list_all (\<lambda>c. \<not> isspace c) w \<Longrightarrow> w \<noteq> [] \<Longrightarrow> count_words b (w @ s) = (if b then 1 else 0) + count_words False s"
proof (induction w arbitrary: b)
  case (Cons c w)
  then show ?case by (cases "w = []") simp_all
qed simp

lemma span_gap:
  assumes "tld_word w" "tld_gap g" "s = [] \<or> \<not> isspace (hd s)"
  shows "strcspn (w @ g @ s) tld_blanks = length w" "drop (strspn (tl g @ s) tld_blanks) (tl g @ s) = s"
proof -
  have w: "\<forall>c \<in> set w. c \<notin> set tld_blanks" using assms(1) blank_isspace by (auto simp: tld_word_def list_all_iff)
  have g: "hd g \<in> set tld_blanks" "g \<noteq> []" "\<forall>c \<in> set (tl g). c \<in> set tld_blanks"
    using assms(2) by (auto simp: tld_gap_def dest: list.set_sel)
  have "takeWhile (\<lambda>c. c \<notin> set tld_blanks) (w @ g @ s) = w"
    using w g by (cases g) (simp_all add: takeWhile_append)
  then show "strcspn (w @ g @ s) tld_blanks = length w" by (simp add: strcspn_def)
  have "dropWhile (\<lambda>c. c \<in> set tld_blanks) (tl g @ s) = s"
    using g(3) assms(3) blank_isspace by (cases s) (auto simp: dropWhile_append)
  then show "drop (strspn (tl g @ s) tld_blanks) (tl g @ s) = s" by (simp add: drop_strspn del: drop_append)
qed

text \<open>A file of words, each followed by white space, is loaded as these words.\<close>

lemma tldLoadTable_words:
  assumes "\<forall>(w, g) \<in> set ws. tld_word w \<and> tld_gap g" "filepath \<noteq> []" "set lead \<subseteq> set tld_blanks"
  shows "tldLoadTable (Some filepath) (Some (lead @ file_of ws)) True True table = Inr (0, Some (map fst ws))"
proof -
  have start: "file_of ws = [] \<or> \<not> isspace (hd (file_of ws))" if "\<forall>(w, g) \<in> set ws. tld_word w \<and> tld_gap g" for ws
    using that by (cases ws) (auto simp: tld_word_def hd_append list_all_iff dest: hd_in_set)
  have words: "count_words True (file_of ws) = length ws \<and> cut_words (length ws) (file_of ws) = Inr (map fst ws)"
    using assms(1)
  proof (induction ws)
    case (Cons x ws)
    obtain w g where x: "x = (w, g)" by (cases x)
    then have wg: "tld_word w" "tld_gap g" "\<forall>(w, g) \<in> set ws. tld_word w \<and> tld_gap g" using Cons.prems by auto
    note sp = span_gap [OF wg(1,2) start [OF wg(3)]]
    have "count_words True (w @ g @ file_of ws) = Suc (count_words True (file_of ws))"
      using wg by (simp add: tld_word_def tld_gap_def count_words_word count_words_gap)
    moreover obtain c r where "g = c # r" using wg(2) by (cases g) (auto simp: tld_gap_def)
    ultimately show ?case using Cons.IH [OF wg(3)] sp x by simp
  qed simp
  have "drop (strspn (lead @ f) tld_blanks) (lead @ f) = f" if "f = [] \<or> \<not> isspace (hd f)" for f
    using assms(3) that blank_isspace by (cases f) (auto simp: drop_strspn dropWhile_append subset_iff simp del: drop_append)
  from this [OF start [OF assms(1)]] have "drop (strspn (lead @ file_of ws) tld_blanks) (lead @ file_of ws) = file_of ws" .
  moreover have "count_words True (lead @ file_of ws) = count_words True (file_of ws)"
    using assms(3) by (cases "lead = []") (simp_all add: count_words_gap)
  ultimately show ?thesis using words assms(2) by (simp add: tldLoadTable_def)
qed

end
