(* ===== verification/DnsRecords.thy ===== *)
theory DnsRecords
  imports CPrelude TextOps NetParse
begin

text \<open>
  The resource records of \<^verbatim>\<open>net/pdq.c\<close> and the operations on lists of them.

  \<^item> The C code casts a pointer to the common head \<open>PDQ_rr\<close> to the structure its \<open>type\<close> stands
    for; here the members after the head are one datatype, and \<open>rr_ok\<close> says that they fit the type.
    A query record (\<open>section\<close> is \<open>PDQ_SECTION_QUERY\<close>) is a \<open>PDQ_QUERY\<close> whatever its type is.
  \<^item> A pointer to a record of a list is the rest of the list from that record on; \<open>NULL\<close> is the empty
    list. A list operation that unlinks records returns the list its head pointer shows afterwards.
  \<^item> The name buffers have their full size, with the null and whatever follows it, because the code
    compares some of them with \<open>memcmp\<close>; the C string in a buffer is \<open>cstring_of\<close>.
\<close>

section \<open>Codes\<close>

definition PDQ_TYPE_UNKNOWN :: u16 where "PDQ_TYPE_UNKNOWN = 0"
definition PDQ_TYPE_A :: u16 where "PDQ_TYPE_A = 1"
definition PDQ_TYPE_NS :: u16 where "PDQ_TYPE_NS = 2"
definition PDQ_TYPE_CNAME :: u16 where "PDQ_TYPE_CNAME = 5"
definition PDQ_TYPE_SOA :: u16 where "PDQ_TYPE_SOA = 6"
definition PDQ_TYPE_NULL :: u16 where "PDQ_TYPE_NULL = 10"
definition PDQ_TYPE_WKS :: u16 where "PDQ_TYPE_WKS = 11"
definition PDQ_TYPE_PTR :: u16 where "PDQ_TYPE_PTR = 12"
definition PDQ_TYPE_HINFO :: u16 where "PDQ_TYPE_HINFO = 13"
definition PDQ_TYPE_MINFO :: u16 where "PDQ_TYPE_MINFO = 14"
definition PDQ_TYPE_MX :: u16 where "PDQ_TYPE_MX = 15"
definition PDQ_TYPE_TXT :: u16 where "PDQ_TYPE_TXT = 16"
definition PDQ_TYPE_AAAA :: u16 where "PDQ_TYPE_AAAA = 28"
definition PDQ_TYPE_A6 :: u16 where "PDQ_TYPE_A6 = 38"
definition PDQ_TYPE_DNAME :: u16 where "PDQ_TYPE_DNAME = 39"
definition PDQ_TYPE_ANY :: u16 where "PDQ_TYPE_ANY = 255"
definition PDQ_TYPE_5A :: u16 where "PDQ_TYPE_5A = 256"

lemmas pdq_types = PDQ_TYPE_UNKNOWN_def PDQ_TYPE_A_def PDQ_TYPE_NS_def PDQ_TYPE_CNAME_def
  PDQ_TYPE_SOA_def PDQ_TYPE_NULL_def PDQ_TYPE_WKS_def PDQ_TYPE_PTR_def PDQ_TYPE_HINFO_def
  PDQ_TYPE_MINFO_def PDQ_TYPE_MX_def PDQ_TYPE_TXT_def PDQ_TYPE_AAAA_def PDQ_TYPE_A6_def
  PDQ_TYPE_DNAME_def PDQ_TYPE_ANY_def PDQ_TYPE_5A_def

definition PDQ_CLASS_IN :: u16 where "PDQ_CLASS_IN = 1"
definition PDQ_CLASS_CS :: u16 where "PDQ_CLASS_CS = 2"
definition PDQ_CLASS_CH :: u16 where "PDQ_CLASS_CH = 3"
definition PDQ_CLASS_HS :: u16 where "PDQ_CLASS_HS = 4"
definition PDQ_CLASS_ANY :: u16 where "PDQ_CLASS_ANY = 255"

lemmas pdq_classes = PDQ_CLASS_IN_def PDQ_CLASS_CS_def PDQ_CLASS_CH_def PDQ_CLASS_HS_def
  PDQ_CLASS_ANY_def

definition PDQ_RCODE_OK :: nat where "PDQ_RCODE_OK = 0"
definition PDQ_RCODE_FORMAT :: nat where "PDQ_RCODE_FORMAT = 1"
definition PDQ_RCODE_SERVER :: nat where "PDQ_RCODE_SERVER = 2"
definition PDQ_RCODE_UNDEFINED :: nat where "PDQ_RCODE_UNDEFINED = 3"
definition PDQ_RCODE_NOT_IMPLEMENTED :: nat where "PDQ_RCODE_NOT_IMPLEMENTED = 4"
definition PDQ_RCODE_REFUSED :: nat where "PDQ_RCODE_REFUSED = 5"
definition PDQ_RCODE_ERRNO :: nat where "PDQ_RCODE_ERRNO = 16"
definition PDQ_RCODE_TIMEDOUT :: nat where "PDQ_RCODE_TIMEDOUT = 17"

lemmas pdq_rcodes = PDQ_RCODE_OK_def PDQ_RCODE_FORMAT_def PDQ_RCODE_SERVER_def
  PDQ_RCODE_UNDEFINED_def PDQ_RCODE_NOT_IMPLEMENTED_def PDQ_RCODE_REFUSED_def
  PDQ_RCODE_ERRNO_def PDQ_RCODE_TIMEDOUT_def

datatype PDQ_section =
  PDQ_SECTION_QUERY | PDQ_SECTION_ANSWER | PDQ_SECTION_AUTHORITY | PDQ_SECTION_EXTRA

datatype PDQ_valid_soa =
  PDQ_SOA_OK | PDQ_SOA_BAD_NAME | PDQ_SOA_UNDEFINED | PDQ_SOA_MISSING | PDQ_SOA_BAD_CNAME
  | PDQ_SOA_ROOTED | PDQ_SOA_MISMATCH | PDQ_SOA_BAD_NS | PDQ_SOA_BAD_CONTACT

text \<open>The tables that name the codes, and the search in both directions.\<close>

definition classMap :: "(int \<times> string) list" where
  "classMap =
     [(uint PDQ_CLASS_IN, ''IN''), (uint PDQ_CLASS_CS, ''CS''), (uint PDQ_CLASS_CH, ''CH''),
      (uint PDQ_CLASS_HS, ''HS''), (uint PDQ_CLASS_ANY, ''ANY'')]"

definition typeMap :: "(int \<times> string) list" where
  "typeMap =
     [(uint PDQ_TYPE_A, ''A''), (uint PDQ_TYPE_NS, ''NS''), (uint PDQ_TYPE_CNAME, ''CNAME''),
      (uint PDQ_TYPE_SOA, ''SOA''), (uint PDQ_TYPE_NULL, ''NULL''), (uint PDQ_TYPE_WKS, ''WKS''),
      (uint PDQ_TYPE_PTR, ''PTR''), (uint PDQ_TYPE_HINFO, ''HINFO''),
      (uint PDQ_TYPE_MINFO, ''MINFO''), (uint PDQ_TYPE_MX, ''MX''), (uint PDQ_TYPE_TXT, ''TXT''),
      (uint PDQ_TYPE_AAAA, ''AAAA''), (uint PDQ_TYPE_A6, ''A6''),
      (uint PDQ_TYPE_DNAME, ''DNAME''), (uint PDQ_TYPE_ANY, ''ANY'')]"

definition rcodeMap :: "(int \<times> string) list" where
  "rcodeMap =
     [(int PDQ_RCODE_OK, ''OK''), (int PDQ_RCODE_FORMAT, ''FORMAT''),
      (int PDQ_RCODE_SERVER, ''SERVER''), (int PDQ_RCODE_UNDEFINED, ''NXDOMAIN''),
      (int PDQ_RCODE_NOT_IMPLEMENTED, ''NOT IMPLEMENTED''), (int PDQ_RCODE_REFUSED, ''REFUSED''),
      (int PDQ_RCODE_ERRNO, ''ERRNO''), (int PDQ_RCODE_TIMEDOUT, ''TIMED OUT'')]"

fun pdq_code_to_name :: "(int \<times> string) list \<Rightarrow> int \<Rightarrow> string" where
  "pdq_code_to_name [] code = ''(unknown)''"
| "pdq_code_to_name ((c, nm) # entries) code =
     (if code = c then nm else pdq_code_to_name entries code)"

fun pdq_name_to_code :: "(int \<times> string) list \<Rightarrow> string option \<Rightarrow> int" where
  "pdq_name_to_code [] s = -1"
| "pdq_name_to_code ((c, nm) # entries) s =
     (if TextInsensitiveCompare s (Some nm) = 0 then c else pdq_name_to_code entries s)"

definition pdqTypeName :: "u16 \<Rightarrow> string" where
  "pdqTypeName code = pdq_code_to_name typeMap (uint code)"

definition pdqClassName :: "u16 \<Rightarrow> string" where
  "pdqClassName code = pdq_code_to_name classMap (uint code)"

definition pdqRcodeName :: "nat \<Rightarrow> string" where
  "pdqRcodeName code = pdq_code_to_name rcodeMap (int code)"

definition pdqTypeCode :: "string option \<Rightarrow> int" where
  "pdqTypeCode s = pdq_name_to_code typeMap s"

definition pdqClassCode :: "string option \<Rightarrow> int" where
  "pdqClassCode s = pdq_name_to_code classMap s"

definition pdqSoaName :: "PDQ_valid_soa \<Rightarrow> string" where
  "pdqSoaName code =
     (case code of
        PDQ_SOA_OK \<Rightarrow> ''OK'' | PDQ_SOA_BAD_NAME \<Rightarrow> ''BAD NAME'' | PDQ_SOA_UNDEFINED \<Rightarrow> ''UNDEFINED''
      | PDQ_SOA_MISSING \<Rightarrow> ''MISSING'' | PDQ_SOA_BAD_CNAME \<Rightarrow> ''BAD_CNAME''
      | PDQ_SOA_ROOTED \<Rightarrow> ''ROOTED'' | PDQ_SOA_MISMATCH \<Rightarrow> ''MISMATCH''
      | PDQ_SOA_BAD_NS \<Rightarrow> ''BAD NS'' | PDQ_SOA_BAD_CONTACT \<Rightarrow> ''BAD CONTACT'')"

definition pdqSectionName :: "PDQ_section \<Rightarrow> string" where
  "pdqSectionName code =
     (case code of
        PDQ_SECTION_QUERY \<Rightarrow> ''QUERY'' | PDQ_SECTION_ANSWER \<Rightarrow> ''ANSWER''
      | PDQ_SECTION_AUTHORITY \<Rightarrow> ''AUTHORITY'' | PDQ_SECTION_EXTRA \<Rightarrow> ''EXTRA'')"

section \<open>Records\<close>

abbreviation DOMAIN_SIZE :: nat where
  "DOMAIN_SIZE \<equiv> 256"

abbreviation IPV6_STRING_SIZE :: nat where
  "IPV6_STRING_SIZE \<equiv> 40"

record PDQ_name =
  name_length :: u16
  name_value :: string

record PDQ_address =
  ip_offset :: nat
  ip_value :: "u8 list"
  addr_length :: u16
  addr_value :: string

record PDQ_QUERY =
  q_created :: int
  q_flags :: u16
  q_rcode :: nat
  q_qdcount :: u16
  q_ancount :: u16
  q_nscount :: u16
  q_arcount :: u16

record PDQ_SOA =
  soa_mname :: PDQ_name
  soa_rname :: PDQ_name
  soa_serial :: u32
  soa_refresh :: u32
  soa_retry :: u32
  soa_expire :: u32
  soa_minimum :: u32

text \<open>\<open>TextData n block\<close>: the length and the allocated block, which may have more octets than the length
  says; no block is the null pointer of a fresh record.\<close>

datatype pdq_data =
    QueryData PDQ_QUERY
  | AddressData PDQ_address
  | HostData PDQ_name
  | MxData PDQ_name u16
  | TextData nat "u8 list option"
  | SoaData PDQ_SOA
  | HinfoData PDQ_name PDQ_name

record PDQ_rr =
  rr_section :: PDQ_section
  rr_name :: PDQ_name
  rr_class :: u16
  rr_type :: u16
  rr_ttl :: u32
  rr_data :: pdq_data

text \<open>Reading a member through a cast; on a record that fits its type the last case does not occur.\<close>

definition zero_name :: PDQ_name where
  "zero_name = \<lparr>name_length = 0, name_value = replicate DOMAIN_SIZE NUL\<rparr>"

definition rr_host :: "PDQ_rr \<Rightarrow> PDQ_name" where
  "rr_host r =
     (case rr_data r of
        HostData h \<Rightarrow> h | MxData h _ \<Rightarrow> h | SoaData s \<Rightarrow> soa_mname s | HinfoData c _ \<Rightarrow> c
      | _ \<Rightarrow> zero_name)"

definition rr_ip :: "PDQ_rr \<Rightarrow> u8 list" where
  "rr_ip r = (case rr_data r of AddressData a \<Rightarrow> ip_value a | _ \<Rightarrow> replicate 16 0)"

definition rr_offset :: "PDQ_rr \<Rightarrow> nat" where
  "rr_offset r = (case rr_data r of AddressData a \<Rightarrow> ip_offset a | _ \<Rightarrow> 0)"

definition rr_address :: "PDQ_rr \<Rightarrow> string" where
  "rr_address r = (case rr_data r of AddressData a \<Rightarrow> cstring_of (addr_value a) | _ \<Rightarrow> [])"

definition rr_preference :: "PDQ_rr \<Rightarrow> u16" where
  "rr_preference r = (case rr_data r of MxData _ p \<Rightarrow> p | _ \<Rightarrow> 0)"

definition rr_text :: "PDQ_rr \<Rightarrow> u8 list" where
  "rr_text r = (case rr_data r of TextData n (Some t) \<Rightarrow> take n t | _ \<Rightarrow> [])"

definition rr_serial :: "PDQ_rr \<Rightarrow> u32" where
  "rr_serial r = (case rr_data r of SoaData s \<Rightarrow> soa_serial s | _ \<Rightarrow> 0)"

definition rr_second :: "PDQ_rr \<Rightarrow> PDQ_name" where
  "rr_second r = (case rr_data r of HinfoData _ n \<Rightarrow> n | _ \<Rightarrow> zero_name)"

definition rr_rcode :: "PDQ_rr \<Rightarrow> nat" where
  "rr_rcode r = (case rr_data r of QueryData q \<Rightarrow> q_rcode q | _ \<Rightarrow> 0)"

abbreviation rr_cname :: "PDQ_rr \<Rightarrow> string" where
  "rr_cname r \<equiv> cstring_of (name_value (rr_name r))"

abbreviation rr_chost :: "PDQ_rr \<Rightarrow> string" where
  "rr_chost r \<equiv> cstring_of (name_value (rr_host r))"

abbreviation is_query :: "PDQ_rr \<Rightarrow> bool" where
  "is_query r \<equiv> rr_section r = PDQ_SECTION_QUERY"

section \<open>Creating and copying records\<close>

text \<open>\<^verbatim>\<open>pdqSizeOfType\<close>: the structures, and their sizes on a platform with 8-octet pointers.\<close>

datatype pdq_struct = S_AAAA | S_MX | S_NS | S_TXT | S_SOA | S_HINFO | S_QUERY

definition pdqStructOfType :: "u16 \<Rightarrow> pdq_struct option" where
  "pdqStructOfType t =
     (if t = PDQ_TYPE_A \<or> t = PDQ_TYPE_AAAA then Some S_AAAA
      else if t = PDQ_TYPE_MX then Some S_MX
      else if t = PDQ_TYPE_NS \<or> t = PDQ_TYPE_PTR \<or> t = PDQ_TYPE_CNAME \<or> t = PDQ_TYPE_DNAME
      then Some S_NS
      else if t = PDQ_TYPE_TXT \<or> t = PDQ_TYPE_NULL then Some S_TXT
      else if t = PDQ_TYPE_SOA then Some S_SOA
      else if t = PDQ_TYPE_HINFO \<or> t = PDQ_TYPE_MINFO then Some S_HINFO
      else if t = PDQ_TYPE_ANY then Some S_QUERY
      else None)"

fun struct_size :: "pdq_struct \<Rightarrow> nat" where
  "struct_size S_AAAA = 344"
| "struct_size S_MX = 544"
| "struct_size S_NS = 544"
| "struct_size S_TXT = 296"
| "struct_size S_SOA = 816"
| "struct_size S_HINFO = 800"
| "struct_size S_QUERY = 304"

definition pdqSizeOfType :: "u16 \<Rightarrow> nat" where
  "pdqSizeOfType t = (case pdqStructOfType t of None \<Rightarrow> 0 | Some s \<Rightarrow> struct_size s)"

fun zero_data :: "pdq_struct \<Rightarrow> pdq_data" where
  "zero_data S_AAAA =
     AddressData \<lparr>ip_offset = 0, ip_value = replicate 16 0, addr_length = 0,
       addr_value = replicate IPV6_STRING_SIZE NUL\<rparr>"
| "zero_data S_MX = MxData zero_name 0"
| "zero_data S_NS = HostData zero_name"
| "zero_data S_TXT = TextData 0 None"
| "zero_data S_SOA = SoaData \<lparr>soa_mname = zero_name, soa_rname = zero_name, soa_serial = 0,
     soa_refresh = 0, soa_retry = 0, soa_expire = 0, soa_minimum = 0\<rparr>"
| "zero_data S_HINFO = HinfoData zero_name zero_name"
| "zero_data S_QUERY = QueryData \<lparr>q_created = 0, q_flags = 0, q_rcode = 0, q_qdcount = 0,
     q_ancount = 0, q_nscount = 0, q_arcount = 0\<rparr>"

fun data_struct :: "pdq_data \<Rightarrow> pdq_struct" where
  "data_struct (QueryData _) = S_QUERY"
| "data_struct (AddressData _) = S_AAAA"
| "data_struct (HostData _) = S_NS"
| "data_struct (MxData _ _) = S_MX"
| "data_struct (TextData _ _) = S_TXT"
| "data_struct (SoaData _) = S_SOA"
| "data_struct (HinfoData _ _) = S_HINFO"

definition rr_ok :: "PDQ_rr \<Rightarrow> bool" where
  "rr_ok r \<longleftrightarrow>
     (if is_query r then data_struct (rr_data r) = S_QUERY
      else pdqStructOfType (rr_type r) = Some (data_struct (rr_data r)))"

text \<open>\<^verbatim>\<open>pdqCreate\<close>: \<open>calloc\<close> and the type; 0 is \<open>PDQ_SECTION_QUERY\<close>. \<open>ok\<close> says whether \<open>calloc\<close>
  succeeds.\<close>

definition pdqCreate :: "bool \<Rightarrow> u16 \<Rightarrow> PDQ_rr option" where
  "pdqCreate ok t =
     (case pdqStructOfType t of
        None \<Rightarrow> None
      | Some s \<Rightarrow>
          if ok then Some \<lparr>rr_section = PDQ_SECTION_QUERY, rr_name = zero_name, rr_class = 0,
            rr_type = t, rr_ttl = 0, rr_data = zero_data s\<rparr>
          else None)"

text \<open>\<^verbatim>\<open>pdqSetName\<close>; the length \<open>TextCopy\<close> returns is that of the source and is stored in 16 bits and then used as an
  index.\<close>

definition pdqSetName :: "PDQ_name \<Rightarrow> string \<Rightarrow> fault + PDQ_name" where
  "pdqSetName nm s =
     (let (buf, len) = TextCopy (name_value nm) DOMAIN_SIZE s;
          n = len mod 2 ^ 16
      in if DOMAIN_SIZE < n then Inl OutOfBounds
         else if (n = 0 \<or> buf ! (n - 1) \<noteq> CHR ''.'') \<and> n < DOMAIN_SIZE - 1
         then Inr \<lparr>name_length = of_nat (n + 1), name_value = buf[n := CHR ''.'', n + 1 := NUL]\<rparr>
         else Inr \<lparr>name_length = of_nat n, name_value = buf\<rparr>)"

definition pdq_create_rr :: "bool \<Rightarrow> u16 \<Rightarrow> u16 \<Rightarrow> string \<Rightarrow> fault + PDQ_rr option" where
  "pdq_create_rr ok class t host =
     (case pdqCreate ok t of
        None \<Rightarrow> Inr None
      | Some r \<Rightarrow>
          andthen (pdqSetName (rr_name r) host) (\<lambda>nm.
            Inr (Some (r\<lparr>rr_name := nm, rr_section := PDQ_SECTION_ANSWER, rr_class := class,
              rr_ttl := 0\<rparr>))))"

text \<open>\<^verbatim>\<open>pdqEqual\<close>, as it is built: without \<open>PDQ_EQUAL_DETAILED\<close>.\<close>

definition same_data :: "PDQ_rr \<Rightarrow> PDQ_rr \<Rightarrow> bool" where
  "same_data a b =
     (let t = rr_type a in
      if t = PDQ_TYPE_A \<or> t = PDQ_TYPE_AAAA
      then rr_offset a = rr_offset b \<and> rr_ip a = rr_ip b
      else if t = PDQ_TYPE_SOA then rr_serial a = rr_serial b
      else if t = PDQ_TYPE_MX then rr_preference a = rr_preference b \<and> rr_host a = rr_host b
      else if t = PDQ_TYPE_NS \<or> t = PDQ_TYPE_PTR \<or> t = PDQ_TYPE_CNAME \<or> t = PDQ_TYPE_DNAME
      then rr_host a = rr_host b
      else if t = PDQ_TYPE_TXT \<or> t = PDQ_TYPE_NULL then rr_text a = rr_text b
      else if t = PDQ_TYPE_HINFO \<or> t = PDQ_TYPE_MINFO
      then rr_host a = rr_host b \<and> rr_second a = rr_second b
      else True)"

definition pdqEqual :: "PDQ_rr \<Rightarrow> PDQ_rr \<Rightarrow> bool" where
  "pdqEqual a b =
     (if rr_type a \<noteq> rr_type b then False
      else if rr_class a \<noteq> rr_class b then False
      else if TextInsensitiveCompare (Some (rr_cname a)) (Some (rr_cname b)) \<noteq> 0 then False
      else if is_query a \<and> is_query b then True
      else if is_query a \<or> is_query b then False
      else same_data a b)"

text \<open>\<^verbatim>\<open>pdqDup\<close> copies as many octets as the structure of the type has, from a record that may be a
  smaller one, and takes the members of a text record without asking for the section. The list holds the
  answers of \<open>malloc\<close>.\<close>

definition pdqDup :: "bool list \<Rightarrow> PDQ_rr \<Rightarrow> fault + PDQ_rr option \<times> bool list" where
  "pdqDup oks r =
     (case pdqStructOfType (rr_type r) of
        None \<Rightarrow> Inr (None, oks)
      | Some s \<Rightarrow>
          (case oks of
             [] \<Rightarrow> Inr (None, [])
           | False # oks \<Rightarrow> Inr (None, oks)
           | True # oks \<Rightarrow>
               if struct_size (data_struct (rr_data r)) < struct_size s then Inl OutOfBounds
               else if rr_type r = PDQ_TYPE_TXT \<or> rr_type r = PDQ_TYPE_NULL then
                 (case rr_data r of
                    TextData n t \<Rightarrow>
                      (case oks of
                         True # oks \<Rightarrow>
                           if n \<le> length (case t of None \<Rightarrow> [] | Some b \<Rightarrow> b)
                           then Inr (Some (r\<lparr>rr_data := TextData n (Some (rr_text r))\<rparr>), oks)
                           else Inl OutOfBounds
                       | _ \<Rightarrow> Inr (None, tl oks))
                  | _ \<Rightarrow> Inl OutOfBounds)
               else Inr (Some r, oks)))"

text \<open>\<^verbatim>\<open>pdqListClone\<close>: the copies, and whether the pointer behind the last of them (or the result itself)
  is one that has been freed: when the clone of the rest fails, the copy is freed and returned.\<close>

fun pdqListClone :: "bool list \<Rightarrow> PDQ_rr list \<Rightarrow> fault + (PDQ_rr list \<times> bool) \<times> bool list" where
  "pdqListClone oks [] = Inr (([], False), oks)"
| "pdqListClone oks (r # rest) =
     andthen (pdqDup oks r) (\<lambda>(copy, oks).
       case copy of
         None \<Rightarrow> Inr (([], False), oks)
       | Some c \<Rightarrow>
           if rest = [] then Inr (([c], False), oks)
           else andthen (pdqListClone oks rest) (\<lambda>((copies, freed), oks).
             if copies = [] \<and> \<not> freed then Inr (([], True), oks)
             else Inr ((c # copies, freed), oks)))"

end
