(* ===== verification/DnsLists.thy ===== *)
theory DnsLists
  imports DnsRecords
begin

text \<open>
  The list operations of \<^verbatim>\<open>net/pdq.c\<close>: pruning, keeping, finding, and following aliases. What each
  leaves of a list, and what \<open>pdqListFindName\<close> may return.
\<close>

section \<open>Pruning\<close>

definition pdqListLength :: "PDQ_rr list \<Rightarrow> nat" where
  "pdqListLength list = foldl (\<lambda>count _. count + 1) 0 list"

fun pdqListIsMember :: "PDQ_rr list \<Rightarrow> PDQ_rr \<Rightarrow> bool" where
  "pdqListIsMember [] r = False"
| "pdqListIsMember (x # list) r = (if pdqEqual x r then True else pdqListIsMember list r)"

text \<open>\<^verbatim>\<open>pdqListPruneDup\<close>: the inner loop unlinks the later records equal to \<open>r1\<close>.\<close>

fun prune_equal :: "PDQ_rr \<Rightarrow> PDQ_rr list \<Rightarrow> PDQ_rr list" where
  "prune_equal r1 [] = []"
| "prune_equal r1 (r2 # rest) =
     (if pdqEqual r1 r2 then prune_equal r1 rest else r2 # prune_equal r1 rest)"

lemma prune_equal_filter: "prune_equal r1 rest = [r2 \<leftarrow> rest. \<not> pdqEqual r1 r2]"
  by (induction rest) auto

function pdqListPruneDup :: "PDQ_rr list \<Rightarrow> PDQ_rr list" where
  "pdqListPruneDup [] = []"
| "pdqListPruneDup (r1 # rest) = r1 # pdqListPruneDup (prune_equal r1 rest)"
  by pat_completeness auto
termination
  by (relation "measure length") (auto simp: prune_equal_filter intro: le_imp_less_Suc)

text \<open>\<^verbatim>\<open>pdqListPrune5A\<close>; the argument \<open>must_have_ip\<close> is not used by the code.\<close>

fun pdqListPrune5A :: "PDQ_rr list \<Rightarrow> u32 \<Rightarrow> bool \<Rightarrow> PDQ_rr list" where
  "pdqListPrune5A [] is_ip_mask must_have_ip = []"
| "pdqListPrune5A (r # rest) is_ip_mask must_have_ip =
     (if \<not> is_query r \<and> (rr_type r = PDQ_TYPE_A \<or> rr_type r = PDQ_TYPE_AAAA)
         \<and> isReservedIPv6 (Some (rr_ip r)) is_ip_mask
      then pdqListPrune5A rest is_ip_mask must_have_ip
      else r # pdqListPrune5A rest is_ip_mask must_have_ip)"

definition keepMap :: "u16 list" where
  "keepMap =
     [PDQ_TYPE_A, PDQ_TYPE_NS, PDQ_TYPE_CNAME, PDQ_TYPE_SOA, PDQ_TYPE_NULL, PDQ_TYPE_WKS,
      PDQ_TYPE_PTR, PDQ_TYPE_HINFO, PDQ_TYPE_MINFO, PDQ_TYPE_MX, PDQ_TYPE_TXT, PDQ_TYPE_AAAA,
      PDQ_TYPE_A6, PDQ_TYPE_DNAME]"

fun keep_mask_loop :: "u16 list \<Rightarrow> u32 \<Rightarrow> u16 \<Rightarrow> u32" where
  "keep_mask_loop [] b t = 0"
| "keep_mask_loop (m # ms) b t = (if m = t then b else keep_mask_loop ms (push_bit 1 b) t)"

definition pdqKeepMask :: "u16 \<Rightarrow> u32" where
  "pdqKeepMask t = keep_mask_loop keepMap 1 t"

fun keep_type_loop :: "u16 list \<Rightarrow> u32 \<Rightarrow> u32 \<Rightarrow> u16 \<Rightarrow> bool" where
  "keep_type_loop [] b keep t = False"
| "keep_type_loop (m # ms) b keep t =
     (if b AND keep \<noteq> 0 \<and> m = t then True else keep_type_loop ms (push_bit 1 b) keep t)"

definition pdqKeepType :: "u32 \<Rightarrow> u16 \<Rightarrow> bool" where
  "pdqKeepType keep t = keep_type_loop keepMap 1 keep t"

fun pdqListKeepType :: "PDQ_rr list \<Rightarrow> u32 \<Rightarrow> PDQ_rr list" where
  "pdqListKeepType [] keep = []"
| "pdqListKeepType (r # rest) keep =
     (if \<not> pdqKeepType keep (rr_type r) then pdqListKeepType rest keep
      else r # pdqListKeepType rest keep)"

text \<open>\<^verbatim>\<open>pdqListFindQuery\<close> reads its argument without a test for null.\<close>

fun to_query :: "PDQ_rr list \<Rightarrow> PDQ_rr list" where
  "to_query [] = []"
| "to_query (r # rest) = (if is_query r then r # rest else to_query rest)"

definition pdqListFindQuery :: "PDQ_rr list \<Rightarrow> fault + PDQ_rr list" where
  "pdqListFindQuery list =
     (case list of
        [] \<Rightarrow> Inl OutOfBounds
      | r # rest \<Rightarrow> Inr (to_query (if is_query r then rest else r # rest)))"

fun pdqListPruneQuery :: "PDQ_rr list \<Rightarrow> PDQ_rr list" where
  "pdqListPruneQuery [] = []"
| "pdqListPruneQuery (r # rest) =
     (if rest \<noteq> [] \<and> is_query (hd rest) then rest else pdqListPruneQuery rest)"

text \<open>\<^verbatim>\<open>pdqListPruneSection\<close>: \<open>prev\<close> stays at the head of the list, so the head is what each unlinking
  sets it to.\<close>

fun prune_section_loop :: "PDQ_rr list \<Rightarrow> PDQ_rr list \<Rightarrow> PDQ_section \<Rightarrow> PDQ_rr list" where
  "prune_section_loop head [] section = head"
| "prune_section_loop head (r # rest) section =
     (if rr_section r \<noteq> section then prune_section_loop head rest section
      else prune_section_loop rest rest section)"

definition pdqListPruneSection :: "PDQ_rr list \<Rightarrow> PDQ_section \<Rightarrow> PDQ_rr list" where
  "pdqListPruneSection list section = prune_section_loop list list section"

section \<open>Finding\<close>

text \<open>The result of the searches: a null pointer, the two special pointers, or a record of the list.\<close>

datatype pdq_ptr = PDQ_NULL | PDQ_CNAME_TOO_DEEP | PDQ_CNAME_IS_CIRCULAR | PDQ_AT "PDQ_rr list"

definition PDQ_RR_IS_NOT_VALID :: "pdq_ptr \<Rightarrow> bool" where
  "PDQ_RR_IS_NOT_VALID p \<longleftrightarrow> p = PDQ_NULL \<or> p = PDQ_CNAME_TOO_DEEP \<or> p = PDQ_CNAME_IS_CIRCULAR"

definition is_5A :: "PDQ_rr \<Rightarrow> bool" where
  "is_5A r \<longleftrightarrow> rr_type r = PDQ_TYPE_A \<or> rr_type r = PDQ_TYPE_AAAA"

definition is_alias :: "PDQ_rr \<Rightarrow> bool" where
  "is_alias r \<longleftrightarrow> rr_type r = PDQ_TYPE_CNAME \<or> rr_type r = PDQ_TYPE_DNAME"

definition type_matches :: "u16 \<Rightarrow> PDQ_rr \<Rightarrow> bool" where
  "type_matches t r \<longleftrightarrow> rr_type r = t \<or> t = PDQ_TYPE_ANY \<or> t = PDQ_TYPE_5A \<and> is_5A r"

definition class_matches :: "u16 \<Rightarrow> PDQ_rr \<Rightarrow> bool" where
  "class_matches c r \<longleftrightarrow> c = PDQ_CLASS_ANY \<or> rr_class r = c"

fun pdqListFind :: "PDQ_rr list \<Rightarrow> u16 \<Rightarrow> u16 \<Rightarrow> string option \<Rightarrow> PDQ_rr list" where
  "pdqListFind [] class t nm = []"
| "pdqListFind (r # rest) class t nm =
     (if is_query r then pdqListFind rest class t nm
      else if \<not> type_matches t r then pdqListFind rest class t nm
      else if \<not> class_matches class r then pdqListFind rest class t nm
      else if nm \<noteq> None \<and> TextInsensitiveCompare (Some (rr_cname r)) nm \<noteq> 0
      then pdqListFind rest class t nm
      else r # rest)"

text \<open>The name of a record matches with or without the root label.\<close>

definition name_matches :: "string \<Rightarrow> string \<Rightarrow> bool" where
  "name_matches rname nm \<longleftrightarrow>
     (let n = TextInsensitiveStartsWith (Some rname) (Some nm)
      in 0 < n \<and> (char_at rname (nat n) = NUL
         \<or> char_at rname (nat n) = CHR ''.'' \<and> char_at rname (nat n + 1) = NUL))"

definition MAX_CNAME_DEPTH :: nat where
  "MAX_CNAME_DEPTH = 10"

text \<open>\<^verbatim>\<open>pdqListFindName\<close>: one pass over the list, with the names met so far in \<open>cnames\<close>.\<close>

fun find_name_loop ::
    "PDQ_rr list \<Rightarrow> u16 \<Rightarrow> u16 \<Rightarrow> string \<Rightarrow> string list \<Rightarrow> pdq_ptr" where
  "find_name_loop [] class t nm cnames = PDQ_NULL"
| "find_name_loop (r # rest) class t nm cnames =
     (if is_query r then find_name_loop rest class t nm cnames
      else if name_matches (rr_cname r) nm then
        (if \<not> class_matches class r then find_name_loop rest class t nm cnames
         else if type_matches t r then PDQ_AT (r # rest)
         else if is_alias r then
           (if MAX_CNAME_DEPTH \<le> length cnames then PDQ_CNAME_TOO_DEEP
            else
              let cnames = cnames @ [nm]; nm = rr_chost r
              in if list_ex (\<lambda>c. TextInsensitiveCompare (Some nm) (Some c) = 0) cnames
                 then PDQ_CNAME_IS_CIRCULAR
                 else find_name_loop rest class t nm cnames)
         else find_name_loop rest class t nm cnames)
      else find_name_loop rest class t nm cnames)"

definition pdqListFindName :: "PDQ_rr list \<Rightarrow> u16 \<Rightarrow> u16 \<Rightarrow> string \<Rightarrow> pdq_ptr" where
  "pdqListFindName list class t nm = find_name_loop list class t nm []"

fun find_ip_loop :: "PDQ_rr list \<Rightarrow> u16 \<Rightarrow> u16 \<Rightarrow> (PDQ_rr \<Rightarrow> bool) \<Rightarrow> PDQ_rr list" where
  "find_ip_loop [] class t found = []"
| "find_ip_loop (r # rest) class t found =
     (if is_query r then find_ip_loop rest class t found
      else if \<not> (rr_type r = t \<or> t = PDQ_TYPE_5A \<and> is_5A r) then find_ip_loop rest class t found
      else if \<not> class_matches class r then find_ip_loop rest class t found
      else if found r then r # rest
      else find_ip_loop rest class t found)"

definition pdqListFindIP :: "PDQ_rr list \<Rightarrow> u16 \<Rightarrow> u16 \<Rightarrow> u8 list \<Rightarrow> PDQ_rr list" where
  "pdqListFindIP list class t ipv6 =
     (if t \<noteq> PDQ_TYPE_A \<and> t \<noteq> PDQ_TYPE_AAAA \<and> t \<noteq> PDQ_TYPE_5A then []
      else find_ip_loop list class t (\<lambda>r. ipv6 = rr_ip r))"

definition pdqListFindAddress :: "PDQ_rr list \<Rightarrow> u16 \<Rightarrow> u16 \<Rightarrow> string option \<Rightarrow> PDQ_rr list" where
  "pdqListFindAddress list class t ip =
     (if t \<noteq> PDQ_TYPE_A \<and> t \<noteq> PDQ_TYPE_AAAA \<and> t \<noteq> PDQ_TYPE_5A then []
      else find_ip_loop list class t
             (\<lambda>r. TextInsensitiveCompare ip (Some (rr_address r)) = 0))"

fun find_host_loop :: "PDQ_rr list \<Rightarrow> u16 \<Rightarrow> u16 \<Rightarrow> string option \<Rightarrow> PDQ_rr list" where
  "find_host_loop [] class t host = []"
| "find_host_loop (r # rest) class t host =
     (if is_query r then find_host_loop rest class t host
      else if t \<noteq> PDQ_TYPE_ANY \<and> rr_type r \<noteq> t then find_host_loop rest class t host
      else if \<not> class_matches class r then find_host_loop rest class t host
      else if TextInsensitiveCompare (Some (rr_chost r)) host = 0 then r # rest
      else find_host_loop rest class t host)"

definition pdqListFindHost :: "PDQ_rr list \<Rightarrow> u16 \<Rightarrow> u16 \<Rightarrow> string option \<Rightarrow> PDQ_rr list" where
  "pdqListFindHost list class t host =
     (if t \<in> {PDQ_TYPE_CNAME, PDQ_TYPE_DNAME, PDQ_TYPE_MX, PDQ_TYPE_NS, PDQ_TYPE_PTR, PDQ_TYPE_SOA}
      then find_host_loop list class t host else [])"

text \<open>\<^verbatim>\<open>pdqListPruneMatch\<close>: \<open>kept\<close> are the records before \<open>prev\<close>; the search for an address runs over
  the list as it is at that moment.\<close>

lemma length_pdqListPruneQuery: "length (pdqListPruneQuery list) \<le> length list - 1"
  by (induction list) (auto split: if_splits)

function prune_match_loop :: "PDQ_rr list \<Rightarrow> PDQ_rr list \<Rightarrow> PDQ_rr list" where
  "prune_match_loop kept [] = kept"
| "prune_match_loop kept (r # rest) =
     (if is_query r then
        (if rr_rcode r \<noteq> PDQ_RCODE_OK then prune_match_loop kept (pdqListPruneQuery (r # rest))
         else prune_match_loop (kept @ [r]) rest)
      else if is_alias r then prune_match_loop kept rest
      else if (rr_type r = PDQ_TYPE_MX \<or> rr_type r = PDQ_TYPE_NS \<or> rr_type r = PDQ_TYPE_SOA)
           \<and> PDQ_RR_IS_NOT_VALID
               (pdqListFindName (kept @ r # rest) (rr_class r) PDQ_TYPE_5A (rr_chost r))
      then prune_match_loop kept rest
      else prune_match_loop (kept @ [r]) rest)"
  by pat_completeness auto
termination
proof (relation "measure (\<lambda>(kept, list). length list)", goal_cases)
  case (2 kept r rest)
  show ?case using length_pdqListPruneQuery [of "r # rest"] by simp
qed auto

definition pdqListPruneMatch :: "PDQ_rr list \<Rightarrow> PDQ_rr list" where
  "pdqListPruneMatch list = prune_match_loop [] list"

definition pdqListPrune :: "PDQ_rr list \<Rightarrow> u32 \<Rightarrow> PDQ_rr list" where
  "pdqListPrune list is_ip_mask =
     pdqListPruneMatch (pdqListPrune5A (pdqListPruneDup list) is_ip_mask True)"

section \<open>Walking and linking\<close>

fun pdqListGet :: "PDQ_rr list \<Rightarrow> nat \<Rightarrow> PDQ_rr list" where
  "pdqListGet [] index = []"
| "pdqListGet (r # rest) index = (if 0 < index then pdqListGet rest (index - 1) else r # rest)"

fun pdqListLast :: "PDQ_rr list \<Rightarrow> PDQ_rr list" where
  "pdqListLast [] = []"
| "pdqListLast (r # rest) = (if rest \<noteq> [] then pdqListLast rest else [r])"

definition pdqListAppend :: "PDQ_rr list \<Rightarrow> PDQ_rr list \<Rightarrow> PDQ_rr list" where
  "pdqListAppend a b =
     (if a = [] then b
      else if b \<noteq> [] then take (length a - length (pdqListLast a)) a @ pdqListLast a @ b
      else a)"

fun reverse_loop :: "PDQ_rr list \<Rightarrow> PDQ_rr list \<Rightarrow> PDQ_rr list" where
  "reverse_loop [] prev = prev"
| "reverse_loop (r # rest) prev = reverse_loop rest (r # prev)"

definition pdqListReverse :: "PDQ_rr list \<Rightarrow> PDQ_rr list" where
  "pdqListReverse list = reverse_loop list []"

text \<open>\<^verbatim>\<open>pdqListRemove\<close>: the record is given by its position, as the code compares addresses.\<close>

fun pdqListRemove :: "PDQ_rr list \<Rightarrow> nat \<Rightarrow> PDQ_rr list" where
  "pdqListRemove [] i = []"
| "pdqListRemove (r # rest) i = (if i = 0 then rest else r # pdqListRemove rest (i - 1))"

text \<open>\<^verbatim>\<open>pdqIsCircular\<close>: does following some alias of the list end in one of the special pointers? The
  code takes the host of a query record whose type is CNAME, which has none.\<close>

fun is_circular_loop :: "PDQ_rr list \<Rightarrow> PDQ_rr list \<Rightarrow> fault + bool" where
  "is_circular_loop rrs [] = Inr False"
| "is_circular_loop rrs (r # rest) =
     (if is_alias r then
        (if data_struct (rr_data r) = S_QUERY then Inl OutOfBounds
         else
           let p = pdqListFindName rrs (rr_class r) PDQ_TYPE_5A (rr_chost r)
           in if p = PDQ_CNAME_TOO_DEEP \<or> p = PDQ_CNAME_IS_CIRCULAR then Inr True
              else is_circular_loop rrs rest)
      else is_circular_loop rrs rest)"

definition pdqIsCircular :: "PDQ_rr list \<Rightarrow> fault + bool" where
  "pdqIsCircular rrs = is_circular_loop rrs rrs"

section \<open>Equality of records\<close>

lemma NUL_notin_cstring_of [simp]: "NUL \<notin> set (cstring_of s)"
  by (auto simp: cstring_of_def dest: set_takeWhileD)

lemma cname_compare:
  "TextInsensitiveCompare (Some (cstring_of s)) (Some (cstring_of t)) = 0 \<longleftrightarrow>
     map tolower (cstring_of s) = map tolower (cstring_of t)"
  by (simp add: TextInsensitiveCompare_def TextInsensitiveCompareN_def casecmp_loop_eq_0)

lemma pdqEqual_iff:
  "pdqEqual a b \<longleftrightarrow>
     rr_type a = rr_type b \<and> rr_class a = rr_class b
     \<and> map tolower (rr_cname a) = map tolower (rr_cname b)
     \<and> (is_query a \<longleftrightarrow> is_query b) \<and> (is_query a \<or> same_data a b)"
  by (auto simp: pdqEqual_def cname_compare)

lemma same_data_equiv:
  "same_data a a"
  "rr_type a = rr_type b \<Longrightarrow> same_data a b \<Longrightarrow> same_data b a"
  "rr_type a = rr_type b \<Longrightarrow> same_data a b \<Longrightarrow> same_data b c \<Longrightarrow> same_data a c"
  by (simp_all add: same_data_def Let_def split: if_splits)

lemma pdqEqual_refl [simp]: "pdqEqual a a"
  by (simp add: pdqEqual_iff same_data_equiv)

lemma pdqEqual_sym: "pdqEqual a b \<longleftrightarrow> pdqEqual b a"
  unfolding pdqEqual_iff by (metis same_data_equiv(2))

lemma pdqEqual_trans [trans]: "pdqEqual a b \<Longrightarrow> pdqEqual b c \<Longrightarrow> pdqEqual a c"
  unfolding pdqEqual_iff by (metis same_data_equiv(3))

lemma pdqListIsMember_iff: "pdqListIsMember list r \<longleftrightarrow> (\<exists>x \<in> set list. pdqEqual x r)"
  by (induction list) auto

section \<open>Duplicates\<close>

lemma PruneDup_subseq: "subseq (pdqListPruneDup list) list"
proof (induction list rule: pdqListPruneDup.induct)
  case (2 r1 rest)
  have "subseq (prune_equal r1 rest) rest" by (simp add: prune_equal_filter)
  with 2 show ?case by (simp add: subseq_order.trans)
qed simp

lemma PruneDup_member:
  "(\<exists>x \<in> set (pdqListPruneDup list). pdqEqual x r) \<longleftrightarrow> (\<exists>x \<in> set list. pdqEqual x r)"
proof (induction list rule: pdqListPruneDup.induct)
  case (2 r1 rest)
  then show ?case
    by (auto simp: prune_equal_filter) (metis pdqEqual_sym pdqEqual_trans)
qed simp

lemma PruneDup_unique: "sorted_wrt (\<lambda>a b. \<not> pdqEqual a b) (pdqListPruneDup list)"
proof (induction list rule: pdqListPruneDup.induct)
  case (2 r1 rest)
  have "set (pdqListPruneDup (prune_equal r1 rest)) \<subseteq> set (prune_equal r1 rest)"
    by (auto elim: list_emb_set [OF PruneDup_subseq])
  with 2 show ?case by (auto simp: prune_equal_filter)
qed simp

text \<open>\<open>pdqListPruneDup\<close> leaves a list without two equal records, in the order of the original and
  with the same members up to \<open>pdqEqual\<close>; the head of the list stays.\<close>

lemma pdqListPruneDup_unique:
  "sorted_wrt (\<lambda>a b. \<not> pdqEqual a b) (pdqListPruneDup list) \<and> subseq (pdqListPruneDup list) list \<and>
   pdqListIsMember (pdqListPruneDup list) r = pdqListIsMember list r \<and>
   take 1 (pdqListPruneDup list) = take 1 list"
  unfolding pdqListIsMember_iff
  by (intro conjI PruneDup_unique PruneDup_subseq PruneDup_member) (cases list; simp)

section \<open>Sections, types and links\<close>

lemma pdqListReverse_rev [simp]: "pdqListReverse list = rev list"
proof -
  have "reverse_loop list prev = rev list @ prev" for prev
    by (induction list arbitrary: prev) simp_all
  then show ?thesis by (simp add: pdqListReverse_def)
qed

lemma pdqListGet_drop: "pdqListGet list i = drop i list"
  by (induction list i rule: pdqListGet.induct) (auto simp: drop_Cons' split: nat.splits)

lemma pdqListLast_last: "pdqListLast list = (if list = [] then [] else [last list])"
  by (induction list) auto

lemma pdqListAppend_append [simp]: "pdqListAppend a b = a @ b"
proof (cases "a = []")
  case False
  then have "take (length a - 1) a @ [last a] = a"
    by (metis append_butlast_last_id butlast_conv_take)
  then show ?thesis using False
    by (simp add: pdqListAppend_def pdqListLast_last)
qed (simp add: pdqListAppend_def)

lemma pdqListRemove_take_drop: "pdqListRemove list i = take i list @ drop (Suc i) list"
  by (induction list i rule: pdqListRemove.induct) (auto simp: take_Cons' drop_Cons')

lemma pdqListLength_length: "pdqListLength list = length list"
proof -
  have "foldl (\<lambda>count _. count + 1) n list = n + length list" for n
    by (induction list arbitrary: n) simp_all
  then show ?thesis by (simp add: pdqListLength_def)
qed

lemma prune_section_loop_eq:
  "prune_section_loop head list sect =
     (if \<exists>r \<in> set list. rr_section r = sect
      then rev (takeWhile (\<lambda>r. rr_section r \<noteq> sect) (rev list)) else head)"
proof (induction head list sect rule: prune_section_loop.induct)
  case (2 head r rest sect)
  have tw: "takeWhile (\<lambda>r. rr_section r \<noteq> sect) (rev rest @ [r]) =
      (if \<exists>x \<in> set rest. rr_section x = sect
       then takeWhile (\<lambda>r. rr_section r \<noteq> sect) (rev rest)
       else rev rest @ takeWhile (\<lambda>r. rr_section r \<noteq> sect) [r])"
    by (simp add: takeWhile_append takeWhile_eq_all_conv)
  show ?case using 2 by (simp add: tw)
qed simp

text \<open>\<open>pdqListPruneSection\<close> leaves the records behind the last one of the section, so it loses
  records of other sections that stand before one it prunes; it is right only where the section comes
  first.\<close>

lemma pdqListPruneSection_tail:
  "pdqListPruneSection list sect =
     (if list_ex (\<lambda>r. rr_section r = sect) list
      then rev (takeWhile (\<lambda>r. rr_section r \<noteq> sect) (rev list)) else list)"
  by (simp add: pdqListPruneSection_def prune_section_loop_eq list_ex_iff)

lemma pdqListPruneSection_first:
  assumes "\<forall>r \<in> set a. rr_section r = sect" "\<forall>r \<in> set b. rr_section r \<noteq> sect"
  shows "pdqListPruneSection (a @ b) sect = b"
proof (cases "a = []")
  case True
  then show ?thesis using assms(2) by (auto simp: pdqListPruneSection_def prune_section_loop_eq)
next
  case False
  then obtain x a' where "rev a = x # a'" by (metis neq_Nil_conv rev_is_Nil_conv)
  then have "rr_section x = sect" using assms(1) by (metis list.set_intros(1) set_rev)
  with assms \<open>rev a = x # a'\<close> False show ?thesis
    by (simp add: pdqListPruneSection_def prune_section_loop_eq takeWhile_append)
qed

lemma keep_type_loop_mask:
  "keep_type_loop ms b keep t \<longleftrightarrow> keep_mask_loop ms b t AND keep \<noteq> 0" if "distinct ms"
  using that
proof (induction ms arbitrary: b)
  case (Cons m ms)
  have "keep_mask_loop ms b t = 0" if "t \<notin> set ms" for b
    using that by (induction ms arbitrary: b) auto
  with Cons show ?case by auto
qed simp

lemma pdqKeepType_mask: "pdqKeepType keep t \<longleftrightarrow> pdqKeepMask t AND keep \<noteq> 0"
  unfolding pdqKeepType_def pdqKeepMask_def
  by (rule keep_type_loop_mask) (simp add: keepMap_def pdq_types)

lemma pdqListKeepType_filter:
  "pdqListKeepType list keep = [r \<leftarrow> list. pdqKeepMask (rr_type r) AND keep \<noteq> 0]"
  by (induction list) (auto simp: pdqKeepType_mask)

lemma pdqListPrune5A_filter:
  "pdqListPrune5A list is_ip_mask must_have_ip =
     [r \<leftarrow> list. is_query r \<or> \<not> is_5A r \<or> \<not> isReservedIPv6 (Some (rr_ip r)) is_ip_mask]"
  by (induction list) (auto simp: is_5A_def)

section \<open>Following aliases\<close>

text \<open>\<open>alias_trail rrs cl start cs nm\<close>: from the name \<open>start\<close>, aliases of the list lead through the
  names \<open>cs\<close> to \<open>nm\<close>.\<close>

inductive alias_trail :: "PDQ_rr list \<Rightarrow> u16 \<Rightarrow> string \<Rightarrow> string list \<Rightarrow> string \<Rightarrow> bool"
  for rrs :: "PDQ_rr list" and cl :: u16 and start :: string where
  trail_start: "alias_trail rrs cl start [] start"
| trail_step: "alias_trail rrs cl start cs nm \<Longrightarrow> r \<in> set rrs \<Longrightarrow> \<not> is_query r \<Longrightarrow> is_alias r \<Longrightarrow>
    class_matches cl r \<Longrightarrow> name_matches (rr_cname r) nm \<Longrightarrow>
    alias_trail rrs cl start (cs @ [nm]) (rr_chost r)"

text \<open>A record that answers the question for the name.\<close>

definition answers :: "u16 \<Rightarrow> u16 \<Rightarrow> string \<Rightarrow> PDQ_rr \<Rightarrow> bool" where
  "answers cl t nm r \<longleftrightarrow>
     \<not> is_query r \<and> class_matches cl r \<and> type_matches t r \<and> name_matches (rr_cname r) nm"

definition find_name_post :: "PDQ_rr list \<Rightarrow> u16 \<Rightarrow> u16 \<Rightarrow> string \<Rightarrow> pdq_ptr \<Rightarrow> bool" where
  "find_name_post rrs cl t start p =
     (case p of
        PDQ_NULL \<Rightarrow> True
      | PDQ_CNAME_TOO_DEEP \<Rightarrow> \<exists>cs nm. alias_trail rrs cl start cs nm \<and> length cs = 11
      | PDQ_CNAME_IS_CIRCULAR \<Rightarrow>
          \<exists>cs nm. alias_trail rrs cl start cs nm
            \<and> (\<exists>c \<in> set cs. TextInsensitiveCompare (Some nm) (Some c) = 0)
      | PDQ_AT rs \<Rightarrow>
          \<exists>cs nm. alias_trail rrs cl start cs nm \<and> length cs \<le> MAX_CNAME_DEPTH
            \<and> rs \<noteq> [] \<and> suffix rs rrs \<and> answers cl t nm (hd rs))"

lemma find_name_loop_sound:
  assumes "alias_trail rrs cl start cnames nm" "suffix l rrs" "length cnames \<le> MAX_CNAME_DEPTH"
  shows "find_name_post rrs cl t start (find_name_loop l cl t nm cnames)"
  using assms
proof (induction l cl t nm cnames rule: find_name_loop.induct)
  case (2 r rest cl t nm cnames)
  have suf: "suffix rest rrs" and mem: "r \<in> set rrs"
    using "2.prems"(2) by (auto dest: suffix_ConsD set_mono_suffix)
  show ?case
  proof (cases "\<not> is_query r \<and> name_matches (rr_cname r) nm \<and> class_matches cl r")
    case False
    then show ?thesis using "2.IH" "2.prems" suf by auto
  next
    case hit: True
    show ?thesis
    proof (cases "type_matches t r")
      case True
      then have "find_name_loop (r # rest) cl t nm cnames = PDQ_AT (r # rest)"
        using hit by simp
      then show ?thesis using "2.prems" hit True
        unfolding find_name_post_def answers_def by auto
    next
      case other: False
      show ?thesis
      proof (cases "is_alias r")
        case True
        have tr: "alias_trail rrs cl start (cnames @ [nm]) (rr_chost r)"
          using "2.prems"(1) mem hit True by (intro trail_step) auto
        consider (deep) "MAX_CNAME_DEPTH \<le> length cnames"
          | (loop) "length cnames < MAX_CNAME_DEPTH"
              "list_ex (\<lambda>c. TextInsensitiveCompare (Some (rr_chost r)) (Some c) = 0) (cnames @ [nm])"
          | (next_name) "length cnames < MAX_CNAME_DEPTH"
              "\<not> list_ex (\<lambda>c. TextInsensitiveCompare (Some (rr_chost r)) (Some c) = 0) (cnames @ [nm])"
          by linarith
        then show ?thesis
        proof cases
          case deep
          then have "length (cnames @ [nm]) = 11"
            using "2.prems"(3) by (simp add: MAX_CNAME_DEPTH_def)
          then show ?thesis using tr deep hit other True
            unfolding find_name_post_def by (auto simp: Let_def)
        next
          case loop
          then have "find_name_loop (r # rest) cl t nm cnames = PDQ_CNAME_IS_CIRCULAR"
            using hit other True by (auto simp: Let_def)
          then show ?thesis using tr loop(2)
            unfolding find_name_post_def list_ex_iff by fastforce
        next
          case next_name
          then have "find_name_post rrs cl t start
              (find_name_loop rest cl t (rr_chost r) (cnames @ [nm]))"
            using "2.IH"(3) [OF _ _ _ _ _ _ refl refl] hit other True tr suf by simp
          then show ?thesis using next_name hit other True by (simp add: Let_def)
        qed
      next
        case False
        then show ?thesis using "2.IH" "2.prems" suf hit other by auto
      qed
    qed
  qed
qed (simp add: find_name_post_def)

lemma find_name_loop_queries:
  "list_all is_query qs \<Longrightarrow> find_name_loop (qs @ l) cl t nm cnames = find_name_loop l cl t nm cnames"
  by (induction qs) simp_all

text \<open>A chain of aliases in the order in which they are followed, and the name at its end.\<close>

fun alias_chain :: "u16 \<Rightarrow> string \<Rightarrow> PDQ_rr list \<Rightarrow> bool" where
  "alias_chain cl nm [] = True"
| "alias_chain cl nm (a # as) =
     (\<not> is_query a \<and> is_alias a \<and> class_matches cl a \<and> name_matches (rr_cname a) nm
      \<and> alias_chain cl (rr_chost a) as)"

fun chain_end :: "string \<Rightarrow> PDQ_rr list \<Rightarrow> string" where
  "chain_end nm [] = nm"
| "chain_end nm (a # as) = chain_end (rr_chost a) as"

lemma find_name_loop_chain:
  assumes "alias_chain cl nm as" "length cnames + length as \<le> MAX_CNAME_DEPTH"
    and "\<not> list_ex (type_matches t) as"
    and "distinct (map (map tolower) (cnames @ nm # map rr_chost as))"
    and "list_all (\<lambda>c. NUL \<notin> set c) (nm # cnames)"
    and "answers cl t (chain_end nm as) r"
  shows "find_name_loop (as @ r # rest) cl t nm cnames = PDQ_AT (r # rest)"
  using assms
proof (induction as arbitrary: nm cnames)
  case Nil
  then show ?case by (simp add: answers_def)
next
  case (Cons a as)
  have "TextInsensitiveCompare (Some (rr_chost a)) (Some c) \<noteq> 0" if "c \<in> set (cnames @ [nm])" for c
  proof -
    have "map tolower (rr_chost a) \<noteq> map tolower c" using that Cons.prems(4) by auto
    moreover have "NUL \<notin> set c" using that Cons.prems(5) by (auto simp: list_all_iff)
    ultimately show ?thesis
      by (simp add: TextInsensitiveCompare_def TextInsensitiveCompareN_def casecmp_loop_eq_0)
  qed
  then have new: "\<not> list_ex (\<lambda>c. TextInsensitiveCompare (Some (rr_chost a)) (Some c) = 0) (cnames @ [nm])"
    by (auto simp: list_ex_iff)
  have "find_name_loop (as @ r # rest) cl t (rr_chost a) (cnames @ [nm]) = PDQ_AT (r # rest)"
    using Cons.prems by (intro Cons.IH) (auto simp: list_all_iff)
  then show ?case using Cons.prems new by (simp add: Let_def)
qed


text \<open>C10: \<open>pdqListFindName\<close> returns a record of the list that answers the question for a name which the
  aliases of the list lead to from the given one over at most ten steps; it reports a loop only when an
  alias leads back to a name already met, and too many only after eleven aliases.\<close>

theorem pdqListFindName_sound:
  "find_name_post rrs cl t nm (pdqListFindName rrs cl t nm)"
  unfolding pdqListFindName_def
  by (rule find_name_loop_sound) (auto intro: trail_start)


definition name_of :: "string \<Rightarrow> PDQ_name" where
  "name_of s = \<lparr>name_length = of_nat (length s),
     name_value = s @ replicate (DOMAIN_SIZE - length s) NUL\<rparr>"

definition ex_rr :: "PDQ_section \<Rightarrow> string \<Rightarrow> u16 \<Rightarrow> pdq_data \<Rightarrow> PDQ_rr" where
  "ex_rr s nm t d = \<lparr>rr_section = s, rr_name = name_of nm, rr_class = PDQ_CLASS_IN, rr_type = t,
     rr_ttl = 0, rr_data = d\<rparr>"

definition ex_ip :: "u8 list \<Rightarrow> pdq_data" where
  "ex_ip ip = AddressData \<lparr>ip_offset = 12, ip_value = replicate 12 0 @ ip, addr_length = 0,
     addr_value = replicate IPV6_STRING_SIZE NUL\<rparr>"

definition ex_query :: "nat \<Rightarrow> pdq_data" where
  "ex_query rcode = QueryData \<lparr>q_created = 0, q_flags = 0, q_rcode = rcode, q_qdcount = 1,
     q_ancount = 0, q_nscount = 0, q_arcount = 0\<rparr>"

lemma cstring_of_name_of [simp]: "NUL \<notin> set s \<Longrightarrow> cstring_of (name_value (name_of s)) = s"
  by (cases "DOMAIN_SIZE - length s")
    (auto simp: name_of_def cstring_of_def takeWhile_append takeWhile_eq_all_conv)

lemmas ex_simps = ex_rr_def rr_host_def rr_preference_def rr_rcode_def ex_query_def type_matches_def
  class_matches_def is_alias_def is_5A_def pdq_types pdq_classes pdq_rcodes


text \<open>An alias loop is found only when it comes back to a name met before in the same spelling: the root
  label makes a difference.\<close>

lemma pdqListFindName_root_label:
  "pdqListFindName
     [ex_rr PDQ_SECTION_ANSWER ''a.b.'' PDQ_TYPE_CNAME (HostData (name_of ''a.b.''))]
     PDQ_CLASS_IN PDQ_TYPE_5A ''a.b'' = PDQ_NULL"
  "pdqListFindName
     [ex_rr PDQ_SECTION_ANSWER ''a.b.'' PDQ_TYPE_CNAME (HostData (name_of ''a.b.''))]
     PDQ_CLASS_IN PDQ_TYPE_5A ''a.b.'' = PDQ_CNAME_IS_CIRCULAR"
proof -
  have m: "name_matches ''a.b.'' ''a.b''" "name_matches ''a.b.'' ''a.b.''" by code_simp+
  have c: "TextInsensitiveCompare (Some ''a.b.'') (Some ''a.b'') \<noteq> 0"
    "TextInsensitiveCompare (Some ''a.b.'') (Some ''a.b.'') = 0" by code_simp+
  show "pdqListFindName
     [ex_rr PDQ_SECTION_ANSWER ''a.b.'' PDQ_TYPE_CNAME (HostData (name_of ''a.b.''))]
     PDQ_CLASS_IN PDQ_TYPE_5A ''a.b'' = PDQ_NULL"
    "pdqListFindName
     [ex_rr PDQ_SECTION_ANSWER ''a.b.'' PDQ_TYPE_CNAME (HostData (name_of ''a.b.''))]
     PDQ_CLASS_IN PDQ_TYPE_5A ''a.b.'' = PDQ_CNAME_IS_CIRCULAR"
    using m c by (simp_all add: pdqListFindName_def MAX_CNAME_DEPTH_def ex_simps)
qed

section \<open>Records without an address\<close>

lemma find_name_loop_5A:
  assumes "\<not> list_ex (\<lambda>r. \<not> is_query r \<and> is_alias r) l"
  shows "PDQ_RR_IS_NOT_VALID (find_name_loop l cl PDQ_TYPE_5A nm cs) \<longleftrightarrow>
    \<not> list_ex (answers cl PDQ_TYPE_5A nm) l"
  using assms
  by (induction l) (auto simp: answers_def PDQ_RR_IS_NOT_VALID_def)

text \<open>Which records stay when there are no aliases, and every failed query stands alone.\<close>

definition keeps_record :: "PDQ_rr list \<Rightarrow> PDQ_rr \<Rightarrow> bool" where
  "keeps_record rrs r \<longleftrightarrow>
     (if is_query r then rr_rcode r = PDQ_RCODE_OK
      else rr_type r = PDQ_TYPE_MX \<or> rr_type r = PDQ_TYPE_NS \<or> rr_type r = PDQ_TYPE_SOA
           \<longrightarrow> list_ex (answers (rr_class r) PDQ_TYPE_5A (rr_chost r)) rrs)"

fun failed_alone :: "PDQ_rr list \<Rightarrow> bool" where
  "failed_alone [] = True"
| "failed_alone (r # rest) =
     ((is_query r \<and> rr_rcode r \<noteq> PDQ_RCODE_OK \<longrightarrow> rest = [] \<or> is_query (hd rest))
      \<and> failed_alone rest)"

abbreviation no_aliases :: "PDQ_rr list \<Rightarrow> bool" where
  "no_aliases rrs \<equiv> \<not> list_ex (\<lambda>r. \<not> is_query r \<and> is_alias r) rrs"

lemma not_answers_host_type:
  assumes "rr_type r = PDQ_TYPE_MX \<or> rr_type r = PDQ_TYPE_NS \<or> rr_type r = PDQ_TYPE_SOA"
  shows "\<not> answers cl PDQ_TYPE_5A nm r"
  using assms by (auto simp: answers_def type_matches_def is_5A_def pdq_types)

lemma list_ex_filter_keeps:
  assumes "\<And>r. Q r \<Longrightarrow> keeps_record rrs r"
  shows "list_ex Q (filter (keeps_record rrs) l) = list_ex Q l"
  using assms by (auto simp: list_ex_iff)

lemma answers_kept: "answers cl PDQ_TYPE_5A nm r \<Longrightarrow> keeps_record rrs r"
  by (auto simp: keeps_record_def answers_def type_matches_def is_5A_def pdq_types)

lemma prune_match_loop_filter:
  assumes "no_aliases (done @ l)" "failed_alone l" "kept = filter (keeps_record (done @ l)) done"
  shows "prune_match_loop kept l = filter (keeps_record (done @ l)) (done @ l)"
  using assms
proof (induction l arbitrary: "done" kept)
  case (Cons r rest)
  let ?keep = "keeps_record (done @ r # rest)"
  have na: "no_aliases (kept @ r # rest)" "no_aliases (done @ r # rest)"
    using Cons.prems by (auto simp: list_ex_iff)
  have valid: "PDQ_RR_IS_NOT_VALID
        (pdqListFindName (kept @ r # rest) (rr_class r) PDQ_TYPE_5A (rr_chost r)) \<longleftrightarrow>
      \<not> list_ex (answers (rr_class r) PDQ_TYPE_5A (rr_chost r)) (done @ r # rest)"
    unfolding pdqListFindName_def
    by (subst find_name_loop_5A [OF na(1)]) (simp add: Cons.prems(3) list_ex_filter_keeps answers_kept)
  have IH: "prune_match_loop (if ?keep r then kept @ [r] else kept) rest =
      filter ?keep (done @ r # rest)"
    using Cons.IH [of "done @ [r]" "if ?keep r then kept @ [r] else kept"] Cons.prems
    by (cases "?keep r") simp_all
  have "prune_match_loop kept (r # rest) =
      prune_match_loop (if ?keep r then kept @ [r] else kept) rest"
  proof (cases "is_query r")
    case True
    then have "rr_rcode r \<noteq> PDQ_RCODE_OK \<Longrightarrow> pdqListPruneQuery (r # rest) = rest"
      using Cons.prems(2) by auto
    then show ?thesis using True by (simp add: keeps_record_def del: pdqListPruneQuery.simps)
  next
    case False
    then have "\<not> is_alias r" using na(2) by simp
    then show ?thesis using False valid by (simp add: keeps_record_def)
  qed
  then show ?case using IH by simp
qed simp

text \<open>C12: In a list without aliases where a failed query has no records of its own, \<open>pdqListPruneMatch\<close>
  removes exactly the failed queries and the MX, NS and SOA records whose host has no address in the
  list; every MX, NS and SOA record it leaves has its address in the result.\<close>

theorem pdqListPruneMatch_complete:
  assumes "no_aliases rrs" and "failed_alone rrs"
  shows "pdqListPruneMatch rrs = filter (keeps_record rrs) rrs \<and>
    list_all (keeps_record (pdqListPruneMatch rrs)) (pdqListPruneMatch rrs)"
proof -
  have eq: "pdqListPruneMatch rrs = filter (keeps_record rrs) rrs"
    using prune_match_loop_filter [of "[]" rrs "[]"] assms by (simp add: pdqListPruneMatch_def)
  moreover have "keeps_record (filter (keeps_record rrs) rrs) r" if "keeps_record rrs r" for r
    using that by (auto simp: keeps_record_def list_ex_filter_keeps [OF answers_kept])
  ultimately show ?thesis by (simp add: list_all_iff)
qed

theorem pdqListPruneMatch_complete_witness:
  "pdqListPruneMatch
     [ex_rr PDQ_SECTION_QUERY ''b.'' PDQ_TYPE_MX (ex_query 0),
      ex_rr PDQ_SECTION_ANSWER ''b.'' PDQ_TYPE_MX (MxData (name_of ''m.b.'') 5),
      ex_rr PDQ_SECTION_ANSWER ''b.'' PDQ_TYPE_MX (MxData (name_of ''n.b.'') 9),
      ex_rr PDQ_SECTION_QUERY ''m.b.'' PDQ_TYPE_A (ex_query 2),
      ex_rr PDQ_SECTION_QUERY ''n.b.'' PDQ_TYPE_A (ex_query 0),
      ex_rr PDQ_SECTION_ANSWER ''n.b.'' PDQ_TYPE_A (ex_ip [192, 0, 2, 1])] =
     [ex_rr PDQ_SECTION_QUERY ''b.'' PDQ_TYPE_MX (ex_query 0),
      ex_rr PDQ_SECTION_ANSWER ''b.'' PDQ_TYPE_MX (MxData (name_of ''n.b.'') 9),
      ex_rr PDQ_SECTION_QUERY ''n.b.'' PDQ_TYPE_A (ex_query 0),
      ex_rr PDQ_SECTION_ANSWER ''n.b.'' PDQ_TYPE_A (ex_ip [192, 0, 2, 1])]"
proof -
  have m: "name_matches ''n.b.'' ''n.b.''" "\<not> name_matches ''n.b.'' ''m.b.''" by code_simp+
  show ?thesis
    by (subst pdqListPruneMatch_complete [THEN conjunct1])
      (simp_all add: keeps_record_def answers_def ex_simps m)
qed

text \<open>\<open>pdqListPruneDup\<close> takes a query that failed and the same query that was answered for one, and keeps
  the first; \<open>pdqListPruneMatch\<close> then removes the answer with the failed query.\<close>

lemma pdqListPrune_loses_answer:
  "pdqListPrune
     [ex_rr PDQ_SECTION_QUERY ''b.'' PDQ_TYPE_A (ex_query 2),
      ex_rr PDQ_SECTION_QUERY ''b.'' PDQ_TYPE_A (ex_query 0),
      ex_rr PDQ_SECTION_ANSWER ''b.'' PDQ_TYPE_A (ex_ip [192, 0, 2, 1])] 0 = []"
proof -
  have "isReservedIPv6 (Some ip) 0 = False" for ip
    by (simp add: isReservedIPv6_def isReservedIPv4_def flag_def Let_def)
  then show ?thesis
    by (simp add: pdqListPrune_def pdqListPruneMatch_def pdqEqual_iff ex_simps)
qed

text \<open>An alias is removed although an MX record that stays needs it to reach its address.\<close>

lemma pdqListPruneMatch_alias:
  "pdqListPruneMatch
     [ex_rr PDQ_SECTION_ANSWER ''b.'' PDQ_TYPE_MX (MxData (name_of ''m.b.'') 5),
      ex_rr PDQ_SECTION_ANSWER ''m.b.'' PDQ_TYPE_CNAME (HostData (name_of ''n.b.'')),
      ex_rr PDQ_SECTION_ANSWER ''n.b.'' PDQ_TYPE_A (ex_ip [192, 0, 2, 1])] =
     [ex_rr PDQ_SECTION_ANSWER ''b.'' PDQ_TYPE_MX (MxData (name_of ''m.b.'') 5),
      ex_rr PDQ_SECTION_ANSWER ''n.b.'' PDQ_TYPE_A (ex_ip [192, 0, 2, 1])]"
  "pdqListFindName
     [ex_rr PDQ_SECTION_ANSWER ''b.'' PDQ_TYPE_MX (MxData (name_of ''m.b.'') 5),
      ex_rr PDQ_SECTION_ANSWER ''n.b.'' PDQ_TYPE_A (ex_ip [192, 0, 2, 1])]
     PDQ_CLASS_IN PDQ_TYPE_5A ''m.b.'' = PDQ_NULL"
proof -
  have m: "name_matches ''n.b.'' ''n.b.''" "\<not> name_matches ''n.b.'' ''m.b.''"
    "name_matches ''m.b.'' ''m.b.''" "\<not> name_matches ''b.'' ''m.b.''" by code_simp+
  have c: "TextInsensitiveCompare (Some ''n.b.'') (Some ''m.b.'') \<noteq> 0" by code_simp
  show "pdqListPruneMatch
     [ex_rr PDQ_SECTION_ANSWER ''b.'' PDQ_TYPE_MX (MxData (name_of ''m.b.'') 5),
      ex_rr PDQ_SECTION_ANSWER ''m.b.'' PDQ_TYPE_CNAME (HostData (name_of ''n.b.'')),
      ex_rr PDQ_SECTION_ANSWER ''n.b.'' PDQ_TYPE_A (ex_ip [192, 0, 2, 1])] =
     [ex_rr PDQ_SECTION_ANSWER ''b.'' PDQ_TYPE_MX (MxData (name_of ''m.b.'') 5),
      ex_rr PDQ_SECTION_ANSWER ''n.b.'' PDQ_TYPE_A (ex_ip [192, 0, 2, 1])]"
    using m c by (simp add: pdqListPruneMatch_def pdqListFindName_def PDQ_RR_IS_NOT_VALID_def
        MAX_CNAME_DEPTH_def ex_simps)
  show "pdqListFindName
     [ex_rr PDQ_SECTION_ANSWER ''b.'' PDQ_TYPE_MX (MxData (name_of ''m.b.'') 5),
      ex_rr PDQ_SECTION_ANSWER ''n.b.'' PDQ_TYPE_A (ex_ip [192, 0, 2, 1])]
     PDQ_CLASS_IN PDQ_TYPE_5A ''m.b.'' = PDQ_NULL"
    using m by (simp add: pdqListFindName_def ex_simps)
qed

section \<open>Copies\<close>

lemma pdqDup_record:
  assumes "rr_ok r" "\<not> is_query r" "rr_type r \<noteq> PDQ_TYPE_TXT" "rr_type r \<noteq> PDQ_TYPE_NULL"
  shows "pdqDup (b # oks) r = Inr (if b then Some r else None, oks)"
  using assms by (cases b) (simp_all add: pdqDup_def rr_ok_def)

text \<open>A copy of a list of such records: all of it, or, when memory runs out after the first, what was
  copied before the last copy made and a pointer to that copy, which has been freed.\<close>

lemma pdqListClone_records:
  assumes "list_all (\<lambda>r. rr_ok r \<and> \<not> is_query r \<and> rr_type r \<noteq> PDQ_TYPE_TXT
      \<and> rr_type r \<noteq> PDQ_TYPE_NULL) rrs"
  shows "pdqListClone (replicate (length rrs) True @ oks) rrs = Inr ((rrs, False), oks)"
    and "Suc n < length rrs \<Longrightarrow>
      pdqListClone (replicate (Suc n) True @ False # oks) rrs = Inr ((take n rrs, True), oks)"
proof -
  show "pdqListClone (replicate (length rrs) True @ oks) rrs = Inr ((rrs, False), oks)"
    using assms by (induction rrs) (auto simp: pdqDup_record)
  show "pdqListClone (replicate (Suc n) True @ False # oks) rrs = Inr ((take n rrs, True), oks)"
    if "Suc n < length rrs"
    using assms that
  proof (induction rrs arbitrary: n)
    case (Cons r rest)
    then obtain x xs where rest: "rest = x # xs" by (cases rest) auto
    show ?case
    proof (cases n)
      case 0
      then show ?thesis using Cons.prems rest by (simp add: pdqDup_record)
    next
      case (Suc m)
      then show ?thesis using Cons rest by (simp add: pdqDup_record)
    qed
  qed simp
qed

text \<open>A query record is smaller than the structure of most types, and of a text query the code takes the
  time and the flags for the length and the address of a text.\<close>

lemma pdqDup_query:
  "pdqDup [True, True] (ex_rr PDQ_SECTION_QUERY ''b.'' PDQ_TYPE_A (ex_query 0)) = Inl OutOfBounds"
  "pdqDup [True, True] (ex_rr PDQ_SECTION_QUERY ''b.'' PDQ_TYPE_TXT (ex_query 0)) = Inl OutOfBounds"
  by (simp_all add: pdqDup_def pdqStructOfType_def ex_simps)

end
