(* ===== verification/DnsPackets.thy ===== *)
theory DnsPackets
  imports DnsLists "HOL-Library.While_Combinator"
begin

text \<open>
  The wire format of \<^verbatim>\<open>net/pdq.c\<close>: building a query, reading names with compression pointers, and parsing
  a reply into records.

  \<^item> A packet is the list \<open>mem\<close> of the octets of its buffer from the header on, and \<open>plen\<close>, the length
    that was received (\<open>packet->length\<close>). A pointer into the packet is an index. The code compares
    pointers with \<open>plen\<close>; what it reads behind \<open>plen\<close> is whatever the buffer holds, what it reads behind
    the buffer is \<open>OutOfBounds\<close>.
  \<^item> A name buffer is zero when it is filled, so its contents are the characters written and nulls.
\<close>

section \<open>Reading octets\<close>

definition octet_at :: "u8 list \<Rightarrow> nat \<Rightarrow> fault + u8" where
  "octet_at mem p = (case drop p mem of [] \<Rightarrow> Inl OutOfBounds | b # _ \<Rightarrow> Inr b)"

definition get_short :: "u8 list \<Rightarrow> nat \<Rightarrow> fault + u16" where
  "get_short mem p =
     (if p + 2 \<le> length mem then Inr (NET_GET_SHORT (drop p mem)) else Inl OutOfBounds)"

definition get_long :: "u8 list \<Rightarrow> nat \<Rightarrow> fault + u32" where
  "get_long mem p =
     (if p + 4 \<le> length mem then Inr (ucast (NET_GET_LONG (drop p mem))) else Inl OutOfBounds)"

definition octet_char :: "u8 \<Rightarrow> char" where
  "octet_char b = chr (unat b)"

definition char_octet :: "char \<Rightarrow> u8" where
  "char_octet c = of_nat (ord c)"

text \<open>\<open>strncpy\<close> of \<open>n\<close> octets: up to a null, then nulls.\<close>

definition strncpy_from :: "u8 list \<Rightarrow> nat \<Rightarrow> nat \<Rightarrow> fault + string" where
  "strncpy_from mem p n =
     (let src = take n (drop p mem);
          txt = takeWhile (\<lambda>b. b \<noteq> 0) src
      in if length txt < n \<and> length txt = length src then Inl OutOfBounds
         else Inr (map octet_char txt @ replicate (n - length txt) NUL))"

definition memcpy_from :: "u8 list \<Rightarrow> nat \<Rightarrow> nat \<Rightarrow> fault + u8 list" where
  "memcpy_from mem p n =
     (if p + n \<le> length mem then Inr (take n (drop p mem)) else Inl OutOfBounds)"

section \<open>Names\<close>

text \<open>\<^verbatim>\<open>pdq_name_copy\<close>. The state of its loop is the pointer, the characters written, and how the loop was
  left early: with a fault, or with the error for a full buffer. \<open>remaining\<close> is \<open>size\<close> less the
  characters written.\<close>

type_synonym name_state = "nat \<times> string \<times> (fault + unit) option"

definition name_copy_guard :: "u8 list \<Rightarrow> nat \<Rightarrow> name_state \<Rightarrow> bool" where
  "name_copy_guard mem plen =
     (\<lambda>(ptr, out, left). left = None \<and> ptr < plen \<and> octet_at mem ptr \<noteq> Inr 0)"

definition name_copy_step :: "u8 list \<Rightarrow> nat \<Rightarrow> name_state \<Rightarrow> name_state" where
  "name_copy_step mem sz =
     (\<lambda>(ptr, out, left).
        case octet_at mem ptr of
          Inl e \<Rightarrow> (ptr, out, Some (Inl e))
        | Inr n \<Rightarrow>
            if n AND 0xc0 = 0xc0 then
              (case get_short mem ptr of
                 Inl e \<Rightarrow> (ptr, out, Some (Inl e))
               | Inr s \<Rightarrow> (unat (s AND 0x3fff), out, None))
            else if sz - length out \<le> unat n then (ptr, out, Some (Inr ()))
            else
              (case strncpy_from mem (ptr + 1) (unat n) of
                 Inl e \<Rightarrow> (ptr, out, Some (Inl e))
               | Inr txt \<Rightarrow> (ptr + unat n + 1, out @ txt @ ''.'', None)))"

definition pdq_name_copy :: "u8 list \<Rightarrow> nat \<Rightarrow> nat \<Rightarrow> nat \<Rightarrow> fault + int \<times> string" where
  "pdq_name_copy mem plen ptr sz =
     (case while_option (name_copy_guard mem plen) (name_copy_step mem sz) (ptr, [], None) of
        None \<Rightarrow> Inl NoReturn
      | Some (ptr, out, Some (Inl e)) \<Rightarrow> Inl e
      | Some (ptr, out, Some (Inr _)) \<Rightarrow> Inr (-1, out)
      | Some (ptr, out, None) \<Rightarrow>
          if plen \<le> ptr then (if length out < sz then Inr (-1, out) else Inl OutOfBounds)
          else
            let out = (if out = [] then ''.'' else out)
            in if sz \<le> length out then Inr (-1, out) else Inr (int (length out), out))"

text \<open>The name structure the callers fill: \<open>size\<close> is that of the buffer, the length is stored in 16 bits.\<close>

definition copy_name :: "u8 list \<Rightarrow> nat \<Rightarrow> nat \<Rightarrow> fault + PDQ_name" where
  "copy_name mem plen ptr =
     andthen (pdq_name_copy mem plen ptr DOMAIN_SIZE) (\<lambda>(n, out).
       Inr \<lparr>name_length = word_of_int n, name_value = out @ replicate (DOMAIN_SIZE - length out) NUL\<rparr>)"

text \<open>\<^verbatim>\<open>pdq_name_skip\<close>: the next field after a name, or null.\<close>

function name_skip_loop :: "u8 list \<Rightarrow> nat \<Rightarrow> nat \<Rightarrow> fault + nat" where
  "name_skip_loop mem plen ptr =
     (if ptr < plen then
        (case octet_at mem ptr of
           Inl e \<Rightarrow> Inl e
         | Inr n \<Rightarrow>
             if n = 0 then Inr ptr
             else if n AND 0xc0 = 0xc0 then Inr (ptr + 1)
             else name_skip_loop mem plen (ptr + (unat n + 1)))
      else Inr ptr)"
  by pat_completeness auto
termination
  by (relation "measure (\<lambda>(mem, plen, ptr). plen - ptr)") auto

declare name_skip_loop.simps [simp del]

definition pdq_name_skip :: "u8 list \<Rightarrow> nat \<Rightarrow> nat \<Rightarrow> fault + nat option" where
  "pdq_name_skip mem plen ptr =
     (if plen < ptr then Inr None
      else
        andthen (name_skip_loop mem plen ptr) (\<lambda>ptr.
          if plen < ptr + 1 then Inr None else Inr (Some (ptr + 1))))"

text \<open>\<^verbatim>\<open>pdq_txt_create\<close>: the strings of a TXT record, one after the other; \<open>None\<close> is the error for a length
  that does not fit.\<close>

function txt_loop :: "u8 list \<Rightarrow> nat \<Rightarrow> nat \<Rightarrow> nat \<Rightarrow> u8 list \<Rightarrow> fault + u8 list option" where
  "txt_loop mem rdata stop rdlength txt =
     (if rdata < stop then
        (case octet_at mem rdata of
           Inl e \<Rightarrow> Inl e
         | Inr n \<Rightarrow>
             if rdlength \<le> length txt + unat n then Inr None
             else
               (case memcpy_from mem (rdata + 1) (unat n) of
                  Inl e \<Rightarrow> Inl e
                | Inr s \<Rightarrow> txt_loop mem (rdata + (unat n + 1)) stop rdlength (txt @ s)))
      else Inr (Some txt))"
  by pat_completeness auto
termination
  by (relation "measure (\<lambda>(mem, rdata, stop, rdlength, txt). stop - rdata)") auto

declare txt_loop.simps [simp del]

definition pdq_txt_create :: "bool \<Rightarrow> u8 list \<Rightarrow> nat \<Rightarrow> nat \<Rightarrow> fault + pdq_data option" where
  "pdq_txt_create ok mem rdata rdlength =
     (if \<not> ok then Inr None
      else
        andthen (txt_loop mem rdata (rdata + rdlength) rdlength []) (\<lambda>r.
          case r of
            None \<Rightarrow> Inr None
          | Some txt \<Rightarrow> Inr (Some (TextData (length txt) (Some (txt @ [0]))))))"

section \<open>Queries\<close>

abbreviation UDP_PACKET_SIZE :: nat where
  "UDP_PACKET_SIZE \<equiv> 512"

abbreviation LABEL_LENGTH :: nat where
  "LABEL_LENGTH \<equiv> 63"

text \<open>\<^verbatim>\<open>pdq_query_fill\<close>: the loop that copies the labels. \<open>label\<close> is where the length of the current label
  goes, \<open>t\<close> where the next octet goes; both are indices of \<open>q->data\<close>.\<close>

fun fill_labels :: "string \<Rightarrow> nat \<Rightarrow> nat \<Rightarrow> u8 list \<Rightarrow> (nat \<times> nat \<times> u8 list) option" where
  "fill_labels [] label t dat = Some (label, t, dat)"
| "fill_labels (c # s) label t dat =
     (if c = CHR ''.'' then
        (if LABEL_LENGTH < t - label - 1 then None
         else fill_labels s t (t + 1) (dat[label := of_nat (t - label - 1)]))
      else fill_labels s label (t + 1) (dat[t := char_octet c]))"

definition query_header :: "u16 \<Rightarrow> bool \<Rightarrow> u8 list" where
  "query_header ident use_recursion =
     [ucast (drop_bit 8 ident), ucast ident, if use_recursion then 1 else 0, 0, 0, 1, 0, 0, 0, 0, 0, 0]"

text \<open>The result is the packet and its length, or nothing for a name or a label that is too long;
  \<open>ident\<close> is the random identifier.\<close>

definition pdq_query_fill ::
    "u16 \<Rightarrow> u16 \<Rightarrow> u16 \<Rightarrow> string \<Rightarrow> bool \<Rightarrow> (u8 list \<times> nat) option" where
  "pdq_query_fill ident class t nm use_recursion =
     (let len = length nm in
      if DOMAIN_SIZE \<le> len then None
      else
        let needRoot = 0 < len \<and> nm ! (len - 1) \<noteq> CHR ''.'';
            plen = 12 + 1 + len + (if needRoot then 1 else 0) + 2 * 2;
            dat = replicate (UDP_PACKET_SIZE - 12) 0
        in case fill_labels (if deref nm = CHR ''.'' then tl nm else nm) 0 1 dat of
             None \<Rightarrow> None
           | Some (label, p, dat) \<Rightarrow>
               if LABEL_LENGTH < p - label - 1 then None
               else
                 let dat = dat[label := of_nat (p - label - 1)];
                     label = p;
                     dat = (if needRoot then dat[label := 0] else dat);
                     label = (if needRoot then label + 1 else label);
                     dat = dat[label := 0, label + 1 := ucast t, label + 2 := 0,
                               label + 3 := ucast class]
                 in Some (query_header ident use_recursion @ dat, plen))"

section \<open>Replies\<close>

text \<open>\<^verbatim>\<open>pdq_fill_rr\<close>: the record with its name, type and class, and where the next field starts, if the
  fields are within the packet.\<close>

definition pdq_fill_rr ::
    "PDQ_rr \<Rightarrow> u8 list \<Rightarrow> nat \<Rightarrow> nat \<Rightarrow> fault + PDQ_rr \<times> nat option" where
  "pdq_fill_rr r mem plen ptr =
     andthen (copy_name mem plen ptr) (\<lambda>nm.
     let r = r\<lparr>rr_name := nm\<rparr> in
     andthen (pdq_name_skip mem plen ptr) (\<lambda>skip.
     case skip of
       None \<Rightarrow> Inr (r, None)
     | Some ptr \<Rightarrow>
         andthen (get_short mem ptr) (\<lambda>t.
         let r = r\<lparr>rr_type := t\<rparr>; ptr = ptr + 2 in
         if plen \<le> ptr then Inr (r, None)
         else
           andthen (get_short mem ptr) (\<lambda>c.
           let r = r\<lparr>rr_class := c\<rparr>; ptr = ptr + 2 in
           if plen < ptr then Inr (r, None) else Inr (r, Some ptr)))))"

text \<open>\<^verbatim>\<open>pdq_reply_rr\<close>: a new record of the type found, or why there is none.\<close>

datatype reply_rr = RR PDQ_rr nat | RR_EFAULT | RR_EINVAL nat | RR_ENOMEM

definition pdq_reply_rr :: "bool \<Rightarrow> u8 list \<Rightarrow> nat \<Rightarrow> nat \<Rightarrow> fault + reply_rr" where
  "pdq_reply_rr ok mem plen nameptr =
     andthen (pdq_name_skip mem plen nameptr) (\<lambda>skip.
     case skip of
       None \<Rightarrow> Inr RR_EFAULT
     | Some ptr \<Rightarrow>
         andthen (get_short mem ptr) (\<lambda>t.
         let ptr = ptr + 2 in
         if plen \<le> ptr then Inr RR_EFAULT
         else
           andthen (get_short mem ptr) (\<lambda>c.
           let ptr = ptr + 2 in
           if plen < ptr then Inr RR_EFAULT
           else
             case pdqCreate ok t of
               None \<Rightarrow> Inr (if pdqStructOfType t = None then RR_EINVAL ptr else RR_ENOMEM)
             | Some r \<Rightarrow>
                 andthen (copy_name mem plen nameptr) (\<lambda>nm.
                   Inr (RR (r\<lparr>rr_class := c, rr_name := nm\<rparr>) ptr)))))"

text \<open>The data of each type, as the \<open>switch\<close> of \<^verbatim>\<open>pdq_reply_parse\<close> reads them: the record with its data and
  the pointer behind them, or nothing where the code gives up. An address is copied with the length the
  packet gives, whatever the size of the address.\<close>

definition read_address :: "PDQ_rr \<Rightarrow> u8 list \<Rightarrow> nat \<Rightarrow> nat \<Rightarrow> fault + (PDQ_rr \<times> nat) option" where
  "read_address r mem ptr len =
     (let off = (if rr_type r = PDQ_TYPE_A then 12 else 0) in
      if 16 < off + len then Inl OutOfBounds
      else
        andthen (memcpy_from mem ptr len) (\<lambda>bytes.
        let ip = replicate off 0 @ bytes @ replicate (16 - (off + len)) 0;
            (n, str) = formatIP (Some bytes) len 1
              (Some (replicate IPV6_STRING_SIZE NUL)) IPV6_STRING_SIZE
        in Inr (Some (r\<lparr>rr_data := AddressData \<lparr>ip_offset = off, ip_value = ip,
             addr_length = of_nat n, addr_value = the str\<rparr>\<rparr>, ptr + len))))"

definition read_host :: "u8 list \<Rightarrow> nat \<Rightarrow> nat \<Rightarrow> fault + (PDQ_name \<times> nat) option" where
  "read_host mem plen ptr =
     andthen (copy_name mem plen ptr) (\<lambda>nm.
     andthen (pdq_name_skip mem plen ptr) (\<lambda>skip.
       Inr (case skip of None \<Rightarrow> None | Some ptr \<Rightarrow> Some (nm, ptr))))"

definition read_soa :: "PDQ_rr \<Rightarrow> u8 list \<Rightarrow> nat \<Rightarrow> nat \<Rightarrow> fault + (PDQ_rr \<times> nat) option" where
  "read_soa r mem plen ptr =
     andthen (read_host mem plen ptr) (\<lambda>h.
     case h of
       None \<Rightarrow> Inr None
     | Some (mname, ptr) \<Rightarrow>
         andthen (read_host mem plen ptr) (\<lambda>h.
         case h of
           None \<Rightarrow> Inr None
         | Some (rname, ptr) \<Rightarrow>
             andthen (get_long mem ptr) (\<lambda>serial.
             andthen (get_long mem (ptr + 4)) (\<lambda>refresh.
             andthen (get_long mem (ptr + 8)) (\<lambda>retry.
             andthen (get_long mem (ptr + 12)) (\<lambda>expire.
             andthen (get_long mem (ptr + 16)) (\<lambda>minimum.
               Inr (Some (r\<lparr>rr_data := SoaData \<lparr>soa_mname = mname, soa_rname = rname,
                 soa_serial = serial, soa_refresh = refresh, soa_retry = retry,
                 soa_expire = expire, soa_minimum = minimum\<rparr>\<rparr>, ptr + 20)))))))))"

text \<open>A character string of a HINFO record: the length octet, at most 255, fits the buffer.\<close>

definition read_counted :: "u8 list \<Rightarrow> nat \<Rightarrow> fault + PDQ_name \<times> nat" where
  "read_counted mem ptr =
     andthen (octet_at mem ptr) (\<lambda>n.
     andthen (memcpy_from mem (ptr + 1) (unat n)) (\<lambda>s.
       Inr (\<lparr>name_length = ucast n,
              name_value = map octet_char s @ replicate (DOMAIN_SIZE - unat n) NUL\<rparr>,
            ptr + unat n + 1)))"

definition read_data ::
    "bool \<Rightarrow> PDQ_rr \<Rightarrow> u8 list \<Rightarrow> nat \<Rightarrow> nat \<Rightarrow> nat \<Rightarrow> fault + (PDQ_rr \<times> nat) option" where
  "read_data ok r mem plen ptr len =
     (let t = rr_type r in
      if t = PDQ_TYPE_A \<or> t = PDQ_TYPE_AAAA then read_address r mem ptr len
      else if t = PDQ_TYPE_MX then
        andthen (get_short mem ptr) (\<lambda>pref.
        andthen (read_host mem plen (ptr + 2)) (\<lambda>h.
          Inr (map_option (\<lambda>(nm, ptr). (r\<lparr>rr_data := MxData nm pref\<rparr>, ptr)) h)))
      else if t = PDQ_TYPE_NS \<or> t = PDQ_TYPE_PTR \<or> t = PDQ_TYPE_CNAME \<or> t = PDQ_TYPE_DNAME then
        andthen (read_host mem plen ptr) (\<lambda>h.
          Inr (map_option (\<lambda>(nm, ptr). (r\<lparr>rr_data := HostData nm\<rparr>, ptr)) h))
      else if t = PDQ_TYPE_TXT then
        andthen (pdq_txt_create ok mem ptr len) (\<lambda>d.
          Inr (map_option (\<lambda>d. (r\<lparr>rr_data := d\<rparr>, ptr + len)) d))
      else if t = PDQ_TYPE_NULL then
        (if ok then
           andthen (memcpy_from mem ptr len) (\<lambda>s.
             Inr (Some (r\<lparr>rr_data := TextData len (Some s)\<rparr>, ptr + len)))
         else Inr None)
      else if t = PDQ_TYPE_SOA then read_soa r mem plen ptr
      else if t = PDQ_TYPE_HINFO then
        andthen (read_counted mem ptr) (\<lambda>(cpu, ptr).
        andthen (read_counted mem ptr) (\<lambda>(os, ptr).
          Inr (Some (r\<lparr>rr_data := HinfoData cpu os\<rparr>, ptr))))
      else if t = PDQ_TYPE_MINFO then
        andthen (read_host mem plen ptr) (\<lambda>h.
        case h of
          None \<Rightarrow> Inr None
        | Some (rmailbx, ptr) \<Rightarrow>
            andthen (read_host mem plen ptr) (\<lambda>h.
              Inr (map_option (\<lambda>(emailbx, ptr). (r\<lparr>rr_data := HinfoData rmailbx emailbx\<rparr>, ptr)) h)))
      else Inr (Some (r, ptr)))"

text \<open>One record of the reply: its record and the pointer behind it; a record of an unknown type is
  skipped; or the code gives up.\<close>

datatype one_record = Record PDQ_rr nat | Skipped nat | Stop_parsing

definition read_record ::
    "bool \<Rightarrow> bool \<Rightarrow> PDQ_section \<Rightarrow> u8 list \<Rightarrow> nat \<Rightarrow> nat \<Rightarrow> fault + one_record" where
  "read_record ok1 ok2 sect mem plen ptr =
     andthen (pdq_reply_rr ok1 mem plen ptr) (\<lambda>rr.
     case rr of
       RR_EFAULT \<Rightarrow> Inr Stop_parsing
     | RR_ENOMEM \<Rightarrow> Inr Stop_parsing
     | RR_EINVAL ptr \<Rightarrow>
         if plen \<le> ptr + 4 then Inr Stop_parsing
         else
           andthen (get_short mem (ptr + 4)) (\<lambda>len.
           if plen \<le> ptr + 6 then Inr Stop_parsing
           else if plen < ptr + 6 + unat len then Inr Stop_parsing
           else Inr (Skipped (ptr + 6 + unat len)))
     | RR r ptr \<Rightarrow>
         andthen (get_long mem ptr) (\<lambda>ttl.
         if plen \<le> ptr + 4 then Inr Stop_parsing
         else
           andthen (get_short mem (ptr + 4)) (\<lambda>len.
           if plen \<le> ptr + 6 then Inr Stop_parsing
           else
             andthen (read_data ok2 (r\<lparr>rr_ttl := ttl, rr_section := sect\<rparr>) mem plen (ptr + 6) (unat len))
               (\<lambda>d. case d of
                  None \<Rightarrow> Inr Stop_parsing
                | Some (r, ptr) \<Rightarrow> if plen < ptr then Inr Stop_parsing else Inr (Record r ptr)))))"

text \<open>Where a record goes: the list is in reverse order, MX records in reverse order of preference.\<close>

fun insert_reply :: "PDQ_rr \<Rightarrow> PDQ_rr list \<Rightarrow> PDQ_rr list" where
  "insert_reply r [] = [r]"
| "insert_reply r (q # qs) =
     (if rr_type q \<noteq> PDQ_TYPE_MX \<or> rr_type r \<noteq> PDQ_TYPE_MX \<or> rr_preference q \<le> rr_preference r
      then r # q # qs else q # insert_reply r qs)"

definition reply_section :: "nat \<Rightarrow> nat \<Rightarrow> nat \<Rightarrow> PDQ_section" where
  "reply_section ancount nscount i =
     (if i < ancount then PDQ_SECTION_ANSWER
      else if i < ancount + nscount then PDQ_SECTION_AUTHORITY else PDQ_SECTION_EXTRA)"

text \<open>The loop over the records; \<open>n\<close> are left, \<open>i\<close> is the number of the next. \<open>None\<close> is \<open>error1\<close>.
  \<open>alloc i\<close> are the answers of the two allocations for record \<open>i\<close>.\<close>

fun reply_records ::
    "(nat \<Rightarrow> bool \<times> bool) \<Rightarrow> (nat \<Rightarrow> PDQ_section) \<Rightarrow> u8 list \<Rightarrow> nat \<Rightarrow> nat \<Rightarrow> nat \<Rightarrow> nat
      \<Rightarrow> PDQ_rr list \<Rightarrow> fault + PDQ_rr list option" where
  "reply_records alloc sect mem plen 0 i ptr rrs = Inr (Some rrs)"
| "reply_records alloc sect mem plen (Suc n) i ptr rrs =
     andthen (read_record (fst (alloc i)) (snd (alloc i)) (sect i) mem plen ptr) (\<lambda>one.
     case one of
       Stop_parsing \<Rightarrow> Inr None
     | Skipped ptr \<Rightarrow> reply_records alloc sect mem plen n (i + 1) ptr rrs
     | Record r ptr \<Rightarrow> reply_records alloc sect mem plen n (i + 1) ptr (insert_reply r rrs))"

text \<open>The header in place: \<^verbatim>\<open>pdqPoll\<close> and \<^verbatim>\<open>pdq_reply_parse\<close> store its fields in host order, which on a
  little-endian machine swaps the octets of each.\<close>

definition host_header :: "u8 list \<Rightarrow> u8 list" where
  "host_header mem = concat (map (\<lambda>i. [mem ! (2 * i + 1), mem ! (2 * i)]) [0..<6]) @ drop 12 mem"

text \<open>\<^verbatim>\<open>pdq_reply_parse\<close> on a packet of at least a header, in network order; \<open>now\<close> is the time. The result is
  the response code and the list.\<close>

definition pdq_reply_parse ::
    "bool \<Rightarrow> (nat \<Rightarrow> bool \<times> bool) \<Rightarrow> int \<Rightarrow> u8 list \<Rightarrow> nat \<Rightarrow> fault + nat \<times> PDQ_rr list" where
  "pdq_reply_parse ok alloc now net plen =
     (let flags = NET_GET_SHORT (drop 2 net);
          qdcount = NET_GET_SHORT (drop 4 net); ancount = NET_GET_SHORT (drop 6 net);
          nscount = NET_GET_SHORT (drop 8 net); arcount = NET_GET_SHORT (drop 10 net);
          mem = host_header net;
          rcode = unat (flags AND 0xf)
      in case pdqCreate ok PDQ_TYPE_ANY of
           None \<Rightarrow> Inr (PDQ_RCODE_ERRNO, [])
         | Some q \<Rightarrow>
             let q = q\<lparr>rr_data := QueryData \<lparr>q_created = now, q_flags = flags, q_rcode = rcode,
                   q_qdcount = qdcount, q_ancount = ancount, q_nscount = nscount,
                   q_arcount = arcount\<rparr>, rr_section := PDQ_SECTION_QUERY\<rparr>
             in andthen (pdq_fill_rr q mem plen 12) (\<lambda>(q, next).
                  let ptr = (case next of None \<Rightarrow> 12 | Some p \<Rightarrow> p) in
                  if rcode \<noteq> PDQ_RCODE_OK then Inr (rcode, [q])
                  else
                    andthen (reply_records alloc (reply_section (unat ancount) (unat nscount)) mem plen
                        (unat ancount + unat nscount + unat arcount) 0 ptr []) (\<lambda>rrs.
                      case rrs of
                        None \<Rightarrow> Inr (PDQ_RCODE_ERRNO, [])
                      | Some rrs \<Rightarrow> Inr (rcode, q # pdqListReverse rrs))))"

end
