(* ===== verification/DnsNames.thy ===== *)
theory DnsNames
  imports DnsPackets
begin

text \<open>
  Names on the wire (\<^verbatim>\<open>pdq_name_copy\<close>, \<^verbatim>\<open>pdq_name_skip\<close> and \<^verbatim>\<open>pdq_query_fill\<close> of \<^verbatim>\<open>net/pdq.c\<close>). The
  predicate \<open>name_at\<close> is the format of RFC 1035 with its compression pointers; what the reader makes of
  it, when it returns, how far it writes, and that it reads back what a query has.
\<close>

section \<open>Names in a packet\<close>

definition dns_label :: "string \<Rightarrow> bool" where
  "dns_label l \<longleftrightarrow> l \<noteq> [] \<and> length l \<le> LABEL_LENGTH \<and> CHR ''.'' \<notin> set l \<and> NUL \<notin> set l"

definition wire_label :: "string \<Rightarrow> u8 list" where
  "wire_label l = of_nat (length l) # map char_octet l"

definition dots :: "string list \<Rightarrow> string" where
  "dots ls = concat (map (\<lambda>l. l @ ''.'') ls)"

definition dns_text :: "string list \<Rightarrow> string" where
  "dns_text ls = (if ls = [] then ''.'' else dots ls)"

text \<open>\<open>name_at mem plen p ls q\<close>: at \<open>p\<close> the packet has the name of the labels \<open>ls\<close>, possibly continued
  through compression pointers, and the next field starts at \<open>q\<close>.\<close>

inductive name_at :: "u8 list \<Rightarrow> nat \<Rightarrow> nat \<Rightarrow> string list \<Rightarrow> nat \<Rightarrow> bool" for mem plen where
  root: "p < plen \<Longrightarrow> octet_at mem p = Inr 0 \<Longrightarrow> name_at mem plen p [] (p + 1)"
| pointer: "p + 2 \<le> plen \<Longrightarrow> octet_at mem p = Inr b \<Longrightarrow> b AND 0xc0 = 0xc0 \<Longrightarrow> get_short mem p = Inr s \<Longrightarrow>
    name_at mem plen (unat (s AND 0x3fff)) ls q \<Longrightarrow> name_at mem plen p ls (p + 2)"
| label: "p < plen \<Longrightarrow> dns_label l \<Longrightarrow> prefix (wire_label l) (drop p mem) \<Longrightarrow>
    name_at mem plen (p + length l + 1) ls q \<Longrightarrow> name_at mem plen p (l # ls) q"

lemma octet_char_octet [simp]: "octet_char (char_octet c) = c"
proof -
  have "unat (of_nat (ord c) :: u8) = ord c" by (simp add: unsigned_of_nat take_bit_eq_mod)
  then show ?thesis by (simp add: octet_char_def char_octet_def)
qed

lemma char_octet_octet [simp]: "char_octet (octet_char b) = b"
proof -
  have "unat b < 256" using unsigned_less [of b] by simp
  then show ?thesis by (simp add: octet_char_def char_octet_def)
qed

lemma char_octet_eq_0 [simp]: "char_octet c = 0 \<longleftrightarrow> c = NUL"
  by (metis char_octet_octet octet_char_octet octet_char_def unsigned_0 chr_ord ord_NUL)

lemma octet_at_Inr: "octet_at mem p = Inr b \<longleftrightarrow> p < length mem \<and> mem ! p = b"
  by (cases "p < length mem") (auto simp: octet_at_def Cons_nth_drop_Suc [symmetric])

lemma label_octet:
  assumes "dns_label l"
  shows "unat (of_nat (length l) :: u8) = length l" "(of_nat (length l) :: u8) \<noteq> 0"
    "(of_nat (length l) :: u8) AND 0xc0 \<noteq> 0xc0"
proof -
  have lt: "length l < 64" "l \<noteq> []" using assms by (simp_all add: dns_label_def)
  show u: "unat (of_nat (length l) :: u8) = length l"
    using lt by (simp add: unsigned_of_nat take_bit_eq_mod)
  show "(of_nat (length l) :: u8) \<noteq> 0" using u lt by (metis length_0_conv unsigned_0)
  show "(of_nat (length l) :: u8) AND 0xc0 \<noteq> 0xc0"
  proof
    assume eq: "(of_nat (length l) :: u8) AND 0xc0 = 0xc0"
    have "(of_nat (length l) :: u8) AND 0xc0 \<le> of_nat (length l)" by (rule word_and_le2)
    then have "unat ((of_nat (length l) :: u8) AND 0xc0) \<le> length l"
      using u by (simp add: word_le_nat_alt)
    then show False using lt unfolding eq by simp
  qed
qed

lemma strncpy_from_label:
  assumes "dns_label l" "prefix (map char_octet l) (drop p mem)"
  shows "strncpy_from mem p (length l) = Inr l"
proof -
  obtain rest where rest: "drop p mem = map char_octet l @ rest" using assms(2) by (auto simp: prefix_def)
  have tw: "takeWhile (\<lambda>b. b \<noteq> 0) (map char_octet l) = map char_octet l"
    using assms(1) by (auto simp: takeWhile_eq_all_conv dns_label_def)
  show ?thesis by (simp add: strncpy_from_def rest tw comp_def)
qed

text \<open>The loop of \<open>pdq_name_copy\<close> on such a name: it stops at the root label with the name in text written,
  if the buffer has room.\<close>

abbreviation name_copy_loop :: "u8 list \<Rightarrow> nat \<Rightarrow> nat \<Rightarrow> name_state \<Rightarrow> name_state option" where
  "name_copy_loop mem plen sz \<equiv> while_option (name_copy_guard mem plen) (name_copy_step mem sz)"

lemma name_copy_loop_step:
  "name_copy_guard mem plen st \<Longrightarrow> name_copy_loop mem plen sz st = name_copy_loop mem plen sz (name_copy_step mem sz st)"
  by (subst while_option_unfold) simp

lemma name_copy_loop_end: "\<not> name_copy_guard mem plen st \<Longrightarrow> name_copy_loop mem plen sz st = Some st"
  by (subst while_option_unfold) simp

lemma name_copy_loop_name:
  assumes "name_at mem plen p ls q" "length out + length (dots ls) \<le> sz"
  shows "\<exists>e < plen. octet_at mem e = Inr 0 \<and>
    name_copy_loop mem plen sz (p, out, None) = Some (e, out @ dots ls, None)"
  using assms
proof (induction arbitrary: out rule: name_at.induct)
  case (root p)
  then have "\<not> name_copy_guard mem plen (p, out, None)" by (simp add: name_copy_guard_def)
  then show ?case using root
    by (intro exI [of _ p]) (simp add: name_copy_loop_end dots_def)
next
  case (pointer p b s ls q)
  then have "b \<noteq> 0" by auto
  then have "name_copy_guard mem plen (p, out, None)"
    using pointer by (simp add: name_copy_guard_def)
  moreover have "name_copy_step mem sz (p, out, None) = (unat (s AND 0x3fff), out, None)"
    using pointer by (simp add: name_copy_step_def)
  ultimately show ?case using pointer.IH [OF pointer.prems] by (simp add: name_copy_loop_step)
next
  case (label p l ls q)
  obtain rest where rest: "drop p mem = wire_label l @ rest" using label.hyps(3) by (auto simp: prefix_def)
  have oct: "octet_at mem p = Inr (of_nat (length l))"
    by (simp add: octet_at_def rest wire_label_def)
  have "drop (p + 1) mem = tl (drop p mem)" by (simp add: drop_Suc tl_drop)
  then have "prefix (map char_octet l) (drop (p + 1) mem)"
    by (simp add: rest wire_label_def)
  then have cp: "strncpy_from mem (p + 1) (length l) = Inr l"
    using label.hyps(2) by (rule strncpy_from_label [rotated])
  have "length l < sz - length out" using label.prems by (simp add: dots_def)
  then have "name_copy_step mem sz (p, out, None) = (p + length l + 1, out @ l @ ''.'', None)"
    using oct cp label_octet [OF label.hyps(2)] by (simp add: name_copy_step_def)
  moreover have "name_copy_guard mem plen (p, out, None)"
    using label.hyps(1) oct label_octet(2) [OF label.hyps(2)] by (simp add: name_copy_guard_def)
  moreover have "\<exists>e < plen. octet_at mem e = Inr 0 \<and>
      name_copy_loop mem plen sz (p + length l + 1, out @ l @ ''.'', None) =
        Some (e, (out @ l @ ''.'') @ dots ls, None)"
    using label.prems by (intro label.IH) (simp add: dots_def)
  ultimately show ?case by (simp add: name_copy_loop_step dots_def)
qed

lemma pdq_name_copy_name:
  assumes "name_at mem plen p ls q" "length (dns_text ls) < sz"
  shows "pdq_name_copy mem plen p sz = Inr (int (length (dns_text ls)), dns_text ls)"
proof -
  have "length (dots ls) \<le> length (dns_text ls)" by (simp add: dns_text_def dots_def)
  then obtain e where "e < plen" "name_copy_loop mem plen sz (p, [], None) = Some (e, dots ls, None)"
    using name_copy_loop_name [OF assms(1), of "[]" sz] assms(2) by auto
  moreover have "dots ls = [] \<longleftrightarrow> ls = []" by (cases ls) (auto simp: dots_def)
  ultimately show ?thesis using assms(2) by (simp add: pdq_name_copy_def dns_text_def Let_def)
qed

lemma name_skip_loop_name:
  assumes "name_at mem plen p ls q" "q \<le> plen"
  shows "name_skip_loop mem plen p = Inr (q - 1) \<and> 0 < q"
  using assms
proof (induction rule: name_at.induct)
  case (root p)
  then show ?case by (subst name_skip_loop.simps) simp
next
  case (pointer p b s ls q)
  then show ?case by (subst name_skip_loop.simps) auto
next
  case (label p l ls q)
  obtain rest where "drop p mem = wire_label l @ rest" using label.hyps(3) by (auto simp: prefix_def)
  then have "octet_at mem p = Inr (of_nat (length l))" by (simp add: octet_at_def wire_label_def)
  then show ?case using label label_octet [OF label.hyps(2)]
    by (subst name_skip_loop.simps) simp
qed

lemma name_at_start: "name_at mem plen p ls q \<Longrightarrow> p < plen"
  by (induction rule: name_at.induct) auto

lemma name_at_end: "name_at mem plen p ls q \<Longrightarrow> q \<le> plen"
  by (induction rule: name_at.induct) auto


section \<open>Bounds and termination\<close>

lemma strncpy_from_length: "strncpy_from mem p n = Inr s \<Longrightarrow> length s = n"
proof -
  have "length (takeWhile (\<lambda>b. b \<noteq> 0) (take n (drop p mem))) \<le> n"
    by (rule le_trans [OF length_takeWhile_le]) simp
  then show "strncpy_from mem p n = Inr s \<Longrightarrow> length s = n"
    by (auto simp: strncpy_from_def Let_def split: if_splits)
qed

lemma strncpy_from_ok:
  assumes "p + n \<le> length mem" shows "\<exists>s. strncpy_from mem p n = Inr s"
  using assms by (simp add: strncpy_from_def Let_def)

lemma name_copy_step_bound:
  assumes "length out \<le> sz" "name_copy_step mem sz (p, out, left) = (p', out', left')"
  shows "length out' \<le> sz"
  using assms
  by (auto simp: name_copy_step_def dest!: strncpy_from_length split: sum.splits if_splits)

lemma name_copy_loop_bound:
  assumes "name_copy_loop mem plen sz (p, [], None) = Some (p', out, left)"
  shows "length out \<le> sz"
proof -
  have "(\<lambda>(p, out, left). length out \<le> sz) (p', out, left)"
    by (rule while_option_rule [OF _ assms]) (auto dest: name_copy_step_bound)
  then show ?thesis by simp
qed

lemma pdq_name_copy_end:
  assumes "name_copy_loop mem plen sz (p, [], None) = Some (p', out, left)"
  shows "pdq_name_copy mem plen p sz =
    (case left of
       Some (Inl e) \<Rightarrow> Inl e
     | Some (Inr u) \<Rightarrow> Inr (-1, out)
     | None \<Rightarrow>
         if plen \<le> p' then (if length out < sz then Inr (-1, out) else Inl OutOfBounds)
         else if sz \<le> max 1 (length out) then Inr (-1, if out = [] then ''.'' else out)
         else Inr (max 1 (int (length out)), if out = [] then ''.'' else out))"
proof (cases left)
  case None
  have "out \<noteq> [] \<Longrightarrow> max 1 (length out) = length out \<and> max 1 (int (length out)) = int (length out)"
    by (cases out) auto
  then show ?thesis using None by (cases "out = []") (simp_all add: pdq_name_copy_def assms)
next
  case (Some r)
  then show ?thesis by (cases r) (simp_all add: pdq_name_copy_def assms)
qed

lemma pdq_name_copy_result:
  assumes "pdq_name_copy mem plen p sz = Inr (n, out)" and "0 < sz"
  shows "length out \<le> sz \<and> (n = -1 \<or> n = int (length out) \<and> out \<noteq> [] \<and> length out < sz)"
proof -
  obtain p' out' left where st: "name_copy_loop mem plen sz (p, [], None) = Some (p', out', left)"
    using assms(1) by (cases "name_copy_loop mem plen sz (p, [], None)") (auto simp: pdq_name_copy_def)
  have b: "length out' \<le> sz" by (rule name_copy_loop_bound [OF st])
  show ?thesis
  proof (cases left)
    case None
    show ?thesis using assms b unfolding pdq_name_copy_end [OF st] None
      by (cases out') (auto split: if_splits)
  next
    case (Some r)
    show ?thesis using assms b unfolding pdq_name_copy_end [OF st] Some
      by (cases r) auto
  qed
qed

text \<open>Compression pointers that lead backwards only.\<close>

definition backward_pointers :: "u8 list \<Rightarrow> nat \<Rightarrow> bool" where
  "backward_pointers mem plen \<longleftrightarrow>
     (\<forall>p < plen. \<forall>s. octet_at mem p \<noteq> Inr 0 \<and> get_short mem p = Inr s
        \<and> mem ! p AND 0xc0 = 0xc0 \<longrightarrow> unat (s AND 0x3fff) < p)"

lemma name_copy_step_measure:
  assumes bw: "backward_pointers mem plen" and g: "name_copy_guard mem plen (p, out, None)"
    and st: "name_copy_step mem sz (p, out, None) = (p', out', None)" and le: "length out \<le> sz"
  shows "(sz - length out') * (plen + 300) + p' < (sz - length out) * (plen + 300) + p"
proof -
  have p: "p < plen" "octet_at mem p \<noteq> Inr 0" using g by (simp_all add: name_copy_guard_def)
  obtain n where n: "octet_at mem p = Inr n" using st by (auto simp: name_copy_step_def split: sum.splits)
  then have n0: "n \<noteq> 0" "mem ! p = n" using p by (auto simp: octet_at_Inr)
  show ?thesis
  proof (cases "n AND 0xc0 = 0xc0")
    case True
    then obtain s where "get_short mem p = Inr s" "p' = unat (s AND 0x3fff)" "out' = out"
      using st n by (auto simp: name_copy_step_def split: sum.splits)
    then show ?thesis using bw p n0 True by (auto simp: backward_pointers_def)
  next
    case False
    then obtain s where s: "strncpy_from mem (p + 1) (unat n) = Inr s" "unat n < sz - length out"
        "p' = p + unat n + 1" "out' = out @ s @ ''.''"
      using st n by (auto simp: name_copy_step_def not_le split: sum.splits if_splits)
    have len: "length out' = length out + (unat n + 1)" using s by (simp add: strncpy_from_length)
    have "unat n < 256" using unsigned_less [of n] by simp
    moreover have "sz - length out = (sz - length out') + (unat n + 1)" using len s(2) by simp
    then have "(sz - length out) * (plen + 300) =
        (sz - length out') * (plen + 300) + (unat n + 1) * (plen + 300)"
      by (metis add_mult_distrib)
    moreover have "1 * (plen + 300) \<le> (unat n + 1) * (plen + 300)" by (rule mult_le_mono1) simp
    moreover define A C where "A = (sz - length out') * (plen + 300)" and "C = (unat n + 1) * (plen + 300)"
    ultimately have "(sz - length out) * (plen + 300) = A + C" "unat n + 1 < C" by simp_all
    then show ?thesis unfolding s(3) A_def [symmetric] by simp
  qed
qed

lemma name_copy_loop_returns:
  assumes "backward_pointers mem plen"
  shows "\<exists>st. name_copy_loop mem plen sz (p, [], None) = Some st"
proof (rule measure_while_option_Some [where P = "\<lambda>(p, out, left). length out \<le> sz"
      and f = "\<lambda>(p, out, left). if left = None then (sz - length out) * (plen + 300) + p + 1 else 0"])
  fix st assume st: "(\<lambda>(p, out, left). length out \<le> sz) st" "name_copy_guard mem plen st"
  obtain p out left where eq: "st = (p, out, left)" by (cases st)
  have left: "left = None" using st(2) by (simp add: eq name_copy_guard_def)
  obtain p' out' left' where step: "name_copy_step mem sz (p, out, None) = (p', out', left')"
    by (cases "name_copy_step mem sz (p, out, None)")
  have "length out' \<le> sz" using st(1) step eq by (auto intro: name_copy_step_bound)
  moreover have "(sz - length out') * (plen + 300) + p' < (sz - length out) * (plen + 300) + p"
    if "left' = None"
    using name_copy_step_measure [OF assms, of p out] st step that left by (simp add: eq)
  ultimately show "(\<lambda>(p, out, left). length out \<le> sz) (name_copy_step mem sz st) \<and>
      (\<lambda>(p, out, left). if left = None then (sz - length out) * (plen + 300) + p + 1 else 0)
        (name_copy_step mem sz st)
      < (\<lambda>(p, out, left). if left = None then (sz - length out) * (plen + 300) + p + 1 else 0) st"
    by (simp add: eq left step)
qed simp

text \<open>C8: If every compression pointer of the packet leads to a place before it, \<open>pdq_name_copy\<close> returns,
  whatever the packet holds otherwise. Whenever it returns, it has written at most the buffer, and the
  length it returns is that of the name and leaves room for the null, or it is -1.\<close>

theorem pdq_name_copy_returns:
  assumes "backward_pointers mem plen" and "0 < sz"
  shows "pdq_name_copy mem plen p sz \<noteq> Inl NoReturn \<and>
    (case pdq_name_copy mem plen p sz of
       Inl e \<Rightarrow> e = OutOfBounds
     | Inr (n, out) \<Rightarrow>
         length out \<le> sz \<and> (n = -1 \<or> n = int (length out) \<and> out \<noteq> [] \<and> length out < sz))"
proof -
  obtain p' out left where st: "name_copy_loop mem plen sz (p, [], None) = Some (p', out, left)"
    using name_copy_loop_returns [OF assms(1)] by (metis prod_cases3)
  have "(\<lambda>(p, out, left). \<forall>e. left = Some (Inl e) \<longrightarrow> e = OutOfBounds) (p', out, left)"
    by (rule while_option_rule [OF _ st])
      (auto simp: name_copy_step_def octet_at_def get_short_def strncpy_from_def Let_def
        split: sum.splits if_splits list.splits)
  then have "pdq_name_copy mem plen p sz = Inl e \<Longrightarrow> e = OutOfBounds" for e
    unfolding pdq_name_copy_end [OF st] by (auto split: option.splits sum.splits if_splits)
  then show ?thesis using pdq_name_copy_result [OF _ assms(2)]
    by (auto split: sum.splits)
qed

section \<open>Names written out\<close>

definition wire_labels :: "string list \<Rightarrow> u8 list" where
  "wire_labels ls = concat (map wire_label ls)"

lemma length_wire_label [simp]: "length (wire_label l) = length l + 1"
  by (simp add: wire_label_def)

lemma length_wire_labels: "length (wire_labels ls) = length (dots ls)"
  by (induction ls) (simp_all add: wire_labels_def dots_def)

lemma drop_appendD:
  assumes "drop p xs = ys @ zs" shows "drop (p + length ys) xs = zs"
proof -
  have "drop (p + length ys) xs = drop (length ys) (drop p xs)" by (simp add: add.commute)
  then show ?thesis by (simp add: assms)
qed

lemma name_at_wire:
  assumes "drop p mem = wire_labels ls @ 0 # rest" "\<forall>l \<in> set ls. dns_label l"
    and "p + length (wire_labels ls) + 1 \<le> plen"
  shows "name_at mem plen p ls (p + length (wire_labels ls) + 1)"
  using assms
proof (induction ls arbitrary: p)
  case Nil
  then show ?case
    using name_at.root [of p plen mem] by (simp add: wire_labels_def octet_at_def)
next
  case (Cons l ls)
  have "drop (p + length (wire_label l)) mem = wire_labels ls @ 0 # rest"
    using Cons.prems(1) by (intro drop_appendD) (simp add: wire_labels_def)
  then have "name_at mem plen (p + length l + 1) ls (p + length l + 1 + length (wire_labels ls) + 1)"
    using Cons.prems by (intro Cons.IH) (simp_all add: wire_labels_def)
  then have "name_at mem plen p (l # ls) (p + length l + 1 + length (wire_labels ls) + 1)"
    using Cons.prems by (intro name_at.label) (simp_all add: wire_labels_def)
  then show ?case by (simp add: wire_labels_def add.assoc)
qed

lemma name_at_compressed:
  assumes "name_at mem plen w ls q'" "p + 2 \<le> plen"
    and "drop p mem = b # c # rest" "b AND 0xc0 = 0xc0" "unat (NET_GET_SHORT [b, c] AND 0x3fff) = w"
  shows "name_at mem plen p ls (p + 2)"
proof (rule name_at.pointer [OF assms(2) _ assms(4)])
  show "octet_at mem p = Inr b" by (simp add: octet_at_def assms(3))
  have "length (drop p mem) = 2 + length rest" unfolding assms(3) by simp
  then have "p + 2 \<le> length mem" unfolding length_drop by linarith
  then show "get_short mem p = Inr (NET_GET_SHORT [b, c])"
    by (simp add: get_short_def assms(3) NET_GET_SHORT_def)
  show "name_at mem plen (unat (NET_GET_SHORT [b, c] AND 0x3fff)) ls q'"
    using assms(1,5) by simp
qed

definition ex_packet :: "u8 list" where
  "ex_packet = replicate 12 0 @ wire_labels [''ab'', ''c''] @ [0, 0xc0, 12] @ replicate 8 0"

lemma ex_packet_name: "name_at ex_packet 20 12 [''ab'', ''c''] 18"
proof -
  have "name_at ex_packet 20 12 [''ab'', ''c''] (12 + length (wire_labels [''ab'', ''c'']) + 1)"
    by (rule name_at_wire [where rest = "0xc0 # 12 # replicate 8 0"])
      (auto simp: ex_packet_def wire_labels_def dns_label_def)
  then show ?thesis by (simp add: wire_labels_def)
qed


lemma ex_packet_pointer: "backward_pointers ex_packet 20"
proof -
  have eq: "ex_packet = [0, 0, 0, 0, 0, 0, 0, 0, 0, 0, 0, 0, 2, 97, 98, 1, 99, 0, 0xc0, 12, 0, 0, 0, 0, 0, 0, 0, 0]"
    by (simp add: ex_packet_def wire_labels_def wire_label_def char_octet_def ord_def eval_nat_numeral)
  have "list_all (\<lambda>p. ex_packet ! p AND 0xc0 = 0xc0 \<longrightarrow> p = 18) [0..<20]"
    unfolding eq by code_simp
  then have "\<And>p. p < 20 \<Longrightarrow> ex_packet ! p AND 0xc0 = 0xc0 \<Longrightarrow> p = 18" by (simp add: list_all_iff)
  moreover have "get_short ex_packet 18 = Inr 0xc00c" by (simp add: eq get_short_def NET_GET_SHORT_def)
  moreover have "unat ((0xc00c :: u16) AND 0x3fff) < 18" by simp
  ultimately show ?thesis unfolding backward_pointers_def by (metis sum.inject(2))
qed

theorem pdq_name_copy_returns_witness:
  "pdq_name_copy ex_packet 20 18 256 \<noteq> Inl NoReturn \<and>
   (case pdq_name_copy ex_packet 20 18 256 of Inl e \<Rightarrow> e = OutOfBounds | Inr (n, out) \<Rightarrow> length out \<le> 256)"
  using pdq_name_copy_returns [OF ex_packet_pointer, of 256 18]
  by (auto split: sum.splits)

text \<open>A compression pointer that points to itself is followed for ever.\<close>

lemma name_copy_self_pointer:
  assumes "octet_at mem p = Inr b" "b AND 0xc0 = 0xc0" "get_short mem p = Inr s"
    and "unat (s AND 0x3fff) = p" "p < plen"
  shows "pdq_name_copy mem plen p sz = Inl NoReturn"
proof -
  have step: "name_copy_step mem sz (p, [], None) = (p, [], None)"
    using assms by (simp add: name_copy_step_def)
  have "b \<noteq> 0" using assms(2) by auto
  then have guard: "name_copy_guard mem plen (p, [], None)"
    using assms by (simp add: name_copy_guard_def)
  have "name_copy_loop mem plen sz (p, [], None) = None"
  proof (rule ccontr)
    assume "name_copy_loop mem plen sz (p, [], None) \<noteq> None"
    then obtain st where st: "name_copy_loop mem plen sz (p, [], None) = Some st" by auto
    have "st = (p, [], None)"
      by (rule while_option_rule [OF _ st]) (simp_all add: step)
    then show False using while_option_stop [OF st] guard by simp
  qed
  then show ?thesis by (simp only: pdq_name_copy_def option.case)
qed

lemma pdq_name_copy_endless:
  "pdq_name_copy (replicate 12 0 @ [0xc0, 12] @ replicate 8 0) 22 12 256 = Inl NoReturn"
proof (rule name_copy_self_pointer)
  have d: "drop 12 (replicate 12 0 @ [0xc0, 12] @ replicate 8 0) = (0xc0 :: u8) # 12 # replicate 8 0"
    by simp
  show "octet_at (replicate 12 0 @ [0xc0, 12] @ replicate 8 0) 12 = Inr 0xc0"
    unfolding octet_at_def d by simp
  show "get_short (replicate 12 0 @ [0xc0, 12] @ replicate 8 0) 12 = Inr 0xc00c"
    unfolding get_short_def d by (simp add: NET_GET_SHORT_def)
qed simp_all

text \<open>The labels that fit, and the end of the packet behind them.\<close>

lemma name_copy_loop_labels:
  assumes "drop p mem = wire_labels ls @ rest" "\<forall>l \<in> set ls. dns_label l"
    and "p + length (wire_labels ls) \<le> plen" "length out + length (dots ls) \<le> sz"
  shows "name_copy_loop mem plen sz (p, out, None) =
    name_copy_loop mem plen sz (p + length (wire_labels ls), out @ dots ls, None)"
  using assms
proof (induction ls arbitrary: p out)
  case (Cons l ls)
  have l: "dns_label l" using Cons.prems(2) by simp
  have dr: "drop p mem = of_nat (length l) # map char_octet l @ wire_labels ls @ rest"
    using Cons.prems(1) by (simp add: wire_labels_def wire_label_def)
  have oct: "octet_at mem p = Inr (of_nat (length l))" by (simp add: octet_at_def dr)
  have dr1: "drop (p + 1) mem = map char_octet l @ wire_labels ls @ rest"
    using drop_appendD [of p mem "[of_nat (length l)]"] dr by simp
  then have cp: "strncpy_from mem (p + 1) (length l) = Inr l"
    by (intro strncpy_from_label [OF l]) simp
  have "length l < sz - length out" using Cons.prems(4) by (simp add: dots_def)
  then have "name_copy_step mem sz (p, out, None) = (p + length l + 1, out @ l @ ''.'', None)"
    using oct cp label_octet [OF l] by (simp add: name_copy_step_def)
  moreover have "name_copy_guard mem plen (p, out, None)"
    using Cons.prems(3) oct label_octet(2) [OF l] by (simp add: name_copy_guard_def wire_labels_def)
  moreover have "name_copy_loop mem plen sz (p + length l + 1, out @ l @ ''.'', None) =
      name_copy_loop mem plen sz (p + length l + 1 + length (wire_labels ls), (out @ l @ ''.'') @ dots ls, None)"
  proof (rule Cons.IH)
    have "drop (length l) (drop (p + 1) mem) = wire_labels ls @ rest" unfolding dr1 by simp
    then show "drop (p + length l + 1) mem = wire_labels ls @ rest" by (simp add: add.commute)
  qed (use Cons.prems in \<open>simp_all add: wire_labels_def dots_def\<close>)
  ultimately show ?case by (simp add: name_copy_loop_step wire_labels_def dots_def add.assoc)
qed (simp add: wire_labels_def dots_def)

text \<open>A name that fills the buffer of 256 characters at the end of the packet: the null is stored behind the
  buffer.\<close>

lemma pdq_name_copy_overrun:
  assumes "dns_label l" "length l = 63"
  shows "pdq_name_copy (replicate 12 0 @ wire_labels [l, l, l, l]) 268 12 256 = Inl OutOfBounds"
proof -
  let ?mem = "replicate 12 0 @ wire_labels [l, l, l, l]"
  have len: "length (wire_labels [l, l, l, l]) = 256" "length (dots [l, l, l, l]) = 256"
    using assms(2) by (simp_all add: wire_labels_def dots_def)
  have "name_copy_loop ?mem 268 256 (12, [], None) =
      name_copy_loop ?mem 268 256 (12 + 256, [] @ dots [l, l, l, l], None)"
    using name_copy_loop_labels [of 12 ?mem "[l, l, l, l]" "[]" 268 "[]" 256] assms len by simp
  moreover have "\<not> name_copy_guard ?mem 268 (268, dots [l, l, l, l], None)"
    by (simp add: name_copy_guard_def)
  ultimately have "name_copy_loop ?mem 268 256 (12, [], None) = Some (268, dots [l, l, l, l], None)"
    by (simp add: name_copy_loop_end)
  from pdq_name_copy_end [OF this] show ?thesis by (simp add: len)
qed

section \<open>A query is read back\<close>

lemma fill_labels_chars:
  assumes "CHR ''.'' \<notin> set l" "length l \<le> length junk"
  shows "fill_labels (l @ s) (length pre) (length pre + 1 + length m) (pre @ x # map char_octet m @ junk) =
    fill_labels s (length pre) (length pre + 1 + length (m @ l))
      (pre @ x # map char_octet (m @ l) @ drop (length l) junk)"
  using assms
proof (induction l arbitrary: m junk)
  case (Cons c l)
  then obtain y ys where junk: "junk = y # ys" by (cases junk) auto
  have c: "c \<noteq> CHR ''.''" using Cons.prems(1) by auto
  have upd: "(pre @ x # map char_octet m @ junk)[length pre + 1 + length m := char_octet c] =
      pre @ x # map char_octet (m @ [c]) @ ys"
    by (simp add: junk list_update_append)
  have "fill_labels ((c # l) @ s) (length pre) (length pre + 1 + length m) (pre @ x # map char_octet m @ junk) =
      fill_labels (l @ s) (length pre) (length pre + 1 + length (m @ [c]))
        (pre @ x # map char_octet (m @ [c]) @ ys)"
    using c upd by simp
  also have "\<dots> = fill_labels s (length pre) (length pre + 1 + length ((m @ [c]) @ l))
      (pre @ x # map char_octet ((m @ [c]) @ l) @ drop (length l) ys)"
    using Cons.prems junk by (intro Cons.IH) auto
  finally show ?case by (simp add: junk)
qed simp

lemma fill_labels_label:
  assumes "dns_label l" "length l < length junk"
  shows "fill_labels (l @ s) (length pre) (length pre + 1) (pre @ junk) =
    fill_labels s (length pre) (length pre + 1 + length l)
      (pre @ hd junk # map char_octet l @ drop (length l + 1) junk)"
proof -
  obtain x ys where junk: "junk = x # ys" using assms(2) by (cases junk) auto
  show ?thesis
    using fill_labels_chars [of l ys s pre "[]" x] assms by (simp add: junk dns_label_def)
qed

lemma fill_labels_dot:
  assumes "dns_label l" "length l < length junk"
  shows "fill_labels (l @ CHR ''.'' # s) (length pre) (length pre + 1) (pre @ junk) =
    fill_labels s (length (pre @ wire_label l)) (length (pre @ wire_label l) + 1)
      ((pre @ wire_label l) @ drop (length l + 1) junk)"
proof -
  have "length l \<le> LABEL_LENGTH" using assms(1) by (simp add: dns_label_def)
  then show ?thesis unfolding fill_labels_label [OF assms]
    by (simp add: list_update_append wire_label_def)
qed

lemma fill_labels_dots:
  assumes "\<forall>l \<in> set ls. dns_label l" "length (dots ls) < length junk"
  shows "fill_labels (dots ls @ s) (length pre) (length pre + 1) (pre @ junk) =
    fill_labels s (length (pre @ wire_labels ls)) (length (pre @ wire_labels ls) + 1)
      ((pre @ wire_labels ls) @ drop (length (dots ls)) junk)"
  using assms
proof (induction ls arbitrary: pre junk)
  case (Cons l ls)
  have "fill_labels (dots (l # ls) @ s) (length pre) (length pre + 1) (pre @ junk) =
      fill_labels (l @ CHR ''.'' # dots ls @ s) (length pre) (length pre + 1) (pre @ junk)"
    by (simp add: dots_def)
  also have "\<dots> = fill_labels (dots ls @ s) (length (pre @ wire_label l)) (length (pre @ wire_label l) + 1)
      ((pre @ wire_label l) @ drop (length l + 1) junk)"
    using Cons.prems by (intro fill_labels_dot) (simp_all add: dots_def)
  also have "\<dots> = fill_labels s (length ((pre @ wire_label l) @ wire_labels ls))
      (length ((pre @ wire_label l) @ wire_labels ls) + 1)
      (((pre @ wire_label l) @ wire_labels ls) @ drop (length (dots ls)) (drop (length l + 1) junk))"
    using Cons.prems by (intro Cons.IH) (simp_all add: dots_def)
  finally show ?case by (simp add: wire_labels_def dots_def add.commute)
qed (simp add: wire_labels_def dots_def)

text \<open>What \<open>pdq_query_fill\<close> leaves behind the header.\<close>

definition question :: "string list \<Rightarrow> u16 \<Rightarrow> u16 \<Rightarrow> u8 list" where
  "question ls t cl = wire_labels ls @ [0, 0, ucast t, 0, ucast cl]"

lemma dots_append: "dots (ks @ ls) = dots ks @ dots ls"
  by (simp add: dots_def)

lemma pdq_query_fill_eq:
  assumes "\<forall>l \<in> set ls. dns_label l" "ls \<noteq> []" "length (dots ls) < DOMAIN_SIZE"
    and "nm = dots ls \<or> nm = butlast (dots ls)"
  shows "pdq_query_fill ident cl t nm rd =
    Some (query_header ident rd @ question ls t cl @ replicate (495 - length (dots ls)) 0,
          12 + length (dots ls) + 5)"
proof -
  obtain ks l where ls: "ls = ks @ [l]" using assms(2) by (metis rev_exhaust)
  have l: "dns_label l" "l \<noteq> []" "CHR ''.'' \<notin> set l" "length l \<le> LABEL_LENGTH"
    using assms(1) by (auto simp: ls dns_label_def)
  have dls: "dots ls = dots ks @ l @ ''.''" "butlast (dots ls) = dots ks @ l"
    by (simp_all add: ls dots_append) (simp_all add: dots_def butlast_append)
  let ?junk = "replicate 500 0 :: u8 list"
  have first: "deref nm \<noteq> CHR ''.''"
  proof (cases ls)
    case (Cons k ks')
    then have "deref k \<noteq> CHR ''.'' \<and> k \<noteq> []" using assms(1) by (cases k) (auto simp: dns_label_def)
    then show ?thesis using assms(4) Cons by (cases k) (auto simp: dots_def)
  qed (use assms(2) in simp)
  have len: "length (dots ks) + length l + 1 < DOMAIN_SIZE" using assms(3) dls(1) by simp
  note wl = length_wire_labels [of ks] length_wire_labels [of ls]
  show ?thesis
  proof (cases "nm = dots ls")
    case True
    have "fill_labels nm 0 1 ?junk = Some (length (wire_labels ls), length (wire_labels ls) + 1,
        wire_labels ls @ drop (length (dots ls)) ?junk)"
      using fill_labels_dots [of ls ?junk "[]" "[]"] assms(1,3) True by simp
    moreover have "drop (length (dots ls)) ?junk = 0 # 0 # 0 # 0 # 0 # replicate (495 - length (dots ls)) 0"
      using assms(3) by (simp add: drop_replicate numeral_eq_Suc flip: replicate_Suc)
    ultimately show ?thesis
      using assms(3) first True wl
      by (simp add: pdq_query_fill_def Let_def nth_append dls(1) question_def list_update_append)
  next
    case False
    then have nm: "nm = dots ks @ l" using assms(4) dls by simp
    have "last nm = last l" "nm \<noteq> []" using l(2) by (simp_all add: nm)
    then have lastc: "nm ! (length nm - 1) \<noteq> CHR ''.''"
      using l(2,3) last_in_set [of l] last_conv_nth [of nm] by metis
    have "fill_labels nm 0 1 ?junk = Some (length (wire_labels ks), length (wire_labels ks) + 1 + length l,
        wire_labels ks @ 0 # map char_octet l @ replicate (500 - (length (dots ks) + length l + 1)) 0)"
      using fill_labels_dots [of ks ?junk l "[]"] fill_labels_label [of l "drop (length (dots ks)) ?junk" "[]" "wire_labels ks"]
        assms(1) len l(1) by (simp add: nm ls drop_replicate)
    moreover have "replicate (500 - (length (dots ks) + length l + 1)) (0::u8) =
        0 # 0 # 0 # 0 # 0 # replicate (495 - length (dots ls)) 0"
      using len dls(1) by (simp add: numeral_eq_Suc flip: replicate_Suc)
    ultimately show ?thesis
      using assms(3) first lastc wl l(2,4) len
      by (simp add: pdq_query_fill_def Let_def question_def list_update_append ls dots_append
          wire_labels_def wire_label_def nm dots_def)
  qed
qed

lemma copy_name_at:
  assumes "name_at mem plen p ls q" "length (dns_text ls) < DOMAIN_SIZE"
  shows "copy_name mem plen p = Inr (name_of (dns_text ls))"
  using pdq_name_copy_name [OF assms] by (simp add: copy_name_def name_of_def)

lemma pdq_name_skip_at: "name_at mem plen p ls q \<Longrightarrow> pdq_name_skip mem plen p = Inr (Some q)"
  using name_skip_loop_name [of mem plen p ls q] name_at_start [of mem plen p ls q]
    name_at_end [of mem plen p ls q]
  by (simp add: pdq_name_skip_def)

lemma pdq_fill_rr_at:
  assumes "name_at mem plen p ls q" "length (dns_text ls) < DOMAIN_SIZE"
    and "get_short mem q = Inr t" "get_short mem (q + 2) = Inr c" "q + 4 \<le> plen"
  shows "pdq_fill_rr r mem plen p =
    Inr (r\<lparr>rr_name := name_of (dns_text ls), rr_type := t, rr_class := c\<rparr>, Some (q + 4))"
  using assms copy_name_at [OF assms(1,2)] pdq_name_skip_at [OF assms(1)]
  by (simp add: pdq_fill_rr_def Let_def)

lemma get_short_append: "p = length xs \<Longrightarrow> get_short (xs @ a # b # ys) p = Inr (NET_GET_SHORT [a, b])"
  by (simp add: get_short_def NET_GET_SHORT_def)

lemma NET_GET_SHORT_low: "NET_GET_SHORT [0, ucast w] = take_bit 8 w" for w :: u16
  by (rule bit_word_eqI) (auto simp: NET_GET_SHORT_def bit_simps)

lemma length_query_header [simp]: "length (query_header ident rd) = 12"
  by (simp add: query_header_def)

text \<open>C9: \<open>pdq_query_fill\<close> accepts every name of labels of at most 63 characters that has fewer than 256
  characters with the root label, written with or without it; the packet is the question alone, and
  \<open>pdq_fill_rr\<close> reads the name back with the root label, and the type and the class modulo 256.\<close>

theorem pdq_query_fill_read_back:
  assumes "list_all dns_label ls" and "ls \<noteq> []" and "length (dots ls) < DOMAIN_SIZE"
    and "nm = dots ls \<or> nm = butlast (dots ls)"
  shows "case pdq_query_fill ident cl t nm rd of
      None \<Rightarrow> False
    | Some (mem, plen) \<Rightarrow> length mem = UDP_PACKET_SIZE \<and> plen = length (dots ls) + 17 \<and>
        pdq_fill_rr r mem plen 12 =
          Inr (r\<lparr>rr_name := name_of (dots ls), rr_type := take_bit 8 t, rr_class := take_bit 8 cl\<rparr>,
               Some plen)"
proof -
  let ?mem = "query_header ident rd @ question ls t cl @ replicate (495 - length (dots ls)) 0"
  let ?plen = "12 + length (dots ls) + 5"
  note wl = length_wire_labels [of ls]
  have ok: "\<forall>l \<in> set ls. dns_label l" using assms(1) by (simp add: list_all_iff)
  have "name_at ?mem ?plen 12 ls (12 + length (wire_labels ls) + 1)"
    using ok by (intro name_at_wire) (auto simp: question_def wl)
  moreover have "get_short ?mem (12 + length (wire_labels ls) + 1) = Inr (take_bit 8 t)"
    using get_short_append [of "12 + length (wire_labels ls) + 1"
      "query_header ident rd @ wire_labels ls @ [0]" 0 "ucast t"]
    by (simp add: question_def NET_GET_SHORT_low)
  moreover have "get_short ?mem (12 + length (wire_labels ls) + 1 + 2) = Inr (take_bit 8 cl)"
    using get_short_append [of "12 + length (wire_labels ls) + 1 + 2"
      "query_header ident rd @ wire_labels ls @ [0, 0, ucast t]" 0 "ucast cl"]
    by (simp add: question_def NET_GET_SHORT_low)
  ultimately have "pdq_fill_rr r ?mem ?plen 12 =
      Inr (r\<lparr>rr_name := name_of (dns_text ls), rr_type := take_bit 8 t, rr_class := take_bit 8 cl\<rparr>,
           Some (12 + length (wire_labels ls) + 1 + 4))"
    using assms(2,3) by (intro pdq_fill_rr_at) (simp_all add: dns_text_def wl)
  then show ?thesis
    using pdq_query_fill_eq [OF ok assms(2-4), of ident cl t rd] assms(2,3) wl
    by (simp add: dns_text_def question_def)
qed

theorem pdq_query_fill_read_back_witness:
  "\<exists>mem. pdq_query_fill 7 PDQ_CLASS_IN PDQ_TYPE_MX ''ab.c'' True = Some (mem, 22) \<and>
    pdq_fill_rr (the (pdqCreate True PDQ_TYPE_ANY)) mem 22 12 =
      Inr ((the (pdqCreate True PDQ_TYPE_ANY))\<lparr>rr_name := name_of ''ab.c.'', rr_type := 15,
        rr_class := 1\<rparr>, Some 22)"
proof -
  have "list_all dns_label [''ab'', ''c'']" "dots [''ab'', ''c''] = ''ab.c.''"
    by (auto simp: dns_label_def dots_def)
  then show ?thesis
    using pdq_query_fill_read_back [where ls = "[''ab'', ''c'']" and nm = "''ab.c''" and ident = 7 and cl = PDQ_CLASS_IN and t = PDQ_TYPE_MX and rd = True
        and r = "the (pdqCreate True PDQ_TYPE_ANY)"]
    by (auto simp: pdq_types pdq_classes split: option.splits prod.splits)
qed

text \<open>A name that starts with a dot, and the root itself: one more octet is sent than is written.\<close>

lemma pdq_query_fill_leading_dot:
  "map_option snd (pdq_query_fill 7 PDQ_CLASS_IN PDQ_TYPE_NS ''.'' True) = Some 18"
  "map_option snd (pdq_query_fill 7 PDQ_CLASS_IN PDQ_TYPE_NS '''' True) = Some 17"
  by (simp_all add: pdq_query_fill_def)

end
