(* ===== verification/Spec2Isabelle.thy ===== *)
theory Spec2Isabelle
  imports CPrelude TextOps NetSpan NetParse NetFormat NetRoundTrip NetNetwork NetReverse MailSpan VectorObj LinkedList MessageQueue Base64 ByteBuffers GlobMatch Tokens MimeBoundary HashMaps TreeHeap MailPath TopLevelDomains DnsNames
begin

text \<open>
  LibSnert, a C library for mail and network servers: a verification development.

  \<^bold>\<open>The program.\<close> LibSnert is a collection of C modules used by mail filters and servers. At the
  bottom are text helpers (\<^verbatim>\<open>src/util/Text*.c\<close>, \<^verbatim>\<open>Token*.c\<close>), byte buffers
  (\<^verbatim>\<open>Buf.c\<close>, \<^verbatim>\<open>buffer.c\<close>), codecs (\<^verbatim>\<open>b64.c\<close>) and containers
  (\<^verbatim>\<open>src/type/\<close>). On them rest the address code of \<^verbatim>\<open>src/net/\<close>, the grammars of
  \<^verbatim>\<open>src/mail/\<close>, and above those the servers and clients that do the input and output. The
  development models the lower layers, where the library's own logic is; the layers that are mostly
  sockets, threads and databases are listed under \<^emph>\<open>Not modelled\<close>.

  \<^bold>\<open>How C is represented.\<close> \<^theory_text>\<open>CPrelude\<close> fixes it: a C string is the list of its
  characters before the null and a pointer into it is a suffix; a function that can index outside an
  object, loop for ever or divide by zero returns \<open>fault + 'a\<close> and the fault is a value of the model;
  sizes that cannot wrap in the modelled range are \<open>nat\<close>, and where wrap-around matters it is written
  out or the type is \<open>32 word\<close> or the like. State is a record that the operations take and
  return. Loops are structural recursions where C's loop has a bound of that shape. The others carry
  fuel, one unit for each pass: \<open>find_loop\<close> and \<open>fini_loop\<close> of the linked list and \<open>split_loop\<close> of
  \<open>TextSplit\<close> do so, and the properties about them prove that as many units as there are items
  (words, plus one) are enough; the MIME parser's \<open>replay\<close> has the size of the source buffer plus one,
  and \<open>source_fn\<close> the nesting 2, because the states replay enters never replay themselves; the
  operations of \<open>TreeHeap\<close> have one unit for each level, and the properties ask for more than the
  height. Without enough the result is the fault \<open>NoReturn\<close>. Allocation is an oracle argument, an
  answer or a list of answers, where its failure is visible in the result.

  \<^bold>\<open>The theories\<close>, in dependency order.

  \<^item> \<open>CPrelude\<close>: characters and \<^verbatim>\<open>ctype.h\<close>, \<^verbatim>\<open>strspn\<close> and its relatives, \<^verbatim>\<open>strtol\<close>,
    faults and the sequencing operator \<open>andthen\<close>, shared lemmas.
  \<^item> \<open>TextOps\<close>: \<^verbatim>\<open>util/Text*.c\<close> (comparison, prefix and suffix tests, case, reversal,
    transliteration, \<open>TextCopy\<close>, \<open>TextCat\<close>, \<open>TextHash\<close>), \<^verbatim>\<open>strlrspn.c\<close>. What the comparisons
    decide and what the bounded copies leave in the buffer.
  \<^item> \<open>NetSpan\<close>: \<^verbatim>\<open>net/spanIP.c\<close>, \<^verbatim>\<open>spanHost.c\<close>, \<^verbatim>\<open>spanLocalPart.c\<close>: how far
    an address, a domain or a local part reaches.
  \<^item> \<open>NetParse\<close>, \<open>NetFormat\<close>, \<open>NetRoundTrip\<close>: \<^verbatim>\<open>net/parseIPv6.c\<close> and \<^verbatim>\<open>net/formatIP.c\<close>
    with every store into the caller's buffers checked; the parser stays in bounds except for the
    strings of one theorem, and it reads back what the formatter writes.
  \<^item> \<open>NetNetwork\<close>: \<^verbatim>\<open>net/network.c\<close>, \<^verbatim>\<open>isReservedIPv4.c\<close>, \<^verbatim>\<open>isReservedIPv6.c\<close>,
    against a table of networks and agreement of leading bits.
  \<^item> \<open>NetReverse\<close>: \<^verbatim>\<open>net/reverse.c\<close>, \<^verbatim>\<open>findIP.c\<close>, \<^verbatim>\<open>isRFC2606.c\<close>.
  \<^item> \<open>MailSpan\<close>: \<^verbatim>\<open>mail/MailSpan.c\<close>, the scanners of the SMTP path grammar, against the
    words of the grammar.
  \<^item> \<open>VectorObj\<close>: \<^verbatim>\<open>type/Vector.c\<close>; locale \<open>seq_ops\<close> is what a sequence of objects promises,
    interpreted on the vector.
  \<^item> \<open>LinkedList\<close>: \<^verbatim>\<open>type/list.c\<close> on an explicit heap of items; locale \<open>item_queue\<close> is what the
    message queue relies on, interpreted on the list operations.
  \<^item> \<open>MessageQueue\<close>: \<^verbatim>\<open>type/queue.c\<close>. A monitor: each critical section is one step of the
    relation \<open>sys_step\<close>, threads block and are woken explicitly, and the invariant \<open>sys_ok\<close> is proved by
    rule induction over \<open>reachable\<close>.
  \<^item> \<open>Base64\<close>: \<^verbatim>\<open>util/b64.c\<close>, encoder and decoder as state machines, both against one reference
    encoding.
  \<^item> \<open>ByteBuffers\<close>: \<^verbatim>\<open>util/Buf.c\<close> and \<^verbatim>\<open>util/buffer.c\<close>; locale \<open>byte_buffer\<close> is
    the contract of a growing buffer, interpreted on both.
  \<^item> \<open>GlobMatch\<close>: \<^verbatim>\<open>util/TextFind.c\<close>, \<^verbatim>\<open>TextMatch.c\<close>, against the language of a
    pattern.
  \<^item> \<open>Tokens\<close>: \<^verbatim>\<open>util/TokenNext.c\<close>, \<^verbatim>\<open>TokenCount.c\<close>, \<^verbatim>\<open>TokenQuote.c\<close>,
    \<^verbatim>\<open>TokenSplit*.c\<close>, \<^verbatim>\<open>TextSplit.c\<close>, \<^verbatim>\<open>TextJoin.c\<close>, \<^verbatim>\<open>TextEscape.c\<close>,
    \<^verbatim>\<open>setBitWord.c\<close>.
  \<^item> \<open>MimeModel\<close>: \<^verbatim>\<open>mail/mime.c\<close>, the parser fed one octet at a time: its record, one datatype of source
    states and one of decoding states for the two function pointers, the call-backs as a trace of events.
    \<open>MimeDecoders\<close> states what a transfer decoder promises (locales \<open>octet_stream\<close> and \<open>transfer_decoder\<close>,
    interpreted on the literal, quoted-printable and base64 states); \<open>MimeParser\<close> proves the invariant
    that keeps every state inside the two buffers; \<open>MimeBodies\<close> shows what reaches the call-backs of a
    body, \<open>MimeBoundary\<close> how a boundary line ends a part.
  \<^item> \<open>HashTables\<close>, \<open>HashMaps\<close>: \<^verbatim>\<open>type/Hash.c\<close> and \<^verbatim>\<open>type/hash2.c\<close>. Locale \<open>key_class\<close> is what the keys
    must satisfy, locale \<open>key_map\<close> the contract of a table, interpreted on both.
  \<^item> \<open>TreeHeap\<close>: \<^verbatim>\<open>type/tree.c\<close>, search trees with parent pointers on an explicit heap.
  \<^item> \<open>MailPath\<close>: \<^verbatim>\<open>mail/parsePath.c\<close>, the parser and the formatter of envelope paths, over the scanners of
    \<open>NetSpan\<close> and the copies of \<open>TextOps\<close>.
  \<^item> \<open>TopLevelDomains\<close>: \<^verbatim>\<open>mail/tlds.c\<close>, loading a table of top level domains and looking a domain up.

  \<^item> \<open>DnsRecords\<close>, \<open>DnsLists\<close>: the resource records of \<^verbatim>\<open>net/pdq.c\<close> and every operation on lists of
    them. What a search may return, how far it follows aliases, what pruning leaves.
  \<^item> \<open>DnsPackets\<close>, \<open>DnsNames\<close>: the packets of \<^verbatim>\<open>net/pdq.c\<close>: the query builder, the names with compression
    pointers and the reply parser. \<open>name_at\<close> is the format of RFC 1035; the reader follows it,
    returns when pointers lead backwards, and reads back what the builder writes. The loop of the reader is a
    \<open>while_option\<close>, so that a name without end is a value of the model; the reply parser has no property of
    its own.

  \<^bold>\<open>Evidence of divergence.\<close> Where the code does something its comments or its callers do not
  expect, the model keeps the code's behaviour and a small closed theorem evaluates it, such as
  \<open>parseIPv6_overrun\<close>, \<open>b64EncodeFinish_overrun\<close>, \<open>TokenNext_trailing_backslash\<close> or
  \<open>queueWaitEmpty_misses_wakeup\<close>.

  \<^bold>\<open>Not modelled.\<close> The programs under \<^verbatim>\<open>src/tools\<close>, sockets, files, logging, threads,
  processes and the platform layer (\<^verbatim>\<open>src/io\<close>, \<^verbatim>\<open>src/sys\<close>), whose content is calls of the
  operating system; the servers and clients built from them (\<^verbatim>\<open>net/server.c\<close>,
  \<^verbatim>\<open>net/http.c\<close>, the sockets, timers and lookups of \<^verbatim>\<open>net/pdq.c\<close>, \<^verbatim>\<open>io/smtpe.c\<close>, \<^verbatim>\<open>mail/smf.c\<close>); the database and
  cache front ends (\<^verbatim>\<open>type/kvm.c\<close>, \<^verbatim>\<open>type/mcc.c\<close>, \<^verbatim>\<open>util/Cache.c\<close>).
\<close>

end
